(* ===== verification/Prelude.thy ===== *)
theory Prelude
  imports Main "HOL-Library.Word" "HOL-Library.AList" "HOL-Library.Multiset" "HOL-Library.Sublist"
begin

text \<open>
  Shared vocabulary of the development: the Go types the components use (fixed-width unsigned
  integers as words, byte slices, strings, maps), the ways a Go function can stop abruptly, and
  the generic list, map and word lemmas that the component theories rely on.

  Go maps are modelled in two ways. A map that the code only looks up is a HOL map
  (\<open>'k \<rightharpoonup> 'v\<close>). A map that the code ranges over is an association list with distinct keys, in
  the order in which one particular iteration visits it; the theorems about such loops never
  depend on that order.
\<close>

section \<open>Types\<close>

type_synonym uint64 = "64 word"
type_synonym uint32 = "32 word"
type_synonym uint16 = "16 word"
type_synonym byte = "8 word"
type_synonym bytes = "byte list"

text \<open>The run-time panics that the modelled code can raise.\<close>

datatype go_panic =
    DivideByZero
  | IndexOutOfRange
  | NilDereference
  | NilMapWrite
  | ExplicitPanic string

type_synonym 'a go = "go_panic + 'a"

text \<open>Go maps that the code iterates over.\<close>

type_synonym ('k, 'v) gomap = "('k \<times> 'v) list"

definition gomap_wf :: "('k, 'v) gomap \<Rightarrow> bool" where
  "gomap_wf m = distinct (map fst m)"

text \<open>\<open>len(m)\<close>, \<open>m[k] = v\<close> and \<open>delete(m, k)\<close>.\<close>

abbreviation gomap_len :: "('k, 'v) gomap \<Rightarrow> nat" where
  "gomap_len m \<equiv> length m"

abbreviation gomap_set :: "'k \<Rightarrow> 'v \<Rightarrow> ('k, 'v) gomap \<Rightarrow> ('k, 'v) gomap" where
  "gomap_set \<equiv> AList.update"

abbreviation gomap_delete :: "'k \<Rightarrow> ('k, 'v) gomap \<Rightarrow> ('k, 'v) gomap" where
  "gomap_delete \<equiv> AList.delete"

text \<open>\<open>append(s[:i], s[i+1:]...)\<close>: the slice without its element at index \<open>i\<close>.\<close>

definition remove_nth :: "nat \<Rightarrow> 'a list \<Rightarrow> 'a list" where
  "remove_nth i xs = take i xs @ drop (Suc i) xs"

text \<open>\<open>strings.HasPrefix\<close> and \<open>strings.TrimPrefix\<close>.\<close>

definition has_prefix :: "string \<Rightarrow> string \<Rightarrow> bool" where
  "has_prefix s p = (take (length p) s = p)"

definition trim_prefix :: "string \<Rightarrow> string \<Rightarrow> string" where
  "trim_prefix s p = (if has_prefix s p then drop (length p) s else s)"

text \<open>\<open>strings.Split(s, sep)\<close> for a separator of one byte.\<close>

fun split_on :: "char \<Rightarrow> string \<Rightarrow> string list" where
  "split_on c [] = [[]]"
| "split_on c (x # xs) =
     (if x = c then [] # split_on c xs
      else (case split_on c xs of [] \<Rightarrow> [[x]] | y # ys \<Rightarrow> (x # y) # ys))"

text \<open>\<open>strings.Join(parts, sep)\<close>.\<close>

fun join_with :: "string \<Rightarrow> string list \<Rightarrow> string" where
  "join_with sep [] = []"
| "join_with sep [s] = s"
| "join_with sep (s # t # ss) = s @ sep @ join_with sep (t # ss)"

text \<open>\<open>[]byte(s)\<close>.\<close>

definition bytes_of_string :: "string \<Rightarrow> bytes" where
  "bytes_of_string s = map of_char s"

text \<open>\<open>strconv.Itoa\<close> and \<open>%d\<close>: the decimal digits of an integer.\<close>

fun digits_of_nat :: "nat \<Rightarrow> string" where
  "digits_of_nat n =
     (if n < 10 then [char_of (48 + n)]
      else digits_of_nat (n div 10) @ [char_of (48 + n mod 10)])"

definition itoa :: "int \<Rightarrow> string" where
  "itoa i = (if i < 0 then CHR ''-'' # digits_of_nat (nat (- i)) else digits_of_nat (nat i))"

section \<open>Collections of rewrite rules\<close>

named_theorems word_index \<open>reading wrapped indices as natural numbers\<close>
named_theorems inv_intros \<open>preservation of component invariants\<close>

section \<open>Lemmas\<close>

declare digits_of_nat.simps [simp del]

lemma gomap_wf_Nil [simp, inv_intros]: "gomap_wf []"
  by (simp add: gomap_wf_def)

lemma gomap_wf_set [inv_intros]: "gomap_wf m \<Longrightarrow> gomap_wf (gomap_set k v m)"
  by (simp add: gomap_wf_def distinct_update)

lemma gomap_wf_delete [inv_intros]: "gomap_wf m \<Longrightarrow> gomap_wf (gomap_delete k m)"
  by (simp add: gomap_wf_def distinct_delete)

lemma gomap_wf_map_of: "gomap_wf m \<Longrightarrow> (k, v) \<in> set m \<Longrightarrow> map_of m k = Some v"
  by (simp add: gomap_wf_def)

lemma length_remove_nth [simp]: "i < length xs \<Longrightarrow> length (remove_nth i xs) = length xs - 1"
  by (simp add: remove_nth_def min_def)

lemma set_remove_nth: "set (remove_nth i xs) \<subseteq> set xs"
  by (auto simp: remove_nth_def dest: in_set_takeD in_set_dropD)

lemma mset_remove_nth: "i < length xs \<Longrightarrow> mset (remove_nth i xs) = mset xs - {#xs ! i#}"
proof -
  assume "i < length xs"
  then have "xs = take i xs @ xs ! i # drop (Suc i) xs" by (rule id_take_nth_drop)
  then have "mset xs = mset (take i xs) + {#xs ! i#} + mset (drop (Suc i) xs)"
    by (metis mset.simps(2) mset_append union_mset_add_mset_left union_mset_add_mset_right add.right_neutral)
  then show ?thesis by (simp add: remove_nth_def)
qed

lemma mset_concat_update:
  "i < length xs \<Longrightarrow> mset (concat (map f (xs[i := v]))) + mset (f (xs ! i)) = mset (concat (map f xs)) + mset (f v)"
proof (induction xs arbitrary: i)
  case (Cons x xs)
  then show ?case by (cases i) (auto simp: union_ac)
qed simp

lemma mset_distinct_subset:
  assumes "distinct xs" and "set xs \<subseteq> set ys"
  shows "mset xs \<subseteq># mset ys"
proof (rule mset_subset_eqI)
  fix a
  show "count (mset xs) a \<le> count (mset ys) a"
    using assms by (cases "a \<in> set xs") (auto simp: distinct_count_atmost_1 Suc_le_eq)
qed

lemma sorted_wrt_distinct: "sorted_wrt R xs \<Longrightarrow> (\<And>x. \<not> R x x) \<Longrightarrow> distinct xs"
  by (induction xs) auto

lemma split_on_nonempty [simp]: "split_on c s \<noteq> []"
  by (induction s) (auto split: list.splits)

lemma has_prefix_append [simp]: "has_prefix (p @ s) p"
  by (simp add: has_prefix_def)

lemma trim_prefix_append [simp]: "trim_prefix (p @ s) p = s"
  by (simp add: trim_prefix_def)

text \<open>
  Indices. A \<open>uint64\<close> position reduced modulo a slice length is an index of the slice, and it is
  the position's value modulo that length as long as the length itself fits in 64 bits.
\<close>

lemma unat_of_nat_64 [word_index]: "n < 2 ^ 64 \<Longrightarrow> unat (of_nat n :: uint64) = n"
  by (simp add: unat_of_nat take_bit_eq_mod)

lemma unat_mod_of_nat [word_index]:
  "n < 2 ^ 64 \<Longrightarrow> unat ((w :: uint64) mod of_nat n) = unat w mod n"
  by (simp add: unat_mod_distrib unat_of_nat_64)

lemma unat_add_one [word_index]:
  "unat (w :: uint64) < 2 ^ 64 - 1 \<Longrightarrow> unat (w + 1) = Suc (unat w)"
  by (simp add: unat_word_ariths)

text \<open>Values collected under keys: what is there under one key.\<close>

lemma filter_key_sum:
  "finite K \<Longrightarrow> filter_mset (\<lambda>x. fst x = k) (\<Sum>k\<in>K. image_mset (\<lambda>e. (k, g e)) (M k)) =
   (if k \<in> K then image_mset (\<lambda>e. (k, g e)) (M k) else {#})"
proof (induction rule: finite_induct)
  case (insert k' K)
  have "filter_mset (\<lambda>x. fst x = k) (image_mset (\<lambda>e. (k', g e)) (M k')) =
      (if k' = k then image_mset (\<lambda>e. (k', g e)) (M k') else {#})"
    by (simp add: filter_mset_image_mset)
  with insert show ?case by auto
qed simp

text \<open>Batches and results.\<close>

lemma subseq_concat: "subseq xss yss \<Longrightarrow> subseq (concat xss) (concat yss)"
  by (induction rule: list_emb.induct) (auto intro: list_emb_append2 list_emb_append_mono)

lemma map_sum_Inr: "map_sum id f x = Inr y \<Longrightarrow> \<exists>z. x = Inr z \<and> y = f z"
  by (cases x) auto

end
