(* ===== verification/Transport.thy ===== *)
theory Transport
  imports Prelude
begin

text \<open>
  How the programs reach each other and how they stop: transport credentials (\<open>plumbing/tls.go\<close>), the options that
  are passed to gRPC, the HTTP clients that the gateway and the traffic controller build, and the two ways in which a
  program ends at start-up.

  Parameter: the package \<open>tlsconfig\<close>, whose \<open>Server\<close> and \<open>Client\<close> return a configuration or an error with a nil
  configuration (\<open>build\<close>).
\<close>

section \<open>Programs that stop\<close>

text \<open>\<open>log.Fatal\<close> ends the process; a panic that nothing recovers ends it too.\<close>

datatype exit = Fatal string | Panicked go_panic

definition fatal :: "string \<Rightarrow> string + 'a \<Rightarrow> exit + 'a" where
  "fatal msg r = (case r of Inl err \<Rightarrow> Inl (Fatal (msg @ err)) | Inr x \<Rightarrow> Inr x)"

definition panics :: "'a go \<Rightarrow> exit + 'a" where
  "panics r = (case r of Inl p \<Rightarrow> Inl (Panicked p) | Inr x \<Rightarrow> Inr x)"

definition and_then :: "'e + 'a \<Rightarrow> ('a \<Rightarrow> 'e + 'b) \<Rightarrow> 'e + 'b" where
  "and_then r f = (case r of Inl e \<Rightarrow> Inl e | Inr x \<Rightarrow> f x)"

lemma and_then_simps [simp]: "and_then (Inl e) f = Inl e" "and_then (Inr x) f = f x"
  by (simp_all add: and_then_def)

lemma and_then_Inr: "and_then r f = Inr y \<longleftrightarrow> (\<exists>x. r = Inr x \<and> f x = Inr y)"
  by (cases r) simp_all

lemma fatal_Inr [simp]: "fatal msg r = Inr x \<longleftrightarrow> r = Inr x" "fatal msg (Inr x) = Inr x" "fatal msg (Inl e) = Inl (Fatal (msg @ e))"
  by (cases r) (simp_all add: fatal_def)

lemma panics_Inr [simp]: "panics r = Inr x \<longleftrightarrow> r = Inr x" "panics (Inr x) = Inr x" "panics (Inl p) = Inl (Panicked p)"
  by (cases r) (simp_all add: panics_def)

section \<open>Transport credentials\<close>

record tls_Config =
  tls_CipherSuites :: "16 word list"
  tls_InsecureSkipVerify :: bool

text \<open>
  What is asked of \<open>tlsconfig\<close>, beside its defaults for internal services: a server with its identity (certificate and
  key) and the authority of its clients, or a client with its identity, the authority of the server and its name.
\<close>

datatype tls_build =
    TlsServer "string \<times> string" "string option"
  | TlsClient "(string \<times> string) option" string "string option"

type_synonym tlsconfig = "tls_build \<Rightarrow> string + tls_Config"

definition cipherMap :: "string \<Rightarrow> 16 word option" where
  "cipherMap c =
     (if c = ''TLS_ECDHE_RSA_WITH_AES_128_GCM_SHA256'' then Some 0xC02F
      else if c = ''TLS_ECDHE_RSA_WITH_AES_256_GCM_SHA384'' then Some 0xC030
      else None)"

fun cipher_loop :: "string list \<Rightarrow> 16 word list" where
  "cipher_loop [] = []"
| "cipher_loop (c # ciphers) =
     (case cipherMap c of None \<Rightarrow> cipher_loop ciphers | Some cipher \<Rightarrow> cipher # cipher_loop ciphers)"

text \<open>The option is called with a pointer, which is nil after a failed \<open>Build\<close>.\<close>

type_synonym ConfigOption = "tls_Config option \<Rightarrow> tls_Config option go"

definition WithCipherSuites :: "string list \<Rightarrow> ConfigOption" where
  "WithCipherSuites ciphers c =
     (let configuredCiphers = cipher_loop ciphers
      in case c of
           None \<Rightarrow> Inl NilDereference
         | Some c \<Rightarrow>
             if length configuredCiphers = 0 then Inl (ExplicitPanic ''no valid ciphers provided for TLS configuration'')
             else Inr (Some (c\<lparr>tls_CipherSuites := configuredCiphers\<rparr>)))"

definition NewClientCredentials :: "tlsconfig \<Rightarrow> string \<Rightarrow> string \<Rightarrow> string \<Rightarrow> string \<Rightarrow> string + tls_Config" where
  "NewClientCredentials build certFile keyFile caCertFile serverName =
     (case build (TlsClient (Some (certFile, keyFile)) caCertFile (Some serverName)) of
        Inl err \<Rightarrow> Inl err
      | Inr tlsConfig \<Rightarrow> Inr tlsConfig)"

fun apply_options :: "ConfigOption list \<Rightarrow> tls_Config option \<Rightarrow> tls_Config option go" where
  "apply_options [] c = Inr c"
| "apply_options (opt # opts) c = (case opt c of Inl p \<Rightarrow> Inl p | Inr c \<Rightarrow> apply_options opts c)"

text \<open>The pointer and the error that a call of \<open>tlsconfig\<close> returns; the options run before the error is checked.\<close>

definition tls_result :: "string + tls_Config \<Rightarrow> tls_Config option \<times> string option" where
  "tls_result built = (case built of Inl err \<Rightarrow> (None, Some err) | Inr c \<Rightarrow> (Some c, None))"

definition NewServerCredentials ::
    "tlsconfig \<Rightarrow> string \<Rightarrow> string \<Rightarrow> string \<Rightarrow> ConfigOption list \<Rightarrow> (string + tls_Config) go" where
  "NewServerCredentials build certFile keyFile caCertFile opts =
     (let (tlsConfig, err) = tls_result (build (TlsServer (certFile, keyFile) (Some caCertFile)))
      in case apply_options opts tlsConfig of
           Inl p \<Rightarrow> Inl p
         | Inr tlsConfig \<Rightarrow>
             (case err of
                Some err \<Rightarrow> Inr (Inl err)
              | None \<Rightarrow> (case tlsConfig of None \<Rightarrow> Inl NilDereference | Some c \<Rightarrow> Inr (Inr c))))"

text \<open>The options that the programs pass for their cipher suites.\<close>

definition cipher_options :: "string list \<Rightarrow> ConfigOption list" where
  "cipher_options ciphers = (if length ciphers > 0 then [WithCipherSuites ciphers] else [])"

section \<open>Options of gRPC\<close>

text \<open>The options that the programs pass; durations are in nanoseconds.\<close>

datatype dial_option =
    WithTransportCredentials tls_Config
  | WithInsecureCredentials
  | WithKeepaliveParams int int bool
  | WithDisableServiceConfig
  | WithMaxCallRecvMsgSize int

datatype server_option =
    Creds tls_Config
  | KeepaliveEnforcementPolicy int bool
  | MaxRecvMsgSize int

section \<open>HTTP clients\<close>

record http_Client =
  hc_Timeout :: int
  hc_TLSHandshakeTimeout :: int
  hc_TLSClientConfig :: tls_Config
  hc_DisableKeepAlives :: bool

text \<open>The client that the programs build from a TLS configuration.\<close>

definition build_client :: "bool \<Rightarrow> tls_Config \<Rightarrow> http_Client" where
  "build_client skipCertVerify tlsConfig =
     \<lparr>hc_Timeout = 20000000000, hc_TLSHandshakeTimeout = 10000000000,
      hc_TLSClientConfig = tlsConfig\<lparr>tls_InsecureSkipVerify := skipCertVerify\<rparr>, hc_DisableKeepAlives = True\<rparr>"

section \<open>Log output\<close>

text \<open>
  \<open>LogWriter.Write\<close>: the time in UTC, formatted, is a parameter, as is \<open>io.WriteString\<close> on standard error (the number of
  bytes written and an error).
\<close>

definition LogWriter_Write :: "(string \<Rightarrow> nat \<times> string option) \<Rightarrow> string \<Rightarrow> string \<Rightarrow> nat \<times> string option" where
  "LogWriter_Write WriteString now bytes = (let str = now @ '' '' @ bytes in WriteString str)"

section \<open>Lemmas\<close>

text \<open>
  A writer of a file writes everything unless it has an error. Then the count that \<open>LogWriter\<close> returns is always larger than
  what it was given, although \<open>io.Writer\<close> asks for at most \<open>len(p)\<close>.
\<close>

lemma LogWriter_overcounts:
  assumes "\<And>str. WriteString str = (n, None) \<Longrightarrow> n = length str" and "LogWriter_Write WriteString now bytes = (n, None)"
  shows "n = length bytes + length now + 1"
  using assms(1) [of "now @ '' '' @ bytes"] assms(2) by (simp add: LogWriter_Write_def Let_def)


text \<open>Only the two suites of the table are ever configured, in the order given; unknown names are skipped.\<close>

lemma cipher_loop_known: "set (cipher_loop ciphers) \<subseteq> {0xC02F, 0xC030}"
  by (induction ciphers) (auto simp: cipherMap_def)

lemma cipher_loop_filter: "cipher_loop ciphers = map (the \<circ> cipherMap) (filter (\<lambda>c. cipherMap c \<noteq> None) ciphers)"
  by (induction ciphers) (auto split: option.splits)

text \<open>The outcome of the cipher options on the result of \<open>tlsconfig\<close>.\<close>

lemma cipher_options_apply:
  "apply_options (cipher_options ciphers) (Some c) =
    (if ciphers = [] then Inr (Some c)
     else if \<forall>n \<in> set ciphers. cipherMap n = None
       then Inl (ExplicitPanic ''no valid ciphers provided for TLS configuration'')
     else Inr (Some (c\<lparr>tls_CipherSuites := cipher_loop ciphers\<rparr>)))"
  "apply_options (cipher_options ciphers) None = (if ciphers = [] then Inr None else Inl NilDereference)"
  by (auto simp: cipher_options_def WithCipherSuites_def cipher_loop_filter filter_empty_conv)

lemma server_credentials_ok:
  "build (TlsServer (certFile, keyFile) (Some caCertFile)) = Inr c \<Longrightarrow>
   NewServerCredentials build certFile keyFile caCertFile (cipher_options ciphers) =
    (if ciphers = [] then Inr (Inr c)
     else if \<forall>n \<in> set ciphers. cipherMap n = None
       then Inl (ExplicitPanic ''no valid ciphers provided for TLS configuration'')
     else Inr (Inr (c\<lparr>tls_CipherSuites := cipher_loop ciphers\<rparr>)))"
  by (simp add: NewServerCredentials_def tls_result_def cipher_options_apply)

text \<open>
  When the certificates cannot be loaded, the error is returned only if no cipher suites are configured;
  otherwise the option dereferences the nil configuration before the error is looked at.
\<close>

lemma server_credentials_error:
  "build (TlsServer (certFile, keyFile) (Some caCertFile)) = Inl err \<Longrightarrow>
   NewServerCredentials build certFile keyFile caCertFile (cipher_options ciphers) =
    (if ciphers = [] then Inr (Inl err) else Inl NilDereference)"
  by (simp add: NewServerCredentials_def tls_result_def cipher_options_apply)

end
