(* ===== verification/Diodes.thy ===== *)
theory Diodes
  imports Prelude
begin

text \<open>
  The lossy ring buffers (diodes) between the writers and the readers of every Loggregator
  component: \<open>go-diodes/one_to_one.go\<close> and \<open>go-diodes/many_to_one.go\<close>.

  A slot of the buffer is a pointer to a bucket or nil. Both diodes have one reader. The single
  writer of \<open>OneToOne\<close> and every reader perform exactly one access to shared memory per call (an
  atomic store, an atomic swap), so an interleaving of their calls is a sequence of calls. The
  writers of \<open>ManyToOne\<close> perform three (add, load, compare-and-swap), and are modelled twice: as
  one uninterrupted call and as separate steps of a transition relation.

  The alerter is called on the reader's side; a read returns the list of the calls it made.
\<close>

section \<open>Buckets and the single-writer diode\<close>

record 'a bucket =
  b_data :: 'a
  b_seq :: uint64

record 'a OneToOne =
  o_buffer :: "'a bucket option list"
  o_writeIndex :: uint64
  o_readIndex :: uint64

definition NewOneToOne :: "nat \<Rightarrow> 'a OneToOne" where
  "NewOneToOne sz = \<lparr>o_buffer = replicate sz None, o_writeIndex = 0, o_readIndex = 0\<rparr>"

definition OneToOne_Set :: "'a \<Rightarrow> 'a OneToOne \<Rightarrow> 'a OneToOne go" where
  "OneToOne_Set data d =
     (if length (o_buffer d) = 0 then Inl DivideByZero
      else
        let idx = unat (o_writeIndex d mod of_nat (length (o_buffer d)));
            newBucket = \<lparr>b_data = data, b_seq = o_writeIndex d\<rparr>
        in Inr (d\<lparr>o_buffer := (o_buffer d)[idx := Some newBucket],
                   o_writeIndex := o_writeIndex d + 1\<rparr>))"

text \<open>The value read (\<open>None\<close> for \<open>(nil, false)\<close>) and the arguments of the calls of \<open>Alert\<close>.\<close>

definition OneToOne_TryNext :: "'a OneToOne \<Rightarrow> ('a OneToOne \<times> 'a option \<times> int list) go" where
  "OneToOne_TryNext d =
     (if length (o_buffer d) = 0 then Inl DivideByZero
      else
        let idx = unat (o_readIndex d mod of_nat (length (o_buffer d)));
            result = o_buffer d ! idx;
            d = d\<lparr>o_buffer := (o_buffer d)[idx := None]\<rparr>
        in case result of
             None \<Rightarrow> Inr (d, None, [])
           | Some b \<Rightarrow>
               if b_seq b < o_readIndex d then Inr (d, None, [])
               else if o_readIndex d < b_seq b then
                 let dropped = b_seq b - o_readIndex d
                 in Inr (d\<lparr>o_readIndex := b_seq b + 1\<rparr>, Some (b_data b), [sint dropped])
               else Inr (d\<lparr>o_readIndex := o_readIndex d + 1\<rparr>, Some (b_data b), []))"

section \<open>The diode with many writers\<close>

text \<open>
  The compare-and-swap of \<open>Set\<close> compares pointers, so a slot holds the address of its bucket
  beside the bucket; \<open>m_next\<close> is the address the next allocation gets. Addresses of buckets that
  some goroutine still holds are never reused, hence the counter.
\<close>

type_synonym 'a slot = "(nat \<times> 'a bucket) option"

record 'a ManyToOne =
  m_writeIndex :: uint64
  m_buffer :: "'a slot list"
  m_readIndex :: uint64
  m_next :: nat

definition NewManyToOne :: "nat \<Rightarrow> 'a ManyToOne" where
  "NewManyToOne sz =
     \<lparr>m_writeIndex = not 0, m_buffer = replicate sz None, m_readIndex = 0, m_next = 0\<rparr>"

text \<open>
  The accesses of one round of \<open>Set\<close> to the shared state: the atomic add, the atomic load, the
  test for a collision, the allocation and the compare-and-swap.
\<close>

definition mto_add :: "'a ManyToOne \<Rightarrow> uint64 \<times> 'a ManyToOne" where
  "mto_add d = (m_writeIndex d + 1, d\<lparr>m_writeIndex := m_writeIndex d + 1\<rparr>)"

definition mto_idx :: "'a ManyToOne \<Rightarrow> uint64 \<Rightarrow> nat" where
  "mto_idx d writeIndex = unat (writeIndex mod of_nat (length (m_buffer d)))"

definition mto_collides :: "'a ManyToOne \<Rightarrow> uint64 \<Rightarrow> 'a slot \<Rightarrow> bool" where
  "mto_collides d writeIndex old =
     (case old of
        None \<Rightarrow> False
      | Some (_, b) \<Rightarrow> writeIndex - of_nat (length (m_buffer d)) < b_seq b)"

definition mto_cas :: "'a ManyToOne \<Rightarrow> uint64 \<Rightarrow> 'a slot \<Rightarrow> 'a \<Rightarrow> bool \<times> 'a ManyToOne" where
  "mto_cas d writeIndex old data =
     (let idx = mto_idx d writeIndex;
          new = (m_next d, \<lparr>b_data = data, b_seq = writeIndex\<rparr>);
          d = d\<lparr>m_next := Suc (m_next d)\<rparr>
      in if map_option fst (m_buffer d ! idx) = map_option fst old
         then (True, d\<lparr>m_buffer := (m_buffer d)[idx := Some new]\<rparr>)
         else (False, d))"

text \<open>
  \<open>Set\<close> without interference; the loop of the source goes round again after a collision.
  The number counts the lines logged for collisions.
\<close>

partial_function (option) ManyToOne_Set ::
    "'a \<Rightarrow> 'a ManyToOne \<Rightarrow> nat \<Rightarrow> ('a ManyToOne \<times> nat) go option" where
  "ManyToOne_Set data d logged =
     (if length (m_buffer d) = 0 then Some (Inl DivideByZero)
      else
        let (writeIndex, d1) = mto_add d;
            old = m_buffer d1 ! mto_idx d1 writeIndex
        in if mto_collides d1 writeIndex old then ManyToOne_Set data d1 (Suc logged)
           else
             let (swapped, d2) = mto_cas d1 writeIndex old data
             in if swapped then Some (Inr (d2, logged)) else ManyToOne_Set data d2 (Suc logged))"

definition ManyToOne_TryNext :: "'a ManyToOne \<Rightarrow> ('a ManyToOne \<times> 'a option \<times> int list) go" where
  "ManyToOne_TryNext d =
     (if length (m_buffer d) = 0 then Inl DivideByZero
      else
        let idx = unat (m_readIndex d mod of_nat (length (m_buffer d)));
            result = m_buffer d ! idx;
            d = d\<lparr>m_buffer := (m_buffer d)[idx := None]\<rparr>
        in case result of
             None \<Rightarrow> Inr (d, None, [])
           | Some (_, b) \<Rightarrow>
               if b_seq b < m_readIndex d then Inr (d, None, [])
               else if m_readIndex d < b_seq b then
                 let dropped = b_seq b - m_readIndex d
                 in Inr (d\<lparr>m_readIndex := b_seq b + 1\<rparr>, Some (b_data b), [sint dropped])
               else Inr (d\<lparr>m_readIndex := m_readIndex d + 1\<rparr>, Some (b_data b), []))"

section \<open>Concurrent writers of the many-to-one diode\<close>

text \<open>
  A writer is between calls, or it holds the value it has to write and has reached one of the
  program points of \<open>Set\<close>: before the add, between the add and the load, between the load and
  the compare-and-swap.
\<close>

datatype 'a mto_pc =
    Idle
  | Adding 'a
  | Loading 'a uint64
  | Swapping 'a uint64 "'a slot"

record 'a mto_sys =
  ms_diode :: "'a ManyToOne"
  ms_pcs :: "'a mto_pc list"
  ms_adds :: nat
  ms_called :: "'a list"
  ms_stored :: "(uint64 \<times> 'a) list"
  ms_read :: "(uint64 \<times> 'a) list"

definition mto_init :: "nat \<Rightarrow> nat \<Rightarrow> 'a mto_sys" where
  "mto_init sz writers =
     \<lparr>ms_diode = NewManyToOne sz, ms_pcs = replicate writers Idle, ms_adds = 0,
      ms_called = [], ms_stored = [], ms_read = []\<rparr>"

text \<open>
  One step of writer \<open>i\<close> or of the reader. \<open>ms_adds\<close> counts the atomic adds; \<open>ms_called\<close>,
  \<open>ms_stored\<close> and \<open>ms_read\<close> record the calls of \<open>Set\<close>, the successful compare-and-swaps and the
  values the reader got, oldest first.
\<close>

inductive mto_step :: "'a mto_sys \<Rightarrow> 'a mto_sys \<Rightarrow> bool" where
  call: "i < length (ms_pcs s) \<Longrightarrow> ms_pcs s ! i = Idle \<Longrightarrow>
     mto_step s (s\<lparr>ms_pcs := (ms_pcs s)[i := Adding x], ms_called := ms_called s @ [x]\<rparr>)"
| add: "i < length (ms_pcs s) \<Longrightarrow> ms_pcs s ! i = Adding x \<Longrightarrow> mto_add (ms_diode s) = (w, d) \<Longrightarrow>
     mto_step s (s\<lparr>ms_pcs := (ms_pcs s)[i := Loading x w], ms_diode := d, ms_adds := Suc (ms_adds s)\<rparr>)"
| load: "i < length (ms_pcs s) \<Longrightarrow> ms_pcs s ! i = Loading x w \<Longrightarrow>
     old = m_buffer (ms_diode s) ! mto_idx (ms_diode s) w \<Longrightarrow>
     \<not> mto_collides (ms_diode s) w old \<Longrightarrow>
     mto_step s (s\<lparr>ms_pcs := (ms_pcs s)[i := Swapping x w old]\<rparr>)"
| collide: "i < length (ms_pcs s) \<Longrightarrow> ms_pcs s ! i = Loading x w \<Longrightarrow>
     mto_collides (ms_diode s) w (m_buffer (ms_diode s) ! mto_idx (ms_diode s) w) \<Longrightarrow>
     mto_step s (s\<lparr>ms_pcs := (ms_pcs s)[i := Adding x]\<rparr>)"
| swap: "i < length (ms_pcs s) \<Longrightarrow> ms_pcs s ! i = Swapping x w old \<Longrightarrow>
     mto_cas (ms_diode s) w old x = (True, d) \<Longrightarrow>
     mto_step s (s\<lparr>ms_pcs := (ms_pcs s)[i := Idle], ms_diode := d,
                   ms_stored := ms_stored s @ [(w, x)]\<rparr>)"
| swap_fails: "i < length (ms_pcs s) \<Longrightarrow> ms_pcs s ! i = Swapping x w old \<Longrightarrow>
     mto_cas (ms_diode s) w old x = (False, d) \<Longrightarrow>
     mto_step s (s\<lparr>ms_pcs := (ms_pcs s)[i := Adding x], ms_diode := d\<rparr>)"
| read: "ManyToOne_TryNext (ms_diode s) = Inr (d, Some x, alerts) \<Longrightarrow>
     mto_step s (s\<lparr>ms_diode := d, ms_read := ms_read s @ [(m_readIndex d - 1, x)]\<rparr>)"
| read_fails: "ManyToOne_TryNext (ms_diode s) = Inr (d, None, alerts) \<Longrightarrow>
     mto_step s (s\<lparr>ms_diode := d\<rparr>)"

inductive mto_reachable :: "nat \<Rightarrow> nat \<Rightarrow> 'a mto_sys \<Rightarrow> bool" for sz writers where
  start: "mto_reachable sz writers (mto_init sz writers)"
| step: "mto_reachable sz writers s \<Longrightarrow> mto_step s t \<Longrightarrow> mto_reachable sz writers t"

section \<open>The contract of a diode\<close>

text \<open>
  What a reader and a writer may rely on. \<open>inv ws r d\<close> says that \<open>d\<close> has been given the values
  \<open>ws\<close>, oldest first, and that its read position is \<open>r\<close>. A read finds nothing exactly when every
  value was read or dropped; otherwise it yields a value at or after the read position, reports the
  number of values it skipped, and skips none as long as no more than \<open>cap d\<close> values are pending.
\<close>

locale diode =
  fixes set_op :: "'a \<Rightarrow> 'd \<Rightarrow> 'd go"
    and try_next :: "'d \<Rightarrow> ('d \<times> 'a option \<times> int list) go"
    and inv :: "'a list \<Rightarrow> nat \<Rightarrow> 'd \<Rightarrow> bool"
    and cap :: "'d \<Rightarrow> nat"
  assumes set_inv: "inv ws r d \<Longrightarrow> Suc (length ws) < 2 ^ 63 \<Longrightarrow>
      \<exists>d'. set_op x d = Inr d' \<and> inv (ws @ [x]) r d' \<and> cap d' = cap d"
    and next_empty: "inv ws r d \<Longrightarrow> r = length ws \<Longrightarrow>
      \<exists>d'. try_next d = Inr (d', None, []) \<and> inv ws r d' \<and> cap d' = cap d"
    and next_some: "inv ws r d \<Longrightarrow> r < length ws \<Longrightarrow>
      \<exists>d' k. r \<le> k \<and> k < length ws \<and> (length ws \<le> r + cap d \<longrightarrow> k = r) \<and>
        try_next d = Inr (d', Some (ws ! k), if k = r then [] else [int (k - r)]) \<and>
        inv ws (Suc k) d' \<and> cap d' = cap d"
    and inv_bound: "inv ws r d \<Longrightarrow> r \<le> length ws"

text \<open>A sequence of calls, in the order of their accesses to the shared buffer.\<close>

datatype 'a diode_op = DSet 'a | DTryNext

fun diode_run :: "('a \<Rightarrow> 'd \<Rightarrow> 'd go) \<Rightarrow> ('d \<Rightarrow> ('d \<times> 'a option \<times> int list) go) \<Rightarrow>
    'a diode_op list \<Rightarrow> 'd \<Rightarrow> ('d \<times> 'a list \<times> int list) go" where
  "diode_run st tn [] d = Inr (d, [], [])"
| "diode_run st tn (DSet x # ops) d =
     (case st x d of Inl p \<Rightarrow> Inl p | Inr d' \<Rightarrow> diode_run st tn ops d')"
| "diode_run st tn (DTryNext # ops) d =
     (case tn d of
        Inl p \<Rightarrow> Inl p
      | Inr (d', v, alerts) \<Rightarrow>
          (case diode_run st tn ops d' of
             Inl p \<Rightarrow> Inl p
           | Inr (d'', vs, alerts') \<Rightarrow>
               Inr (d'', (case v of None \<Rightarrow> vs | Some x \<Rightarrow> x # vs), alerts @ alerts')))"

fun written :: "'a diode_op list \<Rightarrow> 'a list" where
  "written [] = []"
| "written (DSet x # ops) = x # written ops"
| "written (DTryNext # ops) = written ops"

fun n_reads :: "'a diode_op list \<Rightarrow> nat" where
  "n_reads [] = 0"
| "n_reads (DSet x # ops) = n_reads ops"
| "n_reads (DTryNext # ops) = Suc (n_reads ops)"

text \<open>The pending values never exceed \<open>c\<close> when the run starts with \<open>p\<close> of them.\<close>

fun never_lapped :: "nat \<Rightarrow> nat \<Rightarrow> 'a diode_op list \<Rightarrow> bool" where
  "never_lapped c p [] = (p \<le> c)"
| "never_lapped c p (DSet x # ops) = (p \<le> c \<and> never_lapped c (Suc p) ops)"
| "never_lapped c p (DTryNext # ops) = (p \<le> c \<and> never_lapped c (p - 1) ops)"

definition oto_inv :: "'a list \<Rightarrow> nat \<Rightarrow> 'a OneToOne \<Rightarrow> bool" where
  "oto_inv ws r d \<longleftrightarrow>
     (let n = length (o_buffer d) in
        0 < n \<and> n < 2 ^ 63 \<and> length ws < 2 ^ 63 \<and>
        unat (o_writeIndex d) = length ws \<and> unat (o_readIndex d) = r \<and> r \<le> length ws \<and>
        (\<forall>i < n. \<forall>b. o_buffer d ! i = Some b \<longrightarrow>
           unat (b_seq b) < length ws \<and> length ws \<le> unat (b_seq b) + n \<and>
           unat (b_seq b) mod n = i \<and> b_data b = ws ! unat (b_seq b)) \<and>
        (\<forall>k. r \<le> k \<and> k < length ws \<and> length ws \<le> k + n \<longrightarrow> o_buffer d ! (k mod n) \<noteq> None))"

section \<open>Every diode delivers a subsequence and accounts for the rest\<close>

context diode
begin

lemma set_step:
  assumes "inv ws r d" and "Suc (length ws) < 2 ^ 63"
  obtains d' where "set_op x d = Inr d'" "inv (ws @ [x]) r d'" "cap d' = cap d"
  using set_inv [OF assms] by blast

text \<open>One read, whether it finds a value or not: it skips \<open>k\<close> values, reports them, and yields the next one.\<close>

lemma next_account:
  assumes "inv ws r d"
  shows "\<exists>d' k vs. try_next d = Inr (d', case vs of [] \<Rightarrow> None | v # _ \<Rightarrow> Some v, if k = 0 then [] else [int k]) \<and>
    vs = take 1 (drop (r + k) ws) \<and> inv ws (r + k + length vs) d'"
proof (cases "r < length ws")
  case True
  from next_some [OF assms True] obtain d' k where "r \<le> k" "k < length ws"
    "try_next d = Inr (d', Some (ws ! k), if k = r then [] else [int (k - r)])" "inv ws (Suc k) d'" by blast
  then show ?thesis by (intro exI [of _ d'] exI [of _ "k - r"] exI [of _ "[ws ! k]"]) (simp add: take_Suc_conv_app_nth hd_drop_conv_nth take_Suc)
next
  case False
  with inv_bound [OF assms] have "r = length ws" by simp
  with next_empty [OF assms] obtain d' where "try_next d = Inr (d', None, [])" "inv ws r d'" by blast
  with False show ?thesis by (intro exI [of _ d'] exI [of _ 0] exI [of _ "[]"]) simp
qed

lemma next_none:
  assumes "inv ws r d" and "try_next d = Inr (d', None, al)"
  shows "r = length ws"
  using inv_bound [OF assms(1)] next_some [OF assms(1)] assms(2) by (cases "r < length ws") auto

lemma run_from:
  assumes "inv ws r d" and "length ws + length (written ops) < 2 ^ 63"
  shows "\<exists>d' vs alerts r'. diode_run set_op try_next ops d = Inr (d', vs, alerts) \<and>
    inv (ws @ written ops) r' d' \<and> subseq vs (drop r (ws @ written ops)) \<and>
    int r + int (length vs) + sum_list alerts = int r'"
  using assms
proof (induction ops arbitrary: ws r d)
  case Nil
  then show ?case by fastforce
next
  case (Cons op ops)
  show ?case
  proof (cases op)
    case (DSet x)
    with Cons.prems obtain d' where d': "set_op x d = Inr d'" "inv (ws @ [x]) r d'"
      by (auto elim: set_step [where x = x])
    from Cons.IH [OF d'(2)] Cons.prems(2) DSet d'(1) show ?thesis by simp
  next
    case DTryNext
    then have w: "written (op # ops) = written ops" by simp
    consider "r = length ws" | "r < length ws" using inv_bound [OF Cons.prems(1)] by linarith
    then show ?thesis
    proof cases
      case 1
      from next_empty [OF Cons.prems(1) 1] obtain d' where
        d': "try_next d = Inr (d', None, [])" "inv ws r d'" by blast
      from Cons.IH [OF d'(2)] Cons.prems(2) DTryNext d'(1) show ?thesis by auto
    next
      case 2
      from next_some [OF Cons.prems(1) 2] obtain d' k where
        k: "r \<le> k" "k < length ws" and
        d': "try_next d = Inr (d', Some (ws ! k), if k = r then [] else [int (k - r)])"
          "inv ws (Suc k) d'" by blast
      from Cons.IH [OF d'(2)] Cons.prems(2) w obtain d'' vs alerts r' where
        ih: "diode_run set_op try_next ops d' = Inr (d'', vs, alerts)" "inv (ws @ written ops) r' d''"
          "subseq vs (drop (Suc k) (ws @ written ops))"
          "int (Suc k) + int (length vs) + sum_list alerts = int r'" by auto
      let ?all = "ws @ written ops"
      have "drop r ?all = take (k - r) (drop r ?all) @ drop k ?all"
        using k by (metis append_take_drop_id drop_drop le_add_diff_inverse2)
      also have "drop k ?all = ws ! k # drop (Suc k) ?all"
        using k by (metis Cons_nth_drop_Suc length_append nth_append trans_less_add1)
      finally have "subseq (ws ! k # vs) (drop r ?all)"
        using ih(3) by (metis subseq_Cons2 list_emb_append2)
      moreover have "diode_run set_op try_next (op # ops) d =
          Inr (d'', ws ! k # vs, (if k = r then [] else [int (k - r)]) @ alerts)"
        using DTryNext d'(1) ih(1) by simp
      moreover have "int r + int (length (ws ! k # vs)) +
          sum_list ((if k = r then [] else [int (k - r)]) @ alerts) = int r'"
        using ih(4) k by auto
      ultimately show ?thesis using ih(2) w by metis
    qed
  qed
qed

text \<open>While the reader keeps up, the diode is a FIFO queue: every read yields the oldest value.\<close>

lemma run_fifo:
  assumes "inv ws r d" and "length ws + length (written ops) < 2 ^ 63"
    and "never_lapped (cap d) (length ws - r) ops"
  shows "\<exists>d' vs. diode_run set_op try_next ops d = Inr (d', vs, []) \<and>
    prefix vs (drop r (ws @ written ops)) \<and> inv (ws @ written ops) (r + length vs) d'"
  using assms
proof (induction ops arbitrary: ws r d)
  case Nil
  then show ?case by fastforce
next
  case (Cons op ops)
  show ?case
  proof (cases op)
    case (DSet x)
    with Cons.prems obtain d' where d': "set_op x d = Inr d'" "inv (ws @ [x]) r d'" "cap d' = cap d"
      by (auto elim: set_step [where x = x])
    moreover have "length (ws @ [x]) - r = Suc (length ws - r)"
      using inv_bound [OF Cons.prems(1)] by simp
    ultimately show ?thesis using Cons.IH [OF d'(2)] Cons.prems(2,3) DSet by simp
  next
    case DTryNext
    consider "r = length ws" | "r < length ws" using inv_bound [OF Cons.prems(1)] by linarith
    then show ?thesis
    proof cases
      case 1
      from next_empty [OF Cons.prems(1) 1] obtain d' where
        d': "try_next d = Inr (d', None, [])" "inv ws r d'" "cap d' = cap d" by blast
      from Cons.IH [OF d'(2)] Cons.prems(2,3) DTryNext d'(1,3) 1 show ?thesis by auto
    next
      case 2
      from Cons.prems(3) DTryNext 2 have "length ws \<le> r + cap d" by auto
      with next_some [OF Cons.prems(1) 2] obtain d' where
        d': "try_next d = Inr (d', Some (ws ! r), [])" "inv ws (Suc r) d'" "cap d' = cap d"
        by fastforce
      have "never_lapped (cap d') (length ws - Suc r) ops"
        using Cons.prems(3) DTryNext d'(3) by simp
      with Cons.IH [OF d'(2)] Cons.prems(2) DTryNext obtain d'' vs where
        ih: "diode_run set_op try_next ops d' = Inr (d'', vs, [])"
          "prefix vs (drop (Suc r) (ws @ written ops))"
          "inv (ws @ written ops) (Suc r + length vs) d''" by auto
      have "drop r (ws @ written ops) = ws ! r # drop (Suc r) (ws @ written ops)"
        using 2 by (metis Cons_nth_drop_Suc length_append nth_append trans_less_add1)
      with ih(2) have "prefix (ws ! r # vs) (drop r (ws @ written ops))" by simp
      moreover have "diode_run set_op try_next (op # ops) d = Inr (d'', ws ! r # vs, [])"
        using DTryNext d'(1) ih(1) by simp
      ultimately show ?thesis using ih(3) DTryNext
        by (intro exI [of _ d''] exI [of _ "ws ! r # vs"]) simp
    qed
  qed
qed

end

section \<open>The single-writer diode satisfies the contract\<close>

text \<open>A window of \<open>n\<close> consecutive positions meets every residue class modulo \<open>n\<close> exactly once.\<close>

lemma window_unique:
  fixes k j w n :: nat
  assumes "k < w" "w \<le> k + n" "j < w" "w \<le> j + n" "k mod n = j mod n"
  shows "k = j"
proof -
  have *: "a = b" if "a \<le> b" "b < a + n" "a mod n = b mod n" for a b :: nat
  proof -
    from that(1,3) have "n dvd b - a" by (metis mod_eq_dvd_iff_nat)
    moreover from that(1,2) have "b - a < n" by linarith
    ultimately show ?thesis using that(1) by (metis dvd_imp_le diff_is_0_eq' le_antisym not_le
          diff_is_0_eq gr0I)
  qed
  show ?thesis using *[of k j] *[of j k] assms by (metis le_less_linear less_le_trans nat_le_linear)
qed

lemma window_exists:
  fixes w n i :: nat
  assumes "i < n" "n \<le> w"
  shows "\<exists>k. k < w \<and> w \<le> k + n \<and> k mod n = i"
proof -
  define m where "m = (w - 1 - i) mod n"
  have m: "m < n" "m \<le> w - 1 - i" using assms by (auto simp: m_def)
  have "n dvd (w - 1 - i) - m" unfolding m_def by (rule dvd_minus_mod)
  then have "n dvd (w - 1 - m) - i" using m by (simp add: add.commute)
  then have "(w - 1 - m) mod n = i mod n"
    using m assms by (subst mod_eq_dvd_iff_nat) auto
  with assms m have "w - 1 - m < w \<and> w \<le> (w - 1 - m) + n \<and> (w - 1 - m) mod n = i" by auto
  then show ?thesis by blast
qed

lemma oto_invD:
  assumes "oto_inv ws r d" and "n = length (o_buffer d)"
  shows "0 < n" "n < 2 ^ 63" "length ws < 2 ^ 63" "unat (o_writeIndex d) = length ws"
    "unat (o_readIndex d) = r" "r \<le> length ws"
    "\<And>i b. i < n \<Longrightarrow> o_buffer d ! i = Some b \<Longrightarrow>
       unat (b_seq b) < length ws \<and> length ws \<le> unat (b_seq b) + n \<and>
       unat (b_seq b) mod n = i \<and> b_data b = ws ! unat (b_seq b)"
    "\<And>k. r \<le> k \<Longrightarrow> k < length ws \<Longrightarrow> length ws \<le> k + n \<Longrightarrow> o_buffer d ! (k mod n) \<noteq> None"
  using assms by (auto simp: oto_inv_def Let_def)

lemma oto_invI:
  assumes "length (o_buffer d) = n" "0 < n" "n < 2 ^ 63" "length ws < 2 ^ 63"
    "unat (o_writeIndex d) = length ws" "unat (o_readIndex d) = r" "r \<le> length ws"
    "\<And>i b. i < n \<Longrightarrow> o_buffer d ! i = Some b \<Longrightarrow>
       unat (b_seq b) < length ws \<and> length ws \<le> unat (b_seq b) + n \<and>
       unat (b_seq b) mod n = i \<and> b_data b = ws ! unat (b_seq b)"
    "\<And>k. r \<le> k \<Longrightarrow> k < length ws \<Longrightarrow> length ws \<le> k + n \<Longrightarrow> o_buffer d ! (k mod n) \<noteq> None"
  shows "oto_inv ws r d"
  unfolding oto_inv_def Let_def assms(1) using assms(2-9) by blast

lemma oto_index: "n < 2 ^ 63 \<Longrightarrow> unat ((w :: uint64) mod of_nat n) = unat w mod n"
  by (rule unat_mod_of_nat) simp

lemma oto_inv_new: "0 < sz \<Longrightarrow> sz < 2 ^ 63 \<Longrightarrow> oto_inv [] 0 (NewOneToOne sz)"
  by (simp add: oto_inv_def NewOneToOne_def)

lemma oto_set:
  assumes inv: "oto_inv ws r d" and small: "Suc (length ws) < 2 ^ 63"
  shows "\<exists>d'. OneToOne_Set x d = Inr d' \<and> oto_inv (ws @ [x]) r d' \<and>
    length (o_buffer d') = length (o_buffer d)"
proof -
  define n where "n = length (o_buffer d)"
  note D = oto_invD [OF inv n_def]
  define d' where "d' = d\<lparr>o_buffer := (o_buffer d)[length ws mod n := Some \<lparr>b_data = x, b_seq = o_writeIndex d\<rparr>],
      o_writeIndex := o_writeIndex d + 1\<rparr>"
  have "OneToOne_Set x d = Inr d'"
    using D(1,2,4) by (simp add: OneToOne_Set_def d'_def oto_index flip: n_def)
  moreover have "oto_inv (ws @ [x]) r d'"
  proof -
    have w: "unat (o_writeIndex d + 1) = Suc (length ws)"
      using D(4) small by (subst unat_add_one) auto
    have old: "unat (b_seq b) < length (ws @ [x]) \<and> length (ws @ [x]) \<le> unat (b_seq b) + n \<and>
        unat (b_seq b) mod n = i \<and> b_data b = (ws @ [x]) ! unat (b_seq b)"
      if i: "i < n" and b: "o_buffer d' ! i = Some b" for i b
    proof (cases "i = length ws mod n")
      case True
      with i b have "b = \<lparr>b_data = x, b_seq = o_writeIndex d\<rparr>" by (auto simp: d'_def n_def)
      then show ?thesis using D(1,4) True by simp
    next
      case False
      with b have "o_buffer d ! i = Some b" by (simp add: d'_def)
      from D(7) [OF i this] have b: "unat (b_seq b) < length ws" "length ws \<le> unat (b_seq b) + n"
        "unat (b_seq b) mod n = i" "b_data b = ws ! unat (b_seq b)" by auto
      from b(3) False have "length ws \<noteq> unat (b_seq b) + n" by auto
      with b show ?thesis by (auto simp: nth_append)
    qed
    have new: "o_buffer d' ! (k mod n) \<noteq> None"
      if k: "r \<le> k" "k < length (ws @ [x])" "length (ws @ [x]) \<le> k + n" for k
    proof (cases "k mod n = length ws mod n")
      case True
      then show ?thesis using D(1) by (simp add: d'_def n_def)
    next
      case False
      then have "k \<noteq> length ws" by auto
      with k have "o_buffer d ! (k mod n) \<noteq> None" by (intro D(8)) auto
      with False show ?thesis by (simp add: d'_def)
    qed
    show ?thesis
      by (rule oto_invI [OF _ D(1,2) _ _ _ _ old new])
         (use D(5,6) small w in \<open>simp_all add: d'_def n_def\<close>)
  qed
  ultimately show ?thesis by (auto simp: d'_def)
qed

text \<open>What a read finds in its slot decides the whole call.\<close>

lemma oto_next_cases:
  assumes inv: "oto_inv ws r d" and n: "n = length (o_buffer d)"
  shows "r = length ws \<Longrightarrow> \<forall>b. o_buffer d ! (r mod n) = Some b \<longrightarrow> unat (b_seq b) < r"
    and "r < length ws \<Longrightarrow> \<exists>b. o_buffer d ! (r mod n) = Some b \<and> r \<le> unat (b_seq b) \<and>
      unat (b_seq b) < length ws \<and> (length ws \<le> r + n \<longrightarrow> unat (b_seq b) = r)"
proof -
  note D = oto_invD [OF inv n]
  show "\<forall>b. o_buffer d ! (r mod n) = Some b \<longrightarrow> unat (b_seq b) < r" if "r = length ws"
    using D(1) D(7) [of "r mod n"] that by auto
  show "\<exists>b. o_buffer d ! (r mod n) = Some b \<and> r \<le> unat (b_seq b) \<and> unat (b_seq b) < length ws \<and>
      (length ws \<le> r + n \<longrightarrow> unat (b_seq b) = r)" if r: "r < length ws"
  proof -
    have "\<exists>k. r \<le> k \<and> k < length ws \<and> length ws \<le> k + n \<and> k mod n = r mod n"
    proof (cases "length ws \<le> r + n")
      case True
      then show ?thesis using r by auto
    next
      case False
      then have "n \<le> length ws" by simp
      moreover have "r mod n < n" using D(1) by simp
      ultimately obtain k where "k < length ws" "length ws \<le> k + n" "k mod n = r mod n"
        using window_exists by blast
      with False show ?thesis by (auto intro!: exI [of _ k])
    qed
    then obtain k where k: "r \<le> k" "k < length ws" "length ws \<le> k + n" "k mod n = r mod n" by blast
    with D(8) [of k] obtain b where b: "o_buffer d ! (r mod n) = Some b" by auto
    with D(1) D(7) [of "r mod n"] have
      "unat (b_seq b) < length ws" "length ws \<le> unat (b_seq b) + n" "unat (b_seq b) mod n = r mod n"
      by auto
    moreover from k calculation have "unat (b_seq b) = k"
      by (intro window_unique [of "unat (b_seq b)" "length ws" n k]) simp_all
    moreover from k r have "length ws \<le> r + n \<Longrightarrow> k = r"
      by (intro window_unique [of k "length ws" n r]) simp_all
    ultimately show ?thesis using b k by auto
  qed
qed

lemma oto_clear_inv:
  assumes inv: "oto_inv ws r d" and n: "n = length (o_buffer d)"
    and r': "r \<le> r'" "r' \<le> length ws" "unat w = r'"
    and stale: "\<And>k. r' \<le> k \<Longrightarrow> k < length ws \<Longrightarrow> length ws \<le> k + n \<Longrightarrow> k mod n \<noteq> r mod n"
  shows "oto_inv ws r' (d\<lparr>o_buffer := (o_buffer d)[r mod n := None], o_readIndex := w\<rparr>)"
proof -
  note D = oto_invD [OF inv n]
  have 1: "unat (b_seq b) < length ws \<and> length ws \<le> unat (b_seq b) + n \<and>
      unat (b_seq b) mod n = i \<and> b_data b = ws ! unat (b_seq b)"
    if "i < n" and "(o_buffer d)[r mod n := None] ! i = Some b" for i b
    using that D(1) n D(7) [of i b] by (auto simp: nth_list_update split: if_splits)
  have 2: "(o_buffer d)[r mod n := None] ! (k mod n) \<noteq> None"
    if "r' \<le> k" "k < length ws" "length ws \<le> k + n" for k
    using that r' D(8) [of k] stale [of k] by simp
  show ?thesis
    by (rule oto_invI [where n = n]) (use D(1-4) r'(2,3) 1 2 n in \<open>simp_all\<close>)
qed

lemma oto_next_empty:
  assumes inv: "oto_inv ws r d" and r: "r = length ws"
  shows "\<exists>d'. OneToOne_TryNext d = Inr (d', None, []) \<and> oto_inv ws r d' \<and>
    length (o_buffer d') = length (o_buffer d)"
proof -
  define n where "n = length (o_buffer d)"
  note D = oto_invD [OF inv n_def]
  let ?d = "d\<lparr>o_buffer := (o_buffer d)[r mod n := None]\<rparr>"
  have "OneToOne_TryNext d = Inr (?d, None, [])"
    using oto_next_cases(1) [OF inv n_def r] D(1,2,5)
    by (auto simp: OneToOne_TryNext_def oto_index word_less_nat_alt Let_def simp flip: n_def split: option.split)
  moreover have "oto_inv ws r ?d"
    using oto_clear_inv [OF inv n_def, of r "o_readIndex d"] D(5,6) r by simp
  ultimately show ?thesis by simp
qed

lemma sint_sub_small:
  assumes "unat (a :: uint64) < 2 ^ 63" "b \<le> a"
  shows "sint (a - b) = int (unat a - unat b)"
proof -
  have u: "unat (a - b) = unat a - unat b" using assms(2) by (rule unat_sub)
  with assms(1) have "unat (a - b) < 2 ^ 63" by simp
  then have "int (unat (a - b)) < int (2 ^ 63)" by (rule iffD2 [OF of_nat_less_iff])
  then have "uint (a - b) < 2 ^ 63" by simp
  then have "sint (a - b) = uint (a - b)"
    unfolding sint_uint by (intro signed_take_bit_int_eq_self) (simp_all add: order_trans [of _ 0])
  also have "\<dots> = int (unat (a - b))" by simp
  finally show ?thesis using u by simp
qed

lemma oto_next_some:
  assumes inv: "oto_inv ws r d" and r: "r < length ws"
  shows "\<exists>d' k. r \<le> k \<and> k < length ws \<and> (length ws \<le> r + length (o_buffer d) \<longrightarrow> k = r) \<and>
    OneToOne_TryNext d = Inr (d', Some (ws ! k), if k = r then [] else [int (k - r)]) \<and>
    oto_inv ws (Suc k) d' \<and> length (o_buffer d') = length (o_buffer d)"
proof -
  define n where "n = length (o_buffer d)"
  note D = oto_invD [OF inv n_def]
  from oto_next_cases(2) [OF inv n_def r] obtain b where
    b: "o_buffer d ! (r mod n) = Some b" "r \<le> unat (b_seq b)" "unat (b_seq b) < length ws"
      "length ws \<le> r + n \<longrightarrow> unat (b_seq b) = r" by blast
  define k where "k = unat (b_seq b)"
  let ?d = "d\<lparr>o_buffer := (o_buffer d)[r mod n := None], o_readIndex := b_seq b + 1\<rparr>"
  from D(7) [of "r mod n", OF _ b(1)] D(1) have kn: "k mod n = r mod n" "length ws \<le> k + n" "b_data b = ws ! k"
    by (auto simp: k_def)
  have rk: "o_readIndex d \<le> b_seq b" using b(2) D(5) by (simp add: word_le_nat_alt)
  have "unat (b_seq b + 1) = Suc k"
    using b(3) D(3) by (subst unat_add_one) (auto simp: k_def)
  then have "oto_inv ws (Suc k) ?d"
    using oto_clear_inv [OF inv n_def, of "Suc k" "b_seq b + 1"] b(2,3) window_unique kn
    by (metis Suc_leI Suc_le_lessD k_def le_SucI less_irrefl)
  moreover have "OneToOne_TryNext d = Inr (?d, Some (ws ! k), if k = r then [] else [int (k - r)])"
  proof (cases "k = r")
    case True
    then have "b_seq b = o_readIndex d" using D(5) by (simp add: k_def word_unat_eq_iff)
    with True show ?thesis using D(1,2,5) b(1) kn(3)
      by (simp add: OneToOne_TryNext_def oto_index Let_def flip: n_def)
  next
    case False
    with b(2) D(5) have "o_readIndex d < b_seq b" by (simp add: k_def word_less_nat_alt)
    moreover have "sint (b_seq b - o_readIndex d) = int (k - r)"
      using sint_sub_small [OF _ rk] b(3) D(3,5) by (simp add: k_def)
    ultimately show ?thesis using False D(1,2,5) b(1) kn(3)
      by (auto simp: OneToOne_TryNext_def oto_index Let_def simp flip: n_def)
  qed
  moreover have "length ws \<le> r + n \<longrightarrow> k = r" using b(4) by (simp add: k_def)
  ultimately show ?thesis
    using b(2,3) by (intro exI [of _ "?d"] exI [of _ k]) (simp add: k_def n_def)
qed

interpretation oto: diode OneToOne_Set OneToOne_TryNext oto_inv "\<lambda>d. length (o_buffer d)"
  by unfold_locales
     (rule oto_set oto_next_empty oto_next_some oto_invD(6) [OF _ refl]; assumption)+

section \<open>Without interference the many-to-one diode refines the one-to-one diode\<close>

definition mto_abs :: "'a ManyToOne \<Rightarrow> 'a OneToOne" where
  "mto_abs d = \<lparr>o_buffer = map (map_option snd) (m_buffer d),
                o_writeIndex = m_writeIndex d + 1, o_readIndex = m_readIndex d\<rparr>"

text \<open>A call of \<open>Set\<close> that is not interrupted, in the shape of the \<open>Diode\<close> interface.\<close>

definition mto_set :: "'a \<Rightarrow> 'a ManyToOne \<Rightarrow> 'a ManyToOne go" where
  "mto_set x d =
     (case ManyToOne_Set x d 0 of
        None \<Rightarrow> Inl (ExplicitPanic ''Set does not return'')
      | Some (Inl p) \<Rightarrow> Inl p
      | Some (Inr (d', _)) \<Rightarrow> Inr d')"

lemma mto_abs_sel [simp]:
  "o_buffer (mto_abs d) = map (map_option snd) (m_buffer d)"
  "o_writeIndex (mto_abs d) = m_writeIndex d + 1"
  "o_readIndex (mto_abs d) = m_readIndex d"
  by (simp_all add: mto_abs_def)

lemma mto_abs_new: "mto_abs (NewManyToOne sz) = NewOneToOne sz"
  by (simp add: mto_abs_def NewManyToOne_def NewOneToOne_def)

lemma mto_next_abs:
  assumes "length (m_buffer d) < 2 ^ 63"
  shows "map_sum id (\<lambda>(d', v, a). (mto_abs d', v, a)) (ManyToOne_TryNext d) = OneToOne_TryNext (mto_abs d)"
proof (cases "m_buffer d = []")
  case True
  then show ?thesis by (simp add: ManyToOne_TryNext_def OneToOne_TryNext_def)
next
  case False
  define idx where "idx = unat (m_readIndex d) mod length (m_buffer d)"
  have [simp]: "idx < length (m_buffer d)" using False by (simp add: idx_def)
  show ?thesis using False assms
    by (cases "m_buffer d ! idx")
       (auto simp: ManyToOne_TryNext_def OneToOne_TryNext_def Let_def mto_abs_def map_update oto_index
          simp flip: idx_def)
qed

lemma mto_no_collision:
  assumes inv: "oto_inv ws r (mto_abs d)" and n: "n = length (m_buffer d)"
    and b: "m_buffer d ! (length ws mod n) = Some (p, b)"
  shows "m_writeIndex d + 1 - of_nat n = b_seq b"
proof -
  note D = oto_invD [OF inv, unfolded mto_abs_sel length_map, OF n]
  have l: "length ws mod n < length (m_buffer d)" using D(1) n by simp
  then have "map (map_option snd) (m_buffer d) ! (length ws mod n) = Some b" using b by simp
  from D(7) [OF _ this] D(1) have b': "unat (b_seq b) < length ws" "length ws \<le> unat (b_seq b) + n"
    "unat (b_seq b) mod n = length ws mod n" by auto
  then have "length ws = unat (b_seq b) + n"
    using D(1) by (intro window_unique [of "length ws" "length ws + n" n "unat (b_seq b) + n"]) simp_all
  with D(4) have "unat (m_writeIndex d + 1) = unat (b_seq b) + n" by simp
  then have "(of_nat (unat (m_writeIndex d + 1)) :: uint64) = of_nat (unat (b_seq b) + n)" by (rule arg_cong)
  then show ?thesis by simp
qed

lemma mto_set_abs:
  assumes inv: "oto_inv ws r (mto_abs d)"
  shows "\<exists>d'. ManyToOne_Set x d l = Some (Inr (d', l)) \<and> OneToOne_Set x (mto_abs d) = Inr (mto_abs d')"
proof -
  define n where "n = length (m_buffer d)"
  note D = oto_invD [OF inv, unfolded mto_abs_sel length_map, OF n_def]
  define idx where "idx = length ws mod n"
  define d1 where "d1 = d\<lparr>m_writeIndex := m_writeIndex d + 1\<rparr>"
  have idx: "idx < n" using D(1) by (simp add: idx_def)
  have add: "mto_add d = (m_writeIndex d + 1, d1)" by (simp add: mto_add_def d1_def)
  have buf: "m_buffer d1 = m_buffer d" by (simp add: d1_def)
  have i: "mto_idx d1 (m_writeIndex d + 1) = idx"
    using D(2,4) by (simp add: mto_idx_def buf idx_def oto_index flip: n_def)
  have c: "\<not> mto_collides d1 (m_writeIndex d + 1) (m_buffer d1 ! idx)"
    using mto_no_collision [OF inv n_def] by (auto simp: mto_collides_def buf idx_def simp flip: n_def split: option.split)
  define d2 where "d2 = d1\<lparr>m_next := Suc (m_next d1),
      m_buffer := (m_buffer d)[idx := Some (m_next d1, \<lparr>b_data = x, b_seq = m_writeIndex d + 1\<rparr>)]\<rparr>"
  have s: "mto_cas d1 (m_writeIndex d + 1) (m_buffer d1 ! idx) x = (True, d2)"
    by (simp add: mto_cas_def i Let_def d2_def buf)
  have "m_buffer d \<noteq> []" using D(1) n_def by auto
  then have "ManyToOne_Set x d l = Some (Inr (d2, l))"
    by (subst ManyToOne_Set.simps) (simp add: add i c s)
  moreover have "OneToOne_Set x (mto_abs d) = Inr (mto_abs d2)"
    using D(1,2,4) idx by (simp add: OneToOne_Set_def oto_index d2_def d1_def mto_abs_def map_update idx_def flip: n_def)
  ultimately show ?thesis by blast
qed

interpretation mto: diode mto_set ManyToOne_TryNext "\<lambda>ws r d. oto_inv ws r (mto_abs d)"
    "\<lambda>d. length (m_buffer d)"
proof unfold_locales
  fix ws r and d :: "'a ManyToOne" and x
  assume inv: "oto_inv ws r (mto_abs d)"
  have abs: "map_sum id (\<lambda>(d', v, a). (mto_abs d', v, a)) (ManyToOne_TryNext d) = OneToOne_TryNext (mto_abs d)"
    using mto_next_abs oto_invD(2) [OF inv refl] by simp
  show "r \<le> length ws" using oto_invD(6) [OF inv refl] .
  show "\<exists>d'. mto_set x d = Inr d' \<and> oto_inv (ws @ [x]) r (mto_abs d') \<and> length (m_buffer d') = length (m_buffer d)"
    if "Suc (length ws) < 2 ^ 63"
    using mto_set_abs [OF inv, of x 0] oto_set [OF inv that, of x] by (force simp: mto_set_def)
  show "\<exists>d'. ManyToOne_TryNext d = Inr (d', None, []) \<and> oto_inv ws r (mto_abs d') \<and>
      length (m_buffer d') = length (m_buffer d)" if "r = length ws"
    using oto_next_empty [OF inv that] by (cases "ManyToOne_TryNext d") (auto simp flip: abs)
  show "\<exists>d' k. r \<le> k \<and> k < length ws \<and> (length ws \<le> r + length (m_buffer d) \<longrightarrow> k = r) \<and>
      ManyToOne_TryNext d = Inr (d', Some (ws ! k), if k = r then [] else [int (k - r)]) \<and>
      oto_inv ws (Suc k) (mto_abs d') \<and> length (m_buffer d') = length (m_buffer d)" if "r < length ws"
  proof -
    from oto_next_some [OF inv that] obtain d1 k where
      k: "r \<le> k" "k < length ws" "length ws \<le> r + length (m_buffer d) \<longrightarrow> k = r"
        "OneToOne_TryNext (mto_abs d) = Inr (d1, Some (ws ! k), if k = r then [] else [int (k - r)])"
        "oto_inv ws (Suc k) d1" "length (o_buffer d1) = length (m_buffer d)" by auto
    then obtain d' where
      "ManyToOne_TryNext d = Inr (d', Some (ws ! k), if k = r then [] else [int (k - r)])" "mto_abs d' = d1"
      by (cases "ManyToOne_TryNext d") (auto simp flip: abs)
    with k show ?thesis by (intro exI [of _ d'] exI [of _ k]) auto
  qed
qed

section \<open>Concurrent writers: nothing is invented, nothing is read twice\<close>

fun pc_val :: "'a mto_pc \<Rightarrow> 'a list" where
  "pc_val Idle = []"
| "pc_val (Adding x) = [x]"
| "pc_val (Loading x w) = [x]"
| "pc_val (Swapping x w old) = [x]"

fun pc_idx :: "'a mto_pc \<Rightarrow> uint64 option" where
  "pc_idx (Loading x w) = Some w"
| "pc_idx (Swapping x w old) = Some w"
| "pc_idx _ = None"

text \<open>
  What every interleaving keeps: the indices that writers hold are fresh and pairwise different,
  each stored index is used once, every bucket of the buffer was stored, and the reader's trace is
  strictly increasing below the read index.
\<close>

definition held_ok :: "uint64 option list \<Rightarrow> uint64 set \<Rightarrow> nat \<Rightarrow> bool" where
  "held_ok hs used n \<longleftrightarrow>
     (\<forall>i < length hs. \<forall>w. hs ! i = Some w \<longrightarrow>
        unat w < n \<and> w \<notin> used \<and> (\<forall>j < length hs. j \<noteq> i \<longrightarrow> hs ! j \<noteq> Some w))"

definition idx_inv :: "'a mto_sys \<Rightarrow> bool" where
  "idx_inv s \<longleftrightarrow>
     m_writeIndex (ms_diode s) + 1 = of_nat (ms_adds s) \<and>
     held_ok (map pc_idx (ms_pcs s)) (fst ` set (ms_stored s)) (ms_adds s) \<and>
     (\<forall>p \<in> set (ms_stored s). unat (fst p) < ms_adds s) \<and> distinct (map fst (ms_stored s))"

definition buf_inv :: "nat \<Rightarrow> 'a mto_sys \<Rightarrow> bool" where
  "buf_inv sz s \<longleftrightarrow>
     length (m_buffer (ms_diode s)) = sz \<and>
     (\<forall>p b. Some (p, b) \<in> set (m_buffer (ms_diode s)) \<longrightarrow> (b_seq b, b_data b) \<in> set (ms_stored s)) \<and>
     set (ms_read s) \<subseteq> set (ms_stored s) \<and>
     sorted_wrt (\<lambda>a b. fst a < fst b) (ms_read s) \<and>
     (\<forall>p \<in> set (ms_read s). fst p < m_readIndex (ms_diode s))"

definition val_inv :: "'a mto_sys \<Rightarrow> bool" where
  "val_inv s \<longleftrightarrow> mset (ms_called s) = mset (map snd (ms_stored s)) + mset (concat (map pc_val (ms_pcs s)))"

lemma mto_cas_cases:
  assumes "mto_cas d w old x = (ok, d')"
  shows "m_writeIndex d' = m_writeIndex d" "m_readIndex d' = m_readIndex d"
    "length (m_buffer d') = length (m_buffer d)"
    "\<not> ok \<Longrightarrow> m_buffer d' = m_buffer d"
    "ok \<Longrightarrow> m_buffer d' = (m_buffer d)[mto_idx d w := Some (m_next d, \<lparr>b_data = x, b_seq = w\<rparr>)]"
  using assms by (auto simp: mto_cas_def Let_def split: if_splits)

lemma mto_next_frame:
  assumes "ManyToOne_TryNext d = Inr (d', v, alerts)"
  shows "m_writeIndex d' = m_writeIndex d" "length (m_buffer d') = length (m_buffer d)"
    "set (m_buffer d') \<subseteq> insert None (set (m_buffer d))" "v = None \<Longrightarrow> m_readIndex d' = m_readIndex d"
  using assms
  by (auto simp: ManyToOne_TryNext_def Let_def split: if_splits option.splits
      dest!: set_update_subset_insert [THEN subsetD])

lemma mto_next_value:
  assumes "ManyToOne_TryNext d = Inr (d', Some x, alerts)" and "length (m_buffer d) < 2 ^ 63"
  shows "\<exists>p b. Some (p, b) \<in> set (m_buffer d) \<and> x = b_data b \<and> m_readIndex d \<le> b_seq b \<and>
    m_readIndex d' = b_seq b + 1"
proof -
  define idx where "idx = unat (m_readIndex d) mod length (m_buffer d)"
  from assms have ne: "m_buffer d \<noteq> []" by (auto simp: ManyToOne_TryNext_def)
  then have "idx < length (m_buffer d)" by (simp add: idx_def)
  then have "m_buffer d ! idx \<in> set (m_buffer d)" by simp
  with assms ne show ?thesis
    by (force simp: ManyToOne_TryNext_def Let_def oto_index simp flip: idx_def split: if_splits option.splits)
qed

lemma held_ok_keep:
  assumes "held_ok hs used n" and "h = hs ! i \<or> h = None"
  shows "held_ok (hs[i := h]) used n"
proof (cases "i < length hs")
  case True
  from assms(2) have eq: "hs[i := h] ! j = Some w \<Longrightarrow> hs ! j = Some w" for j w
    using True by (cases "j = i") auto
  with assms(1) show ?thesis unfolding held_ok_def length_list_update by meson
qed (use assms(1) in \<open>simp add: list_update_beyond\<close>)

lemma held_ok_new:
  assumes "held_ok hs used n" and "unat w = n" and "w \<notin> used"
  shows "held_ok (hs[i := Some w]) used (Suc n)"
  unfolding held_ok_def length_list_update
proof (intro allI impI)
  fix j u
  assume j: "j < length hs" "hs[i := Some w] ! j = Some u"
  have fresh: "hs ! k \<noteq> Some w" if "k < length hs" for k
    using assms(1,2) that unfolding held_ok_def by blast
  show "unat u < Suc n \<and> u \<notin> used \<and> (\<forall>k < length hs. k \<noteq> j \<longrightarrow> hs[i := Some w] ! k \<noteq> Some u)"
  proof (cases "j = i")
    case True
    with j assms(2,3) fresh show ?thesis by simp
  next
    case False
    with j have u: "hs ! j = Some u" by simp
    with assms(1) j(1) have *: "unat u < n" "u \<notin> used" "\<And>k. k < length hs \<Longrightarrow> k \<noteq> j \<Longrightarrow> hs ! k \<noteq> Some u"
      unfolding held_ok_def by blast+
    have "hs[i := Some w] ! k \<noteq> Some u" if "k < length hs" "k \<noteq> j" for k
      using *(3) [OF that] fresh [OF j(1)] u that(1) by (cases "k = i") auto
    with *(1,2) show ?thesis by simp
  qed
qed

lemma held_ok_use:
  assumes "held_ok hs used n" and "i < length hs" and "hs ! i = Some w"
  shows "held_ok (hs[i := None]) (insert w used) n"
  unfolding held_ok_def length_list_update
proof (intro allI impI)
  fix j u
  assume j: "j < length hs" "hs[i := None] ! j = Some u"
  with assms(2) have ne: "j \<noteq> i" by auto
  with j have u: "hs ! j = Some u" by simp
  have *: "unat u < n" "u \<notin> used" "\<And>k. k < length hs \<Longrightarrow> k \<noteq> j \<Longrightarrow> hs ! k \<noteq> Some u"
    using assms(1) j(1) u unfolding held_ok_def by blast+
  have "u \<noteq> w" using *(3) [OF assms(2)] ne assms(3) by auto
  moreover have "hs[i := None] ! k \<noteq> Some u" if "k < length hs" "k \<noteq> j" for k
    using *(3) [OF that] assms(2) by (cases "k = i") auto
  ultimately show "unat u < n \<and> u \<notin> insert w used \<and>
      (\<forall>k < length hs. k \<noteq> j \<longrightarrow> hs[i := None] ! k \<noteq> Some u)" using *(1,2) by simp
qed

lemma idx_inv_step:
  assumes "mto_step s t" and "idx_inv s" and "ms_adds t < 2 ^ 64"
  shows "idx_inv t"
  using assms
proof (induction rule: mto_step.induct)
  case (add i s x w d)
  then have w: "w = of_nat (ms_adds s)" and d: "m_writeIndex d = w"
    by (auto simp: mto_add_def idx_inv_def)
  have uw: "unat w = ms_adds s" using add.prems(2) w by (simp add: unat_of_nat_64)
  with add.prems(1) have "w \<notin> fst ` set (ms_stored s)" unfolding idx_inv_def by fastforce
  with add.prems(1) uw have "held_ok ((map pc_idx (ms_pcs s))[i := Some w]) (fst ` set (ms_stored s)) (Suc (ms_adds s))"
    unfolding idx_inv_def by (intro held_ok_new) auto
  with add.prems(1) d w show ?case by (auto simp: idx_inv_def map_update add.commute less_SucI)
next
  case (swap i s x w old d)
  have "held_ok ((map pc_idx (ms_pcs s))[i := None]) (insert w (fst ` set (ms_stored s))) (ms_adds s)"
    using swap.hyps(1,2) swap.prems(1) by (intro held_ok_use) (simp_all add: idx_inv_def)
  moreover have "unat w < ms_adds s" "w \<notin> fst ` set (ms_stored s)"
    using swap.hyps(1,2) swap.prems(1) unfolding idx_inv_def held_ok_def by (force+)
  ultimately show ?case using swap.prems(1) mto_cas_cases(1) [OF swap.hyps(3)]
    by (simp add: idx_inv_def map_update)
next
  case (swap_fails i s x w old d)
  then show ?case using mto_cas_cases(1) [OF swap_fails.hyps(3)]
    by (simp add: idx_inv_def map_update held_ok_keep)
next
  case (read s d x alerts)
  then show ?case using mto_next_frame(1) [OF read.hyps] by (simp add: idx_inv_def)
next
  case (read_fails s d alerts)
  then show ?case using mto_next_frame(1) [OF read_fails.hyps] by (simp add: idx_inv_def)
qed (simp_all add: idx_inv_def map_update held_ok_keep)

lemma val_inv_step:
  assumes "mto_step s t" and "val_inv s"
  shows "val_inv t"
  using assms
proof (induction rule: mto_step.induct)
  case (call i s x)
  then show ?case using mset_concat_update [of i "ms_pcs s" pc_val "Adding x"] by (simp add: val_inv_def)
next
  case (add i s x w d)
  then show ?case using mset_concat_update [of i "ms_pcs s" pc_val "Loading x w"] by (simp add: val_inv_def)
next
  case (load i s x w old)
  then show ?case using mset_concat_update [of i "ms_pcs s" pc_val "Swapping x w old"] by (simp add: val_inv_def)
next
  case (collide i s x w)
  then show ?case using mset_concat_update [of i "ms_pcs s" pc_val "Adding x"] by (simp add: val_inv_def)
next
  case (swap i s x w old d)
  then show ?case using mset_concat_update [of i "ms_pcs s" pc_val "Idle"] by (simp add: val_inv_def)
next
  case (swap_fails i s x w old d)
  then show ?case using mset_concat_update [of i "ms_pcs s" pc_val "Adding x"] by (simp add: val_inv_def)
qed (simp_all add: val_inv_def)

lemma buf_inv_step:
  assumes "mto_step s t" and "buf_inv sz s" and "idx_inv s" and "ms_adds s < 2 ^ 64" and "sz < 2 ^ 63"
  shows "buf_inv sz t"
  using assms
proof (induction rule: mto_step.induct)
  case (add i s x w d)
  then show ?case by (auto simp: buf_inv_def mto_add_def)
next
  case (swap i s x w old d)
  then show ?case using mto_cas_cases(2,3,5) [OF swap.hyps(3)]
    by (auto simp: buf_inv_def dest!: set_update_subset_insert [THEN subsetD])
next
  case (swap_fails i s x w old d)
  then show ?case using mto_cas_cases(2,3,4) [OF swap_fails.hyps(3)] by (auto simp: buf_inv_def)
next
  case (read s d x alerts)
  from read.hyps read.prems obtain p b where b: "Some (p, b) \<in> set (m_buffer (ms_diode s))"
    "x = b_data b" "m_readIndex (ms_diode s) \<le> b_seq b" "m_readIndex d = b_seq b + 1"
    using mto_next_value [OF read.hyps] by (auto simp: buf_inv_def)
  then have stored: "(b_seq b, x) \<in> set (ms_stored s)" using read.prems(1) by (simp add: buf_inv_def)
  then have "unat (b_seq b) < ms_adds s" using read.prems(2) by (auto simp: idx_inv_def)
  then have lt: "b_seq b < b_seq b + 1"
    using read.prems(3) by (simp add: word_less_nat_alt unat_add_one)
  have "fst q < b_seq b" if "q \<in> set (ms_read s)" for q
    using that read.prems(1) b(3) by (auto simp: buf_inv_def intro: less_le_trans)
  then show ?case using read.prems(1) stored lt b(4) mto_next_frame(2,3) [OF read.hyps]
    by (auto simp: buf_inv_def sorted_wrt_append intro: less_trans)
next
  case (read_fails s d alerts)
  then show ?case using mto_next_frame [OF read_fails.hyps] by (auto simp: buf_inv_def)
qed (auto simp: buf_inv_def)

lemma mto_step_adds: "mto_step s t \<Longrightarrow> ms_adds s \<le> ms_adds t"
  by (induction rule: mto_step.induct) auto

lemma mto_reachable_inv:
  assumes "mto_reachable sz writers s" and "ms_adds s < 2 ^ 64" and "sz < 2 ^ 63"
  shows "idx_inv s \<and> val_inv s \<and> buf_inv sz s"
  using assms
proof (induction rule: mto_reachable.induct)
  case start
  have "concat (map pc_val (replicate writers Idle)) = []" by (induction writers) auto
  then show ?case
    by (simp add: mto_init_def idx_inv_def val_inv_def buf_inv_def NewManyToOne_def held_ok_def)
next
  case (step s t)
  then have "ms_adds s < 2 ^ 64" using mto_step_adds by fastforce
  with step show ?case by (blast intro: idx_inv_step val_inv_step buf_inv_step)
qed

section \<open>Properties\<close>

text \<open>
  C9. The single-writer diode is lossy but honest. For any sequence of calls of \<open>Set\<close> and
  \<open>TryNext\<close> no call panics, the values read are a subsequence of the values set (in order, none
  twice, none invented), and the number of values read plus the numbers passed to the alerter is
  exactly the read position, which never passes the number of values set.
\<close>

theorem OneToOne_lossy_but_accounted:
  assumes "0 < sz" "sz < 2 ^ 63" "length (written ops) < 2 ^ 63"
  shows "\<exists>d vs alerts. diode_run OneToOne_Set OneToOne_TryNext ops (NewOneToOne sz) = Inr (d, vs, alerts) \<and>
    subseq vs (written ops) \<and>
    int (length vs) + sum_list alerts = int (unat (o_readIndex d)) \<and>
    unat (o_readIndex d) \<le> length (written ops)"
proof -
  from oto.run_from [OF oto_inv_new [OF assms(1,2)], of ops] assms(3) obtain d vs alerts r where
    run: "diode_run OneToOne_Set OneToOne_TryNext ops (NewOneToOne sz) = Inr (d, vs, alerts)"
      "subseq vs (written ops)" "int (length vs) + sum_list alerts = int r" and
    inv: "oto_inv (written ops) r d" by auto
  have r: "r = unat (o_readIndex d)" using oto_invD(5) [OF inv refl] by simp
  from run(1,2) run(3) [unfolded r] oto_invD(6) [OF inv refl, unfolded r] show ?thesis by blast
qed

theorem OneToOne_lossy_but_accounted_witness:
  "\<exists>d vs alerts. diode_run OneToOne_Set OneToOne_TryNext
      [DSet (1 :: int), DSet 2, DTryNext, DTryNext] (NewOneToOne 1) = Inr (d, vs, alerts) \<and>
    subseq vs [1, 2] \<and> int (length vs) + sum_list alerts = int (unat (o_readIndex d)) \<and>
    unat (o_readIndex d) \<le> length [1, 2 :: int]"
  using OneToOne_lossy_but_accounted [of 1 "[DSet (1 :: int), DSet 2, DTryNext, DTryNext]"] by simp

text \<open>
  As long as the number of unread values never exceeds the size of the buffer, the diode is a
  FIFO queue: the values read are the oldest values set, and the alerter is never called.
\<close>

theorem OneToOne_fifo_while_not_lapped:
  assumes "0 < sz" "sz < 2 ^ 63" "length (written ops) < 2 ^ 63" "never_lapped sz 0 ops"
  shows "\<exists>d vs. diode_run OneToOne_Set OneToOne_TryNext ops (NewOneToOne sz) = Inr (d, vs, []) \<and>
    prefix vs (written ops) \<and> unat (o_readIndex d) = length vs"
proof -
  have "never_lapped (length (o_buffer (NewOneToOne sz))) (length [] - 0) ops"
    using assms(4) by (simp add: NewOneToOne_def)
  from oto.run_fifo [OF oto_inv_new [OF assms(1,2)] _ this] assms(3) obtain d vs where
    "diode_run OneToOne_Set OneToOne_TryNext ops (NewOneToOne sz) = Inr (d, vs, [])"
    "prefix vs (written ops)" "oto_inv (written ops) (length vs) d" by auto
  then show ?thesis using oto_invD(5) [of "written ops" "length vs" d, OF _ refl] by blast
qed

theorem OneToOne_fifo_while_not_lapped_witness:
  "\<exists>d vs. diode_run OneToOne_Set OneToOne_TryNext
      [DSet (1 :: int), DSet 2, DTryNext, DSet 3] (NewOneToOne 2) = Inr (d, vs, []) \<and>
    prefix vs [1, 2, 3] \<and> unat (o_readIndex d) = length vs"
  using OneToOne_fifo_while_not_lapped [of 2 "[DSet (1 :: int), DSet 2, DTryNext, DSet 3]"] by simp

lemma mto_run_simulates:
  assumes "oto_inv ws r (mto_abs d)" and "length ws + length (written ops) < 2 ^ 63"
  shows "map_sum id snd (diode_run mto_set ManyToOne_TryNext ops d) =
    map_sum id snd (diode_run OneToOne_Set OneToOne_TryNext ops (mto_abs d))"
  using assms
proof (induction ops arbitrary: ws r d)
  case (Cons op ops)
  show ?case
  proof (cases op)
    case (DSet x)
    from mto_set_abs [OF Cons.prems(1)] obtain d' where d':
      "ManyToOne_Set x d 0 = Some (Inr (d', 0))" "OneToOne_Set x (mto_abs d) = Inr (mto_abs d')" by blast
    then have "oto_inv (ws @ [x]) r (mto_abs d')"
      using oto_set [OF Cons.prems(1), of x] Cons.prems(2) DSet by auto
    with d' DSet Cons.IH [of "ws @ [x]" r d'] Cons.prems(2) show ?thesis by (simp add: mto_set_def)
  next
    case DTryNext
    have "length (m_buffer d) < 2 ^ 63" using oto_invD(2) [OF Cons.prems(1) refl] by simp
    note abs = mto_next_abs [OF this]
    obtain d' v al r' where d': "ManyToOne_TryNext d = Inr (d', v, al)" "oto_inv ws r' (mto_abs d')"
      using mto.next_empty [OF Cons.prems(1)] mto.next_some [OF Cons.prems(1)] mto.inv_bound [OF Cons.prems(1)]
      by (metis le_neq_implies_less)
    then have "OneToOne_TryNext (mto_abs d) = Inr (mto_abs d', v, al)" by (simp flip: abs)
    moreover note Cons.IH [OF d'(2)]
    ultimately show ?thesis using DTryNext d'(1) Cons.prems(2)
      by (cases "diode_run mto_set ManyToOne_TryNext ops d'";
          cases "diode_run OneToOne_Set OneToOne_TryNext ops (mto_abs d')") auto
  qed
qed simp

text \<open>
  C22. Calls that do not overlap in time cannot tell the diode with many writers from the diode with
  one: from fresh diodes of the same size, any sequence of calls makes the same reads and the same
  alerts, and the loop of \<open>Set\<close> stops in its first round.
\<close>

theorem ManyToOne_refines_OneToOne:
  assumes "0 < sz" "sz < 2 ^ 63" "length (written ops) < 2 ^ 63"
  shows "map_sum id snd (diode_run mto_set ManyToOne_TryNext ops (NewManyToOne sz)) =
    map_sum id snd (diode_run OneToOne_Set OneToOne_TryNext ops (NewOneToOne sz))"
  using mto_run_simulates [of "[]" 0 "NewManyToOne sz" ops] oto_inv_new [OF assms(1,2)] assms(3)
  by (simp add: mto_abs_new)

theorem ManyToOne_refines_OneToOne_witness:
  "map_sum id snd (diode_run mto_set ManyToOne_TryNext [DSet (1 :: int), DTryNext] (NewManyToOne 4)) =
   map_sum id snd (diode_run OneToOne_Set OneToOne_TryNext [DSet 1, DTryNext] (NewOneToOne 4))"
  using ManyToOne_refines_OneToOne [of 4 "[DSet (1 :: int), DTryNext]"] by simp

text \<open>
  C27. Whatever the interleaving of the writers and the reader, every value the reader gets was
  passed to \<open>Set\<close>, at most as often as it was passed, and the sequence numbers of the values read
  are strictly increasing (so no write is read twice). The bound says that the 64-bit write index
  has not wrapped around.
\<close>

theorem ManyToOne_concurrent_reads:
  assumes "mto_reachable sz writers s" and "ms_adds s < 2 ^ 64" and "sz < 2 ^ 63"
  shows "mset (map snd (ms_read s)) \<subseteq># mset (ms_called s) \<and>
    sorted_wrt (\<lambda>a b. fst a < fst b) (ms_read s)"
proof -
  from mto_reachable_inv [OF assms] have inv: "idx_inv s" "val_inv s" "buf_inv sz s" by auto
  from inv(3) have sorted: "sorted_wrt (\<lambda>a b. fst a < fst b) (ms_read s)" by (simp add: buf_inv_def)
  then have "distinct (ms_read s)" by (rule sorted_wrt_distinct) simp
  with inv(3) have "mset (ms_read s) \<subseteq># mset (ms_stored s)"
    by (simp add: buf_inv_def mset_distinct_subset)
  then have "mset (map snd (ms_read s)) \<subseteq># mset (map snd (ms_stored s))"
    by (simp add: image_mset_subseteq_mono)
  also have "\<dots> \<subseteq># mset (ms_called s)" using inv(2) by (simp add: val_inv_def)
  finally show ?thesis using sorted by simp
qed

text \<open>A run with one writer and the reader: 7 is set and read.\<close>

lemma mto_run_example: "mto_reachable 1 1 (mto_init 1 1
    \<lparr>ms_diode := \<lparr>m_writeIndex = 0, m_buffer = [None], m_readIndex = 1, m_next = 1\<rparr>, ms_adds := 1,
     ms_called := [7 :: int], ms_stored := [(0, 7)], ms_read := [(0, 7)]\<rparr>)"
proof -
  note reach = mto_reachable.step [where sz = 1 and writers = 1]
  note defs = mto_init_def NewManyToOne_def mto_add_def mto_idx_def mto_collides_def mto_cas_def
    ManyToOne_TryNext_def
  let ?d = "\<lparr>m_writeIndex = 0, m_buffer = [None], m_readIndex = 0, m_next = 0\<rparr> :: int ManyToOne"
  let ?b = "\<lparr>m_writeIndex = 0, m_buffer = [Some (0, \<lparr>b_data = 7, b_seq = 0\<rparr>)], m_readIndex = 0, m_next = 1\<rparr> :: int ManyToOne"
  have 1: "mto_reachable 1 1 (mto_init 1 1\<lparr>ms_pcs := [Adding (7 :: int)], ms_called := [7]\<rparr>)"
    using reach [OF mto_reachable.start mto_step.call [of 0 _ 7]] by (simp add: defs)
  have 2: "mto_reachable 1 1 (mto_init 1 1
      \<lparr>ms_diode := ?d, ms_adds := 1, ms_pcs := [Loading 7 0], ms_called := [7]\<rparr>)"
    using reach [OF 1 mto_step.add [of 0 _ 7 0 ?d]] by (simp add: defs)
  have 3: "mto_reachable 1 1 (mto_init 1 1
      \<lparr>ms_diode := ?d, ms_adds := 1, ms_pcs := [Swapping 7 0 None], ms_called := [7]\<rparr>)"
    using reach [OF 2 mto_step.load [of 0 _ 7 0 None]] by (simp add: defs)
  have 4: "mto_reachable 1 1 (mto_init 1 1
      \<lparr>ms_diode := ?b, ms_adds := 1, ms_called := [7], ms_stored := [(0, 7)]\<rparr>)"
    using reach [OF 3 mto_step.swap [of 0 _ 7 0 None ?b]] by (simp add: defs)
  show ?thesis
    using reach [OF 4 mto_step.read [of _ "?b\<lparr>m_buffer := [None], m_readIndex := 1\<rparr>" 7 "[]"]]
    by (simp add: defs)
qed

theorem ManyToOne_concurrent_reads_witness:
  "mset [7 :: int] \<subseteq># mset [7] \<and> sorted_wrt (\<lambda>a b. fst a < fst b) [(0 :: uint64, 7 :: int)]"
  using ManyToOne_concurrent_reads [OF mto_run_example] by (simp add: mto_init_def)

text \<open>
  C40. The guard of \<open>Set\<close> against overwriting a newer bucket compares with \<open>writeIndex - len(buffer)\<close> in
  unsigned arithmetic. During the first lap that difference wraps around to a number no sequence
  number exceeds, and the guard lets a slow writer replace a newer bucket by its older one. In the
  run below the writer with index 0 is overtaken by the writer with index 1 in a diode of size 1.
\<close>

theorem ManyToOne_first_lap_overwrite:
  "\<exists>(s :: int mto_sys) t. mto_reachable 1 2 s \<and> mto_step s t \<and>
     map (map_option (\<lambda>p. b_seq (snd p))) (m_buffer (ms_diode s)) = [Some 1] \<and>
     map (map_option (\<lambda>p. b_seq (snd p))) (m_buffer (ms_diode t)) = [Some 0]"
proof -
  note reach = mto_reachable.step [where sz = 1 and writers = 2]
  note defs = mto_init_def NewManyToOne_def mto_add_def mto_idx_def mto_collides_def mto_cas_def
    numeral_2_eq_2
  let ?d0 = "\<lparr>m_writeIndex = 0, m_buffer = [None], m_readIndex = 0, m_next = 0\<rparr> :: int ManyToOne"
  let ?d1 = "?d0\<lparr>m_writeIndex := 1\<rparr>"
  let ?old = "Some (0, \<lparr>b_data = 8, b_seq = 1\<rparr>) :: int slot"
  let ?d2 = "?d1\<lparr>m_buffer := [?old], m_next := 1\<rparr>"
  let ?d3 = "?d2\<lparr>m_buffer := [Some (1, \<lparr>b_data = 7, b_seq = 0\<rparr>)], m_next := 2\<rparr>"
  let ?s = "\<lambda>d n c st p q. mto_init 1 2\<lparr>ms_diode := d, ms_adds := n, ms_pcs := [p, q], ms_called := c, ms_stored := st\<rparr>"
  have 1: "mto_reachable 1 2 (mto_init 1 2\<lparr>ms_pcs := [Adding 7, Idle], ms_called := [7 :: int]\<rparr>)"
    using reach [OF mto_reachable.start mto_step.call [of 0 _ 7]] by (simp add: defs)
  have 2: "mto_reachable 1 2 (?s ?d0 1 [7] [] (Loading 7 0) Idle)"
    using reach [OF 1 mto_step.add [of 0 _ 7 0 ?d0]] by (simp add: defs)
  have 3: "mto_reachable 1 2 (?s ?d0 1 [7, 8] [] (Loading 7 0) (Adding 8))"
    using reach [OF 2 mto_step.call [of 1 _ 8]] by (simp add: defs)
  have 4: "mto_reachable 1 2 (?s ?d1 2 [7, 8] [] (Loading 7 0) (Loading 8 1))"
    using reach [OF 3 mto_step.add [of 1 _ 8 1 ?d1]] by (simp add: defs)
  have 5: "mto_reachable 1 2 (?s ?d1 2 [7, 8] [] (Loading 7 0) (Swapping 8 1 None))"
    using reach [OF 4 mto_step.load [of 1 _ 8 1 None]] by (simp add: defs)
  have 6: "mto_reachable 1 2 (?s ?d2 2 [7, 8] [(1, 8)] (Loading 7 0) Idle)"
    using reach [OF 5 mto_step.swap [of 1 _ 8 1 None ?d2]] by (simp add: defs)
  have 7: "mto_reachable 1 2 (?s ?d2 2 [7, 8] [(1, 8)] (Swapping 7 0 ?old) Idle)"
    using reach [OF 6 mto_step.load [of 0 _ 7 0 ?old]] by (simp add: defs)
  have 8: "mto_step (?s ?d2 2 [7, 8] [(1, 8)] (Swapping 7 0 ?old) Idle)
      (?s ?d3 2 [7, 8] [(1, 8), (0, 7)] Idle Idle)"
    using mto_step.swap [of 0 "?s ?d2 2 [7, 8] [(1, 8)] (Swapping 7 0 ?old) Idle" 7 0 ?old ?d3]
    by (simp add: defs)
  from 7 8 show ?thesis by (intro exI conjI) (assumption | simp)+
qed

end
