(* ===== verification/PubSub.thy ===== *)
theory PubSub
  imports Prelude "HOL-Library.Char_ord" "HOL-Library.List_Lexorder"
begin

text \<open>
  The subscription tree of \<open>go-pubsub\<close>: \<open>internal/node/node.go\<close> and \<open>pubsub.go\<close>.

  A node maps 64-bit keys to children and shard IDs to the subscriptions of the shard. The pointers
  of the source form a tree, so a change in place below a node is modelled by returning the new node.
  Subscriptions are functions in the source; here they are values of a type parameter, and publishing
  returns the list of subscriptions that are invoked, in order. \<open>math/rand\<close> is a parameter: \<open>r\<close> is
  the number drawn for a new subscription ID, and \<open>rand \<pi> sid l\<close> is the number drawn by the call
  \<open>s.rand(l)\<close> for shard \<open>sid\<close> at the node with path \<open>\<pi>\<close>. The read-write lock makes every operation
  atomic.
\<close>

section \<open>Nodes\<close>

record 'f SubscriptionEnvelope =
  se_Subscription :: 'f
  se_id :: uint64
  se_dName :: string

record 'f subscriptionInfo =
  si_deterministicRoutingCount :: int
  si_envelopes :: "'f SubscriptionEnvelope list"

datatype (dead 'f) Node = Node
  (n_children: "(uint64 \<times> 'f Node) list")
  (n_subscriptions: "(string, 'f subscriptionInfo) gomap")
  (n_shards: "(uint64, string) gomap")

definition Node_New :: "'f Node" where
  "Node_New = Node [] [] []"

text \<open>\<open>AddChild\<close> returns the child; the node now has it.\<close>

definition Node_AddChild :: "uint64 \<Rightarrow> 'f Node \<Rightarrow> 'f Node \<times> 'f Node" where
  "Node_AddChild key n =
     (case map_of (n_children n) key of
        Some child \<Rightarrow> (child, n)
      | None \<Rightarrow>
          let child = Node_New
          in (child, Node (gomap_set key child (n_children n)) (n_subscriptions n) (n_shards n)))"

definition Node_FetchChild :: "uint64 \<Rightarrow> 'f Node option \<Rightarrow> 'f Node option" where
  "Node_FetchChild key n =
     (case n of None \<Rightarrow> None | Some n \<Rightarrow> map_of (n_children n) key)"

definition Node_DeleteChild :: "uint64 \<Rightarrow> 'f Node \<Rightarrow> 'f Node" where
  "Node_DeleteChild key n =
     Node (gomap_delete key (n_children n)) (n_subscriptions n) (n_shards n)"

text \<open>A change made through the pointer to a child of \<open>n\<close>.\<close>

definition Node_setChild :: "uint64 \<Rightarrow> 'f Node \<Rightarrow> 'f Node \<Rightarrow> 'f Node" where
  "Node_setChild key child n =
     Node (gomap_set key child (n_children n)) (n_subscriptions n) (n_shards n)"

definition Node_ChildLen :: "'f Node option \<Rightarrow> nat go" where
  "Node_ChildLen n = (case n of None \<Rightarrow> Inl NilDereference | Some n \<Rightarrow> Inr (length (n_children n)))"

definition Node_SubscriptionLen :: "'f Node option \<Rightarrow> nat go" where
  "Node_SubscriptionLen n = (case n of None \<Rightarrow> Inl NilDereference | Some n \<Rightarrow> Inr (length (n_shards n)))"

text \<open>The loop of \<open>createAndSetID\<close>: the first free identifier from \<open>id\<close> on, with wrap-around.\<close>

partial_function (option) free_id :: "(uint64, string) gomap \<Rightarrow> uint64 \<Rightarrow> uint64 option" where
  "free_id shards i =
     (if map_of shards i \<noteq> None then free_id shards (i + 1) else Some i)"

definition createAndSetID ::
    "uint64 \<Rightarrow> string \<Rightarrow> (uint64, string) gomap \<Rightarrow> (uint64 \<times> (uint64, string) gomap) option" where
  "createAndSetID r shardID shards =
     (case free_id shards r of None \<Rightarrow> None | Some i \<Rightarrow> Some (i, gomap_set i shardID shards))"

text \<open>
  \<open>sort.Sort\<close> sorts by name and leaves the order of equal names open; here equal names keep their order, which is one of the
  results the code can have. The properties of the tree do not depend on the order among equal names.
\<close>

definition Node_AddSubscription ::
    "uint64 \<Rightarrow> 'f \<Rightarrow> string \<Rightarrow> string \<Rightarrow> 'f Node \<Rightarrow> (uint64 \<times> 'f Node) option" where
  "Node_AddSubscription r s shardID deterministicRoutingName n =
     (case createAndSetID r shardID (n_shards n) of
        None \<Rightarrow> None
      | Some (i, shards) \<Rightarrow>
          let si = (case map_of (n_subscriptions n) shardID of
                      None \<Rightarrow> \<lparr>si_deterministicRoutingCount = 0, si_envelopes = []\<rparr>
                    | Some si \<Rightarrow> si);
              envs = si_envelopes si @
                [\<lparr>se_Subscription = s, se_id = i, se_dName = deterministicRoutingName\<rparr>];
              count = (if deterministicRoutingName \<noteq> [] then si_deterministicRoutingCount si + 1
                       else si_deterministicRoutingCount si);
              si = \<lparr>si_deterministicRoutingCount = count, si_envelopes = sort_key se_dName envs\<rparr>
          in Some (i, Node (n_children n) (gomap_set shardID si (n_subscriptions n)) shards))"

text \<open>The loop of \<open>DeleteSubscription\<close> over the envelopes of a shard.\<close>

fun remove_envelope :: "uint64 \<Rightarrow> 'f subscriptionInfo \<Rightarrow> 'f SubscriptionEnvelope list \<Rightarrow> nat \<Rightarrow> 'f subscriptionInfo" where
  "remove_envelope i s [] k = s"
| "remove_envelope i s (ss # rest) k =
     (if se_id ss \<noteq> i then remove_envelope i s rest (Suc k)
      else
        let count = (if se_dName ss \<noteq> [] then si_deterministicRoutingCount s - 1
                     else si_deterministicRoutingCount s)
        in \<lparr>si_deterministicRoutingCount = count, si_envelopes = remove_nth k (si_envelopes s)\<rparr>)"

definition Node_DeleteSubscription :: "uint64 \<Rightarrow> 'f Node \<Rightarrow> 'f Node" where
  "Node_DeleteSubscription i n =
     (case map_of (n_shards n) i of
        None \<Rightarrow> n
      | Some shardID \<Rightarrow>
          let shards = gomap_delete i (n_shards n);
              s = (case map_of (n_subscriptions n) shardID of
                     None \<Rightarrow> \<lparr>si_deterministicRoutingCount = 0, si_envelopes = []\<rparr>
                   | Some s \<Rightarrow> s);
              s = remove_envelope i s (si_envelopes s) 0;
              subs = gomap_set shardID s (n_subscriptions n)
          in Node (n_children n)
               (if length (si_envelopes s) = 0 then gomap_delete shardID subs else subs) shards)"

definition Node_ForEachSubscription ::
    "(string \<Rightarrow> bool \<Rightarrow> 'f SubscriptionEnvelope list \<Rightarrow> 'b) \<Rightarrow> 'f Node \<Rightarrow> 'b list" where
  "Node_ForEachSubscription f n =
     map (\<lambda>(shardID, s). f shardID (si_deterministicRoutingCount s > 0) (si_envelopes s)) (n_subscriptions n)"

section \<open>Subscribing and unsubscribing\<close>

text \<open>
  \<open>Subscribe\<close>: walk down the path, adding missing children, and add the subscription to the last
  node. \<open>None\<close> would be a search for a free identifier that does not end.
\<close>

fun PubSub_Subscribe ::
    "uint64 \<Rightarrow> 'f \<Rightarrow> string \<Rightarrow> string \<Rightarrow> uint64 list \<Rightarrow> 'f Node \<Rightarrow> (uint64 \<times> 'f Node) option" where
  "PubSub_Subscribe r sub shardID dName [] n = Node_AddSubscription r sub shardID dName n"
| "PubSub_Subscribe r sub shardID dName (p # ps) n =
     (let (child, n) = Node_AddChild p n
      in case PubSub_Subscribe r sub shardID dName ps child of
           None \<Rightarrow> None
         | Some (i, child) \<Rightarrow> Some (i, Node_setChild p child n))"

text \<open>
  \<open>cleanupSubscriptionTree\<close>: the node may be nil (a child that does not exist), in which case the
  recursion reaches the end of the path and then \<open>child.ChildLen()\<close> dereferences nil.
\<close>

fun cleanupSubscriptionTree :: "'f Node option \<Rightarrow> uint64 \<Rightarrow> uint64 list \<Rightarrow> 'f Node option go" where
  "cleanupSubscriptionTree n i [] = Inr (map_option (Node_DeleteSubscription i) n)"
| "cleanupSubscriptionTree n i (p # ps) =
     (case cleanupSubscriptionTree (Node_FetchChild p n) i ps of
        Inl e \<Rightarrow> Inl e
      | Inr child \<Rightarrow>
          (case (Node_ChildLen child, Node_SubscriptionLen child) of
             (Inl e, _) \<Rightarrow> Inl e
           | (_, Inl e) \<Rightarrow> Inl e
           | (Inr cl, Inr sl) \<Rightarrow>
               (case (n, child) of
                  (Some n, Some child) \<Rightarrow>
                    Inr (Some (if cl = 0 \<and> sl = 0 then Node_DeleteChild p n else Node_setChild p child n))
                | _ \<Rightarrow> Inr n)))"

section \<open>Publishing\<close>

text \<open>
  A \<open>TreeTraverser\<close> maps the data to its \<open>Paths\<close>, and \<open>Paths\<close> maps an index to a path, a next
  traverser (nil: keep the present one) and \<open>ok\<close>.
\<close>

datatype (dead 'd) TreeTraverser =
  TreeTraverser (traverse: "'d \<Rightarrow> nat \<Rightarrow> (uint64 \<times> 'd TreeTraverser option) option")

text \<open>The indices \<open>i, i+1, ...\<close> for which \<open>Paths\<close> is ok; \<open>None\<close> if there is no end.\<close>

partial_function (option) paths_from :: "(nat \<Rightarrow> 'b option) \<Rightarrow> nat \<Rightarrow> 'b list option" where
  "paths_from f i =
     (case f i of
        None \<Rightarrow> Some []
      | Some x \<Rightarrow> Option.bind (paths_from f (Suc i)) (\<lambda>xs. Some (x # xs)))"

definition determineIdx :: "uint64 \<Rightarrow> (nat \<Rightarrow> nat) \<Rightarrow> nat \<Rightarrow> bool \<Rightarrow> nat go" where
  "determineIdx hash rnd l isDeterministic =
     (if l = 0 then Inl DivideByZero
      else if isDeterministic then Inr (unat (hash mod of_nat l))
      else Inr (rnd l))"

text \<open>The callback of \<open>traversePublish\<close> for one shard: the subscriptions it invokes.\<close>

definition publish_shard ::
    "uint64 \<Rightarrow> (nat \<Rightarrow> nat) \<Rightarrow> string \<Rightarrow> bool \<Rightarrow> 'f SubscriptionEnvelope list \<Rightarrow> 'f SubscriptionEnvelope list go" where
  "publish_shard hash rnd shardID isDeterministic ss =
     (if shardID = [] then Inr ss
      else
        (case determineIdx hash rnd (length ss) isDeterministic of
           Inl e \<Rightarrow> Inl e
         | Inr idx \<Rightarrow> if idx < length ss then Inr [ss ! idx] else Inl IndexOutOfRange))"

text \<open>Run one after the other; a panic stops everything.\<close>

fun seq_calls :: "'a list go list \<Rightarrow> 'a list go" where
  "seq_calls [] = Inr []"
| "seq_calls (x # xs) =
     (case x of Inl e \<Rightarrow> Inl e | Inr ys \<Rightarrow> (case seq_calls xs of Inl e \<Rightarrow> Inl e | Inr zs \<Rightarrow> Inr (ys @ zs)))"

fun seq_opt :: "'a list go option list \<Rightarrow> 'a list go option" where
  "seq_opt [] = Some (Inr [])"
| "seq_opt (x # xs) =
     (case x of
        None \<Rightarrow> None
      | Some (Inl e) \<Rightarrow> Some (Inl e)
      | Some (Inr ys) \<Rightarrow>
          (case seq_opt xs of
             None \<Rightarrow> None | Some (Inl e) \<Rightarrow> Some (Inl e) | Some (Inr zs) \<Rightarrow> Some (Inr (ys @ zs))))"

lemma size_child [termination_simp]:
  "map_of cs k = Some c \<Longrightarrow> size c < Suc (size_list (size_prod (\<lambda>_. 0) size) cs)"
  by (induction cs) (auto split: if_splits)

lemma size_n_children [termination_simp]:
  "map_of (n_children n) k = Some c \<Longrightarrow> size c < size n"
  by (cases n) (auto dest: size_child)

text \<open>\<open>if nextA == nil { nextA = a }\<close>\<close>

definition next_traverser :: "'d TreeTraverser \<Rightarrow> 'd TreeTraverser option \<Rightarrow> 'd TreeTraverser" where
  "next_traverser a nextA = (case nextA of None \<Rightarrow> a | Some a' \<Rightarrow> a')"

function traversePublish ::
    "('d \<Rightarrow> uint64) \<Rightarrow> (uint64 list \<Rightarrow> string \<Rightarrow> nat \<Rightarrow> nat) \<Rightarrow> 'd \<Rightarrow> uint64 list \<Rightarrow> 'd TreeTraverser \<Rightarrow>
     'f Node \<Rightarrow> 'f SubscriptionEnvelope list go option" where
  "traversePublish hash rand d \<pi> a n =
     seq_opt
       [Some (seq_calls (Node_ForEachSubscription
          (\<lambda>shardID det ss. publish_shard (hash d) (rand \<pi> shardID) shardID det ss) n)),
        (case paths_from (traverse a d) 0 of
           None \<Rightarrow> None
         | Some ps \<Rightarrow>
             seq_opt (map (\<lambda>(p, nextA).
               (case map_of (n_children n) p of
                  None \<Rightarrow> Some (Inr [])
                | Some c \<Rightarrow>
                    traversePublish hash rand d (\<pi> @ [p]) (next_traverser a nextA) c)) ps))]"
  by pat_completeness auto
termination
  by (relation "measure (\<lambda>(_, _, _, _, _, n). size n)") (auto simp: size_n_children)

declare traversePublish.simps [simp del]

definition PubSub_Publish ::
    "('d \<Rightarrow> uint64) \<Rightarrow> (uint64 list \<Rightarrow> string \<Rightarrow> nat \<Rightarrow> nat) \<Rightarrow> 'd \<Rightarrow> 'd TreeTraverser \<Rightarrow> 'f Node \<Rightarrow>
     'f SubscriptionEnvelope list go option" where
  "PubSub_Publish hash rand d a n = traversePublish hash rand d [] a n"

section \<open>Reading the tree\<close>

fun node_at :: "uint64 list \<Rightarrow> 'f Node \<Rightarrow> 'f Node option" where
  "node_at [] n = Some n"
| "node_at (p # ps) n = (case map_of (n_children n) p of None \<Rightarrow> None | Some c \<Rightarrow> node_at ps c)"

definition shard_envs :: "string \<Rightarrow> 'f Node \<Rightarrow> 'f SubscriptionEnvelope list" where
  "shard_envs shardID n =
     (case map_of (n_subscriptions n) shardID of None \<Rightarrow> [] | Some si \<Rightarrow> si_envelopes si)"

text \<open>The subscriptions of a shard at a path: what the tree stands for.\<close>

definition envs_at :: "uint64 list \<Rightarrow> string \<Rightarrow> 'f Node \<Rightarrow> 'f SubscriptionEnvelope list" where
  "envs_at \<pi> shardID n = (case node_at \<pi> n of None \<Rightarrow> [] | Some m \<Rightarrow> shard_envs shardID m)"

text \<open>
  Well-formed nodes: keys are unique, each shard has subscriptions, sorted by name and counted, and
  \<open>shards\<close> maps exactly the identifiers in use to the shard that holds them. A well-formed tree has
  only well-formed nodes and no child without subscriptions below it.
\<close>

definition shard_ok :: "(uint64, string) gomap \<Rightarrow> string \<Rightarrow> 'f subscriptionInfo \<Rightarrow> bool" where
  "shard_ok shards shardID si \<longleftrightarrow>
     si_envelopes si \<noteq> [] \<and> sorted (map se_dName (si_envelopes si)) \<and>
     distinct (map se_id (si_envelopes si)) \<and>
     si_deterministicRoutingCount si = int (length (filter (\<lambda>e. se_dName e \<noteq> []) (si_envelopes si))) \<and>
     (\<forall>e \<in> set (si_envelopes si). map_of shards (se_id e) = Some shardID)"

definition node_ok :: "'f Node \<Rightarrow> bool" where
  "node_ok n \<longleftrightarrow>
     gomap_wf (n_children n) \<and> gomap_wf (n_subscriptions n) \<and> gomap_wf (n_shards n) \<and>
     (\<forall>shardID si. map_of (n_subscriptions n) shardID = Some si \<longrightarrow> shard_ok (n_shards n) shardID si) \<and>
     (\<forall>i shardID. map_of (n_shards n) i = Some shardID \<longrightarrow>
        (\<exists>e \<in> set (shard_envs shardID n). se_id e = i))"

definition is_empty_node :: "'f Node \<Rightarrow> bool" where
  "is_empty_node n \<longleftrightarrow> n_children n = [] \<and> n_shards n = []"

inductive tree_ok :: "'f Node \<Rightarrow> bool" where
  "node_ok n \<Longrightarrow> (\<And>p c. map_of (n_children n) p = Some c \<Longrightarrow> tree_ok c \<and> \<not> is_empty_node c) \<Longrightarrow> tree_ok n"

inductive_cases tree_okE: "tree_ok n"

section \<open>Fresh identifiers\<close>

lemma free_id_not_in: "free_id shards i = Some j \<Longrightarrow> map_of shards j = None"
proof (rule free_id.raw_induct [where P = "\<lambda>shards i j. map_of shards j = None"])
  fix f :: "(uint64, string) gomap \<Rightarrow> uint64 \<Rightarrow> uint64 option" and shards i j
  assume "\<And>shards i j. f shards i = Some j \<Longrightarrow> map_of shards j = None"
    and "(if map_of shards i \<noteq> None then f shards (i + 1) else Some i) = Some j"
  then show "map_of shards j = None" by (auto split: if_splits)
qed

lemma free_id_after:
  "\<forall>k < n. map_of shards (i + of_nat k) \<noteq> None \<Longrightarrow> map_of shards (i + of_nat n) = None \<Longrightarrow>
   free_id shards i = Some (i + of_nat n)"
proof (induction n arbitrary: i)
  case 0
  then show ?case by (subst free_id.simps) simp
next
  case (Suc n)
  have "\<forall>k < n. map_of shards ((i + 1) + of_nat k) \<noteq> None"
  proof (intro allI impI)
    fix k assume "k < n"
    then show "map_of shards ((i + 1) + of_nat k) \<noteq> None"
      using Suc.prems(1) [rule_format, of "Suc k"] by (simp add: add.assoc)
  qed
  then have "free_id shards (i + 1) = Some ((i + 1) + of_nat n)"
    using Suc.prems(2) by (intro Suc.IH) (simp_all add: add.assoc)
  moreover have "map_of shards i \<noteq> None" using Suc.prems(1) [rule_format, of 0] by simp
  ultimately show ?case by (subst free_id.simps) (simp add: add.assoc)
qed

lemma free_id_returns:
  assumes "length shards < 2 ^ 64"
  shows "\<exists>j. free_id shards i = Some j"
proof -
  have "\<exists>k \<le> length shards. map_of shards (i + of_nat k) = None"
  proof (rule ccontr)
    assume "\<not> ?thesis"
    then have "(\<lambda>k. i + of_nat k) ` {..length shards} \<subseteq> fst ` set shards"
      by (auto simp: map_of_eq_None_iff)
    moreover have "inj_on (\<lambda>k. i + of_nat k :: uint64) {..length shards}"
    proof (rule inj_onI)
      fix a b assume "a \<in> {..length shards}" "b \<in> {..length shards}" "i + of_nat a = i + of_nat b"
      then have "unat (of_nat a :: uint64) = unat (of_nat b :: uint64)" "a < 2 ^ 64" "b < 2 ^ 64"
        using assms by auto
      then show "a = b" by (simp add: unat_of_nat_64)
    qed
    ultimately have "card {..length shards} \<le> card (fst ` set shards)"
      by (metis List.finite_set card_image card_mono finite_imageI)
    also have "\<dots> \<le> length shards" by (metis card_length set_map length_map)
    finally show False by simp
  qed
  then have "\<exists>k. map_of shards (i + of_nat k) = None" by blast
  from this [unfolded exists_least_iff [of "\<lambda>k. map_of shards (i + of_nat k) = None"]]
  obtain k where "map_of shards (i + of_nat k) = None" "\<forall>m < k. map_of shards (i + of_nat m) \<noteq> None"
    by blast
  then show ?thesis using free_id_after by blast
qed

section \<open>One node\<close>

lemma Node_New_ok [simp]: "node_ok (Node_New :: 'f Node)" "tree_ok (Node_New :: 'f Node)"
proof -
  show "node_ok (Node_New :: 'f Node)" by (simp add: Node_New_def node_ok_def)
  then show "tree_ok (Node_New :: 'f Node)" by (rule tree_ok.intros) (simp add: Node_New_def)
qed

lemma node_ok_envs:
  assumes "node_ok n"
  shows "distinct (map se_id (shard_envs sh n))" "sorted (map se_dName (shard_envs sh n))"
    "e \<in> set (shard_envs sh n) \<Longrightarrow> map_of (n_shards n) (se_id e) = Some sh"
    "map_of (n_subscriptions n) sh = Some si \<Longrightarrow> si_envelopes si = shard_envs sh n \<and> shard_envs sh n \<noteq> []"
proof -
  have "map_of (n_subscriptions n) sh = None \<or>
      (\<exists>si. map_of (n_subscriptions n) sh = Some si \<and> shard_ok (n_shards n) sh si)"
    using assms unfolding node_ok_def by (metis option.exhaust)
  then show "distinct (map se_id (shard_envs sh n))" "sorted (map se_dName (shard_envs sh n))"
    "e \<in> set (shard_envs sh n) \<Longrightarrow> map_of (n_shards n) (se_id e) = Some sh"
    "map_of (n_subscriptions n) sh = Some si \<Longrightarrow> si_envelopes si = shard_envs sh n \<and> shard_envs sh n \<noteq> []"
    by (auto simp: shard_envs_def shard_ok_def)
qed

lemma node_okI:
  assumes "gomap_wf (n_children n)" "gomap_wf (n_subscriptions n)" "gomap_wf (n_shards n)"
    and "\<And>sh si. map_of (n_subscriptions n) sh = Some si \<Longrightarrow> shard_ok (n_shards n) sh si"
    and "\<And>i sh. map_of (n_shards n) i = Some sh \<Longrightarrow> \<exists>e \<in> set (shard_envs sh n). se_id e = i"
  shows "node_ok n"
  using assms by (simp add: node_ok_def)

lemma shard_envs_some:
  "e \<in> set (shard_envs sh n) \<Longrightarrow>
   \<exists>si. map_of (n_subscriptions n) sh = Some si \<and> si_envelopes si = shard_envs sh n"
  by (cases "map_of (n_subscriptions n) sh") (auto simp: shard_envs_def)

lemma add_sub_spec:
  assumes "Node_AddSubscription r s sh dn n = Some (i, n')"
  shows "n_children n' = n_children n" "map_of (n_shards n) i = None" "n_shards n' = gomap_set i sh (n_shards n)"
    "shard_envs sh n' = sort_key se_dName (shard_envs sh n @ [\<lparr>se_Subscription = s, se_id = i, se_dName = dn\<rparr>])"
    "sh' \<noteq> sh \<Longrightarrow> map_of (n_subscriptions n') sh' = map_of (n_subscriptions n) sh'"
  using assms free_id_not_in
  by (auto simp: Node_AddSubscription_def createAndSetID_def shard_envs_def Let_def update_conv'
      split: option.splits)

lemma add_sub_returns:
  "length (n_shards n) < 2 ^ 64 \<Longrightarrow> \<exists>i n'. Node_AddSubscription r s sh dn n = Some (i, n')"
  using free_id_returns [of "n_shards n" r]
  by (auto simp: Node_AddSubscription_def createAndSetID_def Let_def split: option.splits)

lemma add_sub_ok:
  assumes "Node_AddSubscription r s sh dn n = Some (i, n')" and "node_ok n"
  shows "node_ok n'"
proof -
  note spec = add_sub_spec [OF assms(1)]
  let ?e = "\<lparr>se_Subscription = s, se_id = i, se_dName = dn\<rparr>"
  from assms(2) have wf: "gomap_wf (n_children n)" "gomap_wf (n_subscriptions n)" "gomap_wf (n_shards n)"
    and ok: "\<And>sh si. map_of (n_subscriptions n) sh = Some si \<Longrightarrow> shard_ok (n_shards n) sh si"
    and used: "\<And>j sh. map_of (n_shards n) j = Some sh \<Longrightarrow> \<exists>e \<in> set (shard_envs sh n). se_id e = j"
    by (auto simp: node_ok_def)
  have keep: "map_of (n_shards n') j = Some sh'" if "map_of (n_shards n) j = Some sh'" for j sh'
    using that spec(2,3) by (auto simp: update_conv')
  have new: "map_of (n_shards n') i = Some sh" using spec(3) by (simp add: update_conv')
  have "shard_ok (n_shards n') sh' si" if si: "map_of (n_subscriptions n') sh' = Some si" for sh' si
  proof (cases "sh' = sh")
    case False
    with si spec(5) ok have "shard_ok (n_shards n) sh' si" by simp
    with keep show ?thesis by (auto simp: shard_ok_def)
  next
    case True
    then have envs: "si_envelopes si = sort_key se_dName (shard_envs sh n @ [?e])"
      using si spec(4) by (simp add: shard_envs_def)
    have count: "si_deterministicRoutingCount si =
        int (length (filter (\<lambda>e. se_dName e \<noteq> []) (shard_envs sh n))) + (if dn \<noteq> [] then 1 else 0)"
      using assms(1) si True ok [of sh]
      by (auto simp: Node_AddSubscription_def createAndSetID_def shard_envs_def Let_def update_conv'
          shard_ok_def split: option.splits if_splits)
    have old: "map_of (n_shards n) (se_id e) = Some sh" if "e \<in> set (shard_envs sh n)" for e
      using node_ok_envs(3) [OF assms(2) that] .
    have "distinct (map se_id (shard_envs sh n))" by (rule node_ok_envs(1) [OF assms(2)])
    with old spec(2) have "distinct (map se_id (shard_envs sh n @ [?e]))" by force
    then have "distinct (map se_id (si_envelopes si))"
      unfolding envs by (metis mset_eq_imp_distinct_iff mset_map mset_sort)
    moreover have "length (filter (\<lambda>e. se_dName e \<noteq> []) (si_envelopes si)) =
        length (filter (\<lambda>e. se_dName e \<noteq> []) (shard_envs sh n @ [?e]))"
      unfolding envs by (metis mset_filter mset_sort size_mset)
    moreover have "si_envelopes si \<noteq> []" unfolding envs
      by (metis append_is_Nil_conv length_0_conv length_sort list.discI)
    ultimately show ?thesis using True count keep old new
      by (auto simp: shard_ok_def envs)
  qed
  moreover have "\<exists>e \<in> set (shard_envs sh' n'). se_id e = j" if j: "map_of (n_shards n') j = Some sh'" for j sh'
  proof (cases "j = i")
    case True
    with j new have "sh' = sh" by simp
    with True spec(4) show ?thesis by auto
  next
    case False
    with j spec(3) have "map_of (n_shards n) j = Some sh'" by (simp add: update_conv')
    from used [OF this] show ?thesis
      using spec(4,5) by (cases "sh' = sh") (auto simp: shard_envs_def)
  qed
  moreover have "gomap_wf (n_subscriptions n')" "gomap_wf (n_shards n')" "gomap_wf (n_children n')"
    using assms(1) wf by (auto simp: Node_AddSubscription_def createAndSetID_def Let_def
        intro!: inv_intros split: option.splits)
  ultimately show ?thesis by (intro node_okI)
qed

text \<open>Deleting an identifier removes exactly the envelope that carries it.\<close>

lemma remove_envelope_at:
  "k \<le> length (si_envelopes s) \<Longrightarrow> rest = drop k (si_envelopes s) \<Longrightarrow> e \<in> set rest \<Longrightarrow> se_id e = i \<Longrightarrow>
   \<exists>m < length (si_envelopes s). se_id (si_envelopes s ! m) = i \<and>
     remove_envelope i s rest k =
       \<lparr>si_deterministicRoutingCount = (if se_dName (si_envelopes s ! m) \<noteq> []
          then si_deterministicRoutingCount s - 1 else si_deterministicRoutingCount s),
        si_envelopes = remove_nth m (si_envelopes s)\<rparr>"
proof (induction i s rest k rule: remove_envelope.induct)
  case (2 i s ss rest k)
  from 2(3) have k: "k < length (si_envelopes s)" using 2(2) by (metis drop_all list.discI linorder_not_less)
  then have ss: "ss = si_envelopes s ! k" "rest = drop (Suc k) (si_envelopes s)"
    using 2(3) by (metis Cons_nth_drop_Suc list.inject)+
  show ?case
  proof (cases "se_id ss = i")
    case True
    with k ss show ?thesis by (intro exI [of _ k]) simp
  next
    case False
    have "remove_envelope i s (ss # rest) k = remove_envelope i s rest (Suc k)" using False by simp
    moreover have "e \<in> set rest" using 2(4,5) False by auto
    ultimately show ?thesis using 2(1) [OF False] k ss(2) 2(5) by simp
  qed
qed simp

lemma remove_envelope_eq:
  assumes "e \<in> set (si_envelopes s)" and "distinct (map se_id (si_envelopes s))"
    and "si_deterministicRoutingCount s = int (length (filter (\<lambda>e. se_dName e \<noteq> []) (si_envelopes s)))"
  shows "si_envelopes (remove_envelope (se_id e) s (si_envelopes s) 0) = remove1 e (si_envelopes s)"
    "si_deterministicRoutingCount (remove_envelope (se_id e) s (si_envelopes s) 0) =
       int (length (filter (\<lambda>e. se_dName e \<noteq> []) (remove1 e (si_envelopes s))))"
proof -
  obtain m where m: "m < length (si_envelopes s)" "se_id (si_envelopes s ! m) = se_id e"
    and r: "remove_envelope (se_id e) s (si_envelopes s) 0 =
       \<lparr>si_deterministicRoutingCount = (if se_dName (si_envelopes s ! m) \<noteq> []
          then si_deterministicRoutingCount s - 1 else si_deterministicRoutingCount s),
        si_envelopes = remove_nth m (si_envelopes s)\<rparr>"
    using remove_envelope_at [of 0 s "si_envelopes s" e "se_id e"] assms(1) by auto
  have e: "si_envelopes s ! m = e"
    using m assms(1,2) by (metis in_set_conv_nth length_map nth_eq_iff_index_eq nth_map)
  have split: "si_envelopes s = take m (si_envelopes s) @ e # drop (Suc m) (si_envelopes s)"
    using id_take_nth_drop [OF m(1)] e by simp
  have "distinct (si_envelopes s)" using assms(2) by (simp add: distinct_map)
  then have "e \<notin> set (take m (si_envelopes s))" by (subst (asm) split) simp
  then have rem: "remove_nth m (si_envelopes s) = remove1 e (si_envelopes s)"
    by (subst (2) split) (simp add: remove1_append remove_nth_def)
  have "filter (\<lambda>e. se_dName e \<noteq> []) (si_envelopes s) =
      filter (\<lambda>e. se_dName e \<noteq> []) (take m (si_envelopes s)) @ (if se_dName e \<noteq> [] then [e] else []) @
      filter (\<lambda>e. se_dName e \<noteq> []) (drop (Suc m) (si_envelopes s))"
    by (subst split) simp
  then show "si_envelopes (remove_envelope (se_id e) s (si_envelopes s) 0) = remove1 e (si_envelopes s)"
    "si_deterministicRoutingCount (remove_envelope (se_id e) s (si_envelopes s) 0) =
       int (length (filter (\<lambda>e. se_dName e \<noteq> []) (remove1 e (si_envelopes s))))"
    using assms(3) by (simp_all add: r rem [symmetric] e remove_nth_def)
qed

lemma del_sub_spec:
  assumes "node_ok n" and "e \<in> set (shard_envs sh n)"
  shows "n_children (Node_DeleteSubscription (se_id e) n) = n_children n"
    "n_shards (Node_DeleteSubscription (se_id e) n) = gomap_delete (se_id e) (n_shards n)"
    "shard_envs sh (Node_DeleteSubscription (se_id e) n) = remove1 e (shard_envs sh n)"
    "sh' \<noteq> sh \<Longrightarrow>
       map_of (n_subscriptions (Node_DeleteSubscription (se_id e) n)) sh' = map_of (n_subscriptions n) sh'"
proof -
  obtain si where si: "map_of (n_subscriptions n) sh = Some si" "si_envelopes si = shard_envs sh n"
    using shard_envs_some [OF assms(2)] by blast
  have ok: "shard_ok (n_shards n) sh si" using assms(1) si(1) by (simp add: node_ok_def)
  let ?s = "remove_envelope (se_id e) si (si_envelopes si) 0"
  have rem: "si_envelopes ?s = remove1 e (si_envelopes si)"
    using remove_envelope_eq(1) [of e si] assms(2) ok si(2) by (simp add: shard_ok_def)
  have eq: "Node_DeleteSubscription (se_id e) n = Node (n_children n)
      (if si_envelopes ?s = [] then gomap_delete sh (gomap_set sh ?s (n_subscriptions n))
       else gomap_set sh ?s (n_subscriptions n)) (gomap_delete (se_id e) (n_shards n))"
    by (simp add: Node_DeleteSubscription_def node_ok_envs(3) [OF assms] si(1) Let_def)
  show "n_children (Node_DeleteSubscription (se_id e) n) = n_children n"
    "n_shards (Node_DeleteSubscription (se_id e) n) = gomap_delete (se_id e) (n_shards n)"
    "sh' \<noteq> sh \<Longrightarrow>
       map_of (n_subscriptions (Node_DeleteSubscription (se_id e) n)) sh' = map_of (n_subscriptions n) sh'"
    unfolding eq by (simp_all add: update_conv' delete_conv')
  show "shard_envs sh (Node_DeleteSubscription (se_id e) n) = remove1 e (shard_envs sh n)"
    unfolding eq si(2) [symmetric] rem [symmetric] by (simp add: shard_envs_def update_conv' delete_conv')
qed

lemma del_sub_ok:
  assumes "node_ok n" and "e \<in> set (shard_envs sh n)"
  shows "node_ok (Node_DeleteSubscription (se_id e) n)" (is "node_ok ?n")
proof (rule node_okI)
  note spec = del_sub_spec [OF assms]
  obtain si where si: "map_of (n_subscriptions n) sh = Some si" "si_envelopes si = shard_envs sh n"
    using shard_envs_some [OF assms(2)] by blast
  have ok: "shard_ok (n_shards n) sh si" using assms(1) si(1) by (simp add: node_ok_def)
  note sid = node_ok_envs(3) [OF assms]
  have wf: "gomap_wf (n_children n)" "gomap_wf (n_subscriptions n)" "gomap_wf (n_shards n)"
    using assms(1) by (simp_all add: node_ok_def)
  then show "gomap_wf (n_children ?n)" "gomap_wf (n_shards ?n)" "gomap_wf (n_subscriptions ?n)"
    unfolding spec by (auto simp: Node_DeleteSubscription_def sid Let_def intro!: inv_intros split: option.splits)
  have other: "se_id e' \<noteq> se_id e" if "e' \<in> set (remove1 e (shard_envs sh n))" for e'
    using that assms(2) node_ok_envs(1) [OF assms(1), of sh]
    by (auto simp: distinct_map inj_on_def)
  show "shard_ok (n_shards ?n) sh' si'" if si': "map_of (n_subscriptions ?n) sh' = Some si'" for sh' si'
  proof (cases "sh' = sh")
    case False
    then have "shard_ok (n_shards n) sh' si'" using spec(4) si' assms(1) by (simp add: node_ok_def)
    moreover have "se_id e' \<noteq> se_id e" if "e' \<in> set (si_envelopes si')" for e'
      using calculation that sid False by (auto simp: shard_ok_def)
    ultimately show ?thesis by (auto simp: shard_ok_def spec(2) delete_conv')
  next
    case True
    have "si' = remove_envelope (se_id e) si (si_envelopes si) 0 \<and> si_envelopes si' \<noteq> []"
      using si' True by (auto simp: Node_DeleteSubscription_def sid si Let_def update_conv' delete_conv'
          split: if_splits)
    with ok si remove_envelope_eq [of e si] assms(2)
    have si'_eq: "si_envelopes si' = remove1 e (shard_envs sh n)" "si_envelopes si' \<noteq> []"
      "si_deterministicRoutingCount si' = int (length (filter (\<lambda>e. se_dName e \<noteq> []) (si_envelopes si')))"
      by (auto simp: shard_ok_def)
    moreover have "sorted (map se_dName (remove1 e (shard_envs sh n)))"
      using node_ok_envs(2) [OF assms(1)] by (simp add: sorted_map_remove1)
    moreover have "distinct (map se_id (remove1 e (shard_envs sh n)))"
      using node_ok_envs(1) [OF assms(1), of sh] by (auto simp: distinct_map intro: inj_on_subset)
    moreover have "map_of (n_shards ?n) (se_id e') = Some sh" if "e' \<in> set (si_envelopes si')" for e'
    proof -
      have e': "e' \<in> set (remove1 e (shard_envs sh n))" using that si'_eq(1) by simp
      then have "e' \<in> set (shard_envs sh n)" by (meson notin_set_remove1)
      with other [OF e'] show ?thesis
        using node_ok_envs(3) [OF assms(1)] by (simp add: spec(2) delete_conv')
    qed
    ultimately show ?thesis using True by (simp add: shard_ok_def)
  qed
  show "\<exists>e' \<in> set (shard_envs sh' ?n). se_id e' = j" if j: "map_of (n_shards ?n) j = Some sh'" for j sh'
  proof -
    from j have j': "j \<noteq> se_id e" "map_of (n_shards n) j = Some sh'"
      by (auto simp: spec(2) delete_conv' split: if_splits)
    then obtain e' where e': "e' \<in> set (shard_envs sh' n)" "se_id e' = j"
      using assms(1) unfolding node_ok_def by blast
    show ?thesis
    proof (cases "sh' = sh")
      case True
      with e' j'(1) spec(3) show ?thesis by (metis in_set_remove1)
    next
      case False
      with e' spec(4) show ?thesis by (auto simp: shard_envs_def)
    qed
  qed
qed

section \<open>The tree\<close>

lemma tree_ok_node: "tree_ok n \<Longrightarrow> node_ok n"
  by (erule tree_okE)

lemma tree_ok_child: "tree_ok n \<Longrightarrow> map_of (n_children n) p = Some c \<Longrightarrow> tree_ok c \<and> \<not> is_empty_node c"
  by (erule tree_okE) blast

lemma envs_at_Nil [simp]: "envs_at [] sh n = shard_envs sh n"
  by (simp add: envs_at_def)

lemma envs_at_Cons:
  "envs_at (p # ps) sh n = (case map_of (n_children n) p of None \<Rightarrow> [] | Some c \<Rightarrow> envs_at ps sh c)"
  by (auto simp: envs_at_def split: option.splits)

lemma envs_at_New [simp]: "envs_at ps sh Node_New = []"
  by (cases ps) (auto simp: envs_at_Cons Node_New_def shard_envs_def)

lemma empty_node_envs:
  assumes "is_empty_node n" and "node_ok n"
  shows "envs_at ps sh n = []"
proof -
  have "shard_envs sh n = []"
  proof (rule ccontr)
    assume "shard_envs sh n \<noteq> []"
    then obtain e where "e \<in> set (shard_envs sh n)" by (meson last_in_set)
    from node_ok_envs(3) [OF assms(2) this] assms(1) show False by (simp add: is_empty_node_def)
  qed
  with assms(1) show ?thesis by (cases ps) (auto simp: envs_at_Cons is_empty_node_def)
qed

text \<open>Replacing, and removing, one child.\<close>

lemma setChild_sel [simp]:
  "n_shards (Node_setChild p c n) = n_shards n" "n_subscriptions (Node_setChild p c n) = n_subscriptions n"
  "map_of (n_children (Node_setChild p c n)) = (map_of (n_children n))(p \<mapsto> c)"
  by (simp_all add: Node_setChild_def update_conv')

lemma deleteChild_sel [simp]:
  "n_shards (Node_DeleteChild p n) = n_shards n" "n_subscriptions (Node_DeleteChild p n) = n_subscriptions n"
  "map_of (n_children (Node_DeleteChild p n)) = (map_of (n_children n))(p := None)"
  by (simp_all add: Node_DeleteChild_def delete_conv')

lemma node_ok_children:
  "node_ok n \<Longrightarrow> n_subscriptions n' = n_subscriptions n \<Longrightarrow> n_shards n' = n_shards n \<Longrightarrow>
   gomap_wf (n_children n') \<Longrightarrow> node_ok n'"
  by (simp add: node_ok_def shard_envs_def)

lemma tree_ok_setChild:
  assumes "tree_ok n" and "tree_ok c" and "\<not> is_empty_node c"
  shows "tree_ok (Node_setChild p c n)"
proof (rule tree_ok.intros)
  have "node_ok n" using assms(1) by (rule tree_ok_node)
  moreover from this have "gomap_wf (n_children (Node_setChild p c n))"
    by (simp add: Node_setChild_def node_ok_def gomap_wf_set)
  ultimately show "node_ok (Node_setChild p c n)" by (simp add: node_ok_children)
  show "tree_ok c' \<and> \<not> is_empty_node c'" if "map_of (n_children (Node_setChild p c n)) q = Some c'" for q c'
    using that assms tree_ok_child [OF assms(1)] by (auto split: if_splits)
qed

lemma tree_ok_deleteChild:
  assumes "tree_ok n"
  shows "tree_ok (Node_DeleteChild p n)"
proof (rule tree_ok.intros)
  have "node_ok n" using assms(1) by (rule tree_ok_node)
  moreover from this have "gomap_wf (n_children (Node_DeleteChild p n))"
    by (simp add: Node_DeleteChild_def node_ok_def gomap_wf_delete)
  ultimately show "node_ok (Node_DeleteChild p n)" by (simp add: node_ok_children)
  show "tree_ok c' \<and> \<not> is_empty_node c'" if "map_of (n_children (Node_DeleteChild p n)) q = Some c'" for q c'
    using that assms tree_ok_child [OF assms(1)] by (auto split: if_splits)
qed

lemma tree_ok_same_children:
  assumes "tree_ok n" "node_ok n'" "n_children n' = n_children n"
  shows "tree_ok n'"
  using assms tree_ok_child [OF assms(1)] by (intro tree_ok.intros) auto

lemma setChild_not_empty [simp]: "\<not> is_empty_node (Node_setChild p c n)"
proof -
  have "map_of (n_children (Node_setChild p c n)) p \<noteq> map_of [] p" by simp
  then show ?thesis by (metis is_empty_node_def)
qed

text \<open>Subscribing adds the subscription at its path and shard, and nothing else changes.\<close>

lemma addChild_setChild:
  assumes "Node_AddChild p n = (c, n1)"
  shows "Node_setChild p c' n1 = Node_setChild p c' n"
    "map_of (n_children n) p = Some c \<or> map_of (n_children n) p = None \<and> c = Node_New"
  using assms by (auto simp: Node_AddChild_def Node_setChild_def Let_def split: option.splits)

lemma subscribe_spec:
  assumes "PubSub_Subscribe r s sh dn ps n = Some (i, n')" and "tree_ok n"
  shows "tree_ok n' \<and> \<not> is_empty_node n' \<and> i \<notin> se_id ` set (envs_at ps sh n) \<and>
    (\<forall>ps' sh'. envs_at ps' sh' n' =
       (if ps' = ps \<and> sh' = sh
        then sort_key se_dName (envs_at ps sh n @ [\<lparr>se_Subscription = s, se_id = i, se_dName = dn\<rparr>])
        else envs_at ps' sh' n))"
  using assms
proof (induction ps arbitrary: n n')
  case Nil
  note add = add_sub_spec [OF Nil.prems(1) [simplified]]
  have ok: "node_ok n" using Nil.prems(2) by (rule tree_ok_node)
  have "tree_ok n'"
    using Nil.prems add(1) add_sub_ok [OF _ ok] by (auto intro: tree_ok_same_children)
  moreover have "map_of (n_shards n') i \<noteq> map_of [] i" using add(3) by (simp add: update_conv')
  then have "n_shards n' \<noteq> []" by metis
  moreover have "i \<notin> se_id ` set (shard_envs sh n)" using add(2) node_ok_envs(3) [OF ok] by fastforce
  moreover have "envs_at ps' sh' n' = envs_at ps' sh' n" if "ps' \<noteq> [] \<or> sh' \<noteq> sh" for ps' sh'
    using that add(1,5) by (cases ps') (auto simp: envs_at_Cons shard_envs_def)
  ultimately show ?case using add(4) by (auto simp: is_empty_node_def)
next
  case (Cons p ps)
  obtain c n1 where c: "Node_AddChild p n = (c, n1)" by fastforce
  then obtain c' where c': "PubSub_Subscribe r s sh dn ps c = Some (i, c')" "n' = Node_setChild p c' n"
    using Cons.prems(1) addChild_setChild [OF c] by (auto split: option.splits)
  have "tree_ok c" using addChild_setChild(2) [OF c] tree_ok_child [OF Cons.prems(2)] by auto
  note IH = Cons.IH [OF c'(1) this]
  have at: "envs_at (p # ps') sh' n = envs_at ps' sh' c" for ps' sh'
    using addChild_setChild(2) [OF c] by (auto simp: envs_at_Cons)
  have "envs_at ps' sh' n' = envs_at ps' sh' n" if "\<forall>qs. ps' \<noteq> p # qs" for ps' sh'
    using that by (cases ps') (auto simp: envs_at_Cons c'(2) shard_envs_def)
  moreover have "envs_at (p # ps') sh' n' = envs_at ps' sh' c'" for ps' sh'
    by (simp add: envs_at_Cons c'(2))
  ultimately have "envs_at ps' sh' n' =
       (if ps' = p # ps \<and> sh' = sh
        then sort_key se_dName (envs_at (p # ps) sh n @ [\<lparr>se_Subscription = s, se_id = i, se_dName = dn\<rparr>])
        else envs_at ps' sh' n)" for ps' sh'
    using IH at by (cases "\<exists>qs. ps' = p # qs") auto
  with IH Cons.prems(2) c'(2) at show ?case by (auto intro: tree_ok_setChild)
qed

lemma subscribe_returns:
  "(\<And>m. node_at ps n = Some m \<Longrightarrow> length (n_shards m) < 2 ^ 64) \<Longrightarrow>
   \<exists>i n'. PubSub_Subscribe r s sh dn ps n = Some (i, n')"
proof (induction ps arbitrary: n)
  case Nil
  then show ?case using add_sub_returns by force
next
  case (Cons p ps)
  obtain c n1 where c: "Node_AddChild p n = (c, n1)" by fastforce
  have "length (n_shards m) < 2 ^ 64" if "node_at ps c = Some m" for m
    using addChild_setChild(2) [OF c]
  proof
    assume "map_of (n_children n) p = Some c"
    with that Cons.prems [of m] show ?thesis by simp
  next
    assume "map_of (n_children n) p = None \<and> c = Node_New"
    with that have "m = Node_New" by (cases ps) (auto simp: Node_New_def)
    then show ?thesis by (simp add: Node_New_def)
  qed
  then obtain i c' where "PubSub_Subscribe r s sh dn ps c = Some (i, c')" using Cons.IH by blast
  with c show ?case by simp
qed

text \<open>Unsubscribing removes exactly that subscription, and empty nodes do not stay behind.\<close>

lemma cleanup_spec:
  assumes "tree_ok n" and "e \<in> set (envs_at ps sh n)"
  shows "\<exists>n'. cleanupSubscriptionTree (Some n) (se_id e) ps = Inr (Some n') \<and> tree_ok n' \<and>
    (\<forall>ps' sh'. envs_at ps' sh' n' =
       (if ps' = ps \<and> sh' = sh then remove1 e (envs_at ps sh n) else envs_at ps' sh' n))"
  using assms
proof (induction ps arbitrary: n)
  case Nil
  note ok = tree_ok_node [OF Nil.prems(1)]
  have e: "e \<in> set (shard_envs sh n)" using Nil.prems(2) by simp
  note del = del_sub_spec [OF ok e]
  let ?n = "Node_DeleteSubscription (se_id e) n"
  have "tree_ok ?n" using Nil.prems(1) del_sub_ok [OF ok e] del(1) by (rule tree_ok_same_children)
  moreover have "envs_at ps' sh' ?n = envs_at ps' sh' n" if "ps' \<noteq> [] \<or> sh' \<noteq> sh" for ps' sh'
    using that del(1,4) by (cases ps') (auto simp: envs_at_Cons shard_envs_def)
  ultimately show ?case using del(3) by auto
next
  case (Cons p ps)
  obtain c where c: "map_of (n_children n) p = Some c" and e: "e \<in> set (envs_at ps sh c)"
    using Cons.prems(2) by (cases "map_of (n_children n) p") (auto simp: envs_at_Cons)
  from tree_ok_child [OF Cons.prems(1) c] Cons.IH [OF _ e] obtain c' where
    c': "cleanupSubscriptionTree (Some c) (se_id e) ps = Inr (Some c')" "tree_ok c'"
      "\<And>ps' sh'. envs_at ps' sh' c' =
         (if ps' = ps \<and> sh' = sh then remove1 e (envs_at ps sh c) else envs_at ps' sh' c)" by blast
  define n' where "n' = (if is_empty_node c' then Node_DeleteChild p n else Node_setChild p c' n)"
  have run: "cleanupSubscriptionTree (Some n) (se_id e) (p # ps) = Inr (Some n')"
    using c c'(1) by (simp add: n'_def Node_FetchChild_def Node_ChildLen_def Node_SubscriptionLen_def is_empty_node_def)
  have ok: "tree_ok n'" using Cons.prems(1) c'(2) by (simp add: n'_def tree_ok_deleteChild tree_ok_setChild)
  have other: "envs_at ps' sh' n' = envs_at ps' sh' n" if "\<forall>qs. ps' \<noteq> p # qs" for ps' sh'
    using that by (cases ps') (auto simp: n'_def envs_at_Cons shard_envs_def)
  have below: "envs_at (p # ps') sh' n' = envs_at ps' sh' c'" for ps' sh'
    using empty_node_envs [OF _ tree_ok_node [OF c'(2)]] by (simp add: n'_def envs_at_Cons)
  have "envs_at ps' sh' n' =
       (if ps' = p # ps \<and> sh' = sh then remove1 e (envs_at (p # ps) sh n) else envs_at ps' sh' n)" for ps' sh'
  proof (cases "\<exists>qs. ps' = p # qs")
    case True
    then obtain qs where qs: "ps' = p # qs" by blast
    show ?thesis unfolding qs below c'(3) by (simp add: envs_at_Cons c)
  next
    case False
    then show ?thesis using other by auto
  qed
  with run ok show ?case by blast
qed

lemma tree_ok_node_at: "tree_ok n \<Longrightarrow> node_at \<pi> n = Some m \<Longrightarrow> tree_ok m"
  by (induction \<pi> arbitrary: n) (auto split: option.splits dest: tree_ok_child)

lemma envs_at_sorted: "tree_ok n \<Longrightarrow> sorted (map se_dName (envs_at \<pi> sh n))"
  by (cases "node_at \<pi> n")
    (auto simp: envs_at_def intro: node_ok_envs(2) tree_ok_node tree_ok_node_at)

lemma envs_at_distinct: "tree_ok n \<Longrightarrow> distinct (map se_id (envs_at \<pi> sh n))"
  by (cases "node_at \<pi> n")
    (auto simp: envs_at_def intro: node_ok_envs(1) tree_ok_node tree_ok_node_at)

lemma remove1_sort_append:
  assumes "sorted (map f xs)" and "e \<notin> set xs" and "distinct xs"
  shows "remove1 e (sort_key f (xs @ [e])) = xs"
proof -
  have "remove1 e (sort_key f (xs @ [e])) = removeAll e (sort_key f (xs @ [e]))"
    using assms(2,3) by (intro distinct_remove1_removeAll) simp
  also have "\<dots> = sort_key f (removeAll e xs)" by (simp add: removeAll_filter_not_eq filter_sort)
  also have "removeAll e xs = xs" using assms(2) by simp
  finally show ?thesis using assms(1) by (simp add: sort_key_id_if_sorted)
qed

lemma cleanup_total:
  fixes n :: "'f Node option"
  shows "if \<pi> \<noteq> [] \<and> Option.bind n (node_at \<pi>) = None then cleanupSubscriptionTree n i \<pi> = Inl NilDereference
   else \<exists>m. cleanupSubscriptionTree n i \<pi> = Inr m \<and> (m = None \<longleftrightarrow> n = None)"
proof (induction \<pi> arbitrary: n)
  case (Cons p ps)
  have node: "Option.bind n (node_at (p # ps)) = Option.bind (Node_FetchChild p n) (node_at ps)"
    for p ps and n :: "'f Node option"
    by (cases n) (auto simp: Node_FetchChild_def split: option.splits)
  show ?case
  proof (cases "Node_FetchChild p n")
    case None
    with Cons.IH [of None] show ?thesis
      by (auto simp: node Node_ChildLen_def simp del: node_at.simps(2) split: sum.splits if_splits)
  next
    case (Some c)
    then have "n \<noteq> None" by (auto simp: Node_FetchChild_def split: option.splits)
    with Some Cons.IH [of "Some c"] show ?thesis
      by (auto simp: node Node_ChildLen_def Node_SubscriptionLen_def simp del: node_at.simps(2)
          split: sum.splits if_splits)
  qed
qed auto

section \<open>Publishing\<close>

lemma seq_calls_append:
  "seq_calls (xs @ ys) =
     (case seq_calls xs of Inl e \<Rightarrow> Inl e | Inr zs \<Rightarrow>
        (case seq_calls ys of Inl e \<Rightarrow> Inl e | Inr ws \<Rightarrow> Inr (zs @ ws)))"
  by (induction xs) (auto split: sum.splits)

lemma seq_calls_concat: "seq_calls (concat xss) = seq_calls (map seq_calls xss)"
  by (induction xss) (auto simp: seq_calls_append split: sum.splits)

lemma seq_calls_single [simp]: "seq_calls [x] = x"
  by (auto split: sum.splits)

lemma seq_opt_Some: "seq_opt (map (\<lambda>x. Some (f x)) xs) = Some (seq_calls (map f xs))"
  by (induction xs) (auto split: sum.splits)

lemma seq_calls_Inr: "seq_calls (map (\<lambda>x. Inr (f x)) xs) = Inr (concat (map f xs))"
  by (induction xs) auto

text \<open>
  \<open>enumerates d a \<pi>s\<close>: the traverser \<open>a\<close> leads the data \<open>d\<close> to the paths \<open>\<pi>s\<close>, in this order, counting
  repetitions. This does not look at any subscription tree.
\<close>

inductive enumerates :: "'d \<Rightarrow> 'd TreeTraverser \<Rightarrow> uint64 list list \<Rightarrow> bool" where
  "paths_from (traverse a d) 0 = Some ps \<Longrightarrow>
   list_all2 (\<lambda>x \<pi>s. enumerates d (next_traverser a (snd x)) \<pi>s) ps \<pi>ss \<Longrightarrow>
   enumerates d a ([] # concat (map2 (\<lambda>x \<pi>s. map ((#) (fst x)) \<pi>s) ps \<pi>ss))"

text \<open>What one node delivers, and the same at a path that may not exist.\<close>

definition deliver ::
    "uint64 \<Rightarrow> (uint64 list \<Rightarrow> string \<Rightarrow> nat \<Rightarrow> nat) \<Rightarrow> uint64 list \<Rightarrow> 'f Node option \<Rightarrow>
     'f SubscriptionEnvelope list go" where
  "deliver h rand \<pi> n =
     (case n of None \<Rightarrow> Inr []
      | Some n \<Rightarrow> seq_calls (Node_ForEachSubscription (\<lambda>sh det ss. publish_shard h (rand \<pi> sh) sh det ss) n))"

lemma traverse_enumerates:
  fixes n :: "'f Node"
  shows "enumerates d a \<pi>s \<Longrightarrow>
   traversePublish hash rand d \<rho> a n =
     Some (seq_calls (map (\<lambda>\<pi>. deliver (hash d) rand (\<rho> @ \<pi>) (node_at \<pi> n)) \<pi>s))"
proof (induction arbitrary: \<rho> n rule: enumerates.induct)
  case (1 a d ps \<pi>ss)
  let ?del = "\<lambda>\<rho> n \<pi>. deliver (hash d) rand (\<rho> @ \<pi>) (node_at \<pi> n)"
  let ?sub = "\<lambda>(p, nextA). (case map_of (n_children n) p of None \<Rightarrow> Some (Inr [])
       | Some c \<Rightarrow> traversePublish hash rand d (\<rho> @ [p]) (next_traverser a nextA) c)"
  have step: "?sub (p, nextA) = Some (seq_calls (map (?del \<rho> n) (map ((#) p) \<pi>s)))"
    if IH: "\<And>\<rho> (n :: 'f Node). traversePublish hash rand d \<rho> (next_traverser a nextA) n =
        Some (seq_calls (map (?del \<rho> n) \<pi>s))" for p nextA \<pi>s
  proof (cases "map_of (n_children n) p")
    case None
    then have "seq_calls (map (?del \<rho> n) (map ((#) p) \<pi>s)) = Inr []"
      by (induction \<pi>s) (auto simp: deliver_def)
    with None show ?thesis by simp
  next
    case (Some c)
    have "map (?del \<rho> n) (map ((#) p) \<pi>s) = map (?del (\<rho> @ [p]) c) \<pi>s" using Some by simp
    with Some IH [of "\<rho> @ [p]" c] show ?thesis by (simp add: comp_def)
  qed
  have "map ?sub ps = map2 (\<lambda>x \<pi>s. Some (seq_calls (map (?del \<rho> n) (map ((#) (fst x)) \<pi>s)))) ps \<pi>ss"
    using 1(2)
  proof (induction rule: list_all2_induct)
    case (Cons x xs \<pi>s \<pi>ss)
    obtain p nextA where x: "x = (p, nextA)" by fastforce
    have "?sub (p, nextA) = Some (seq_calls (map (?del \<rho> n) (map ((#) p) \<pi>s)))"
      by (rule step) (use Cons(1) x in simp)
    with Cons x show ?case by simp
  qed simp
  also have "\<dots> = map (\<lambda>y. Some (seq_calls y)) (map (map (?del \<rho> n)) (map2 (\<lambda>x \<pi>s. map ((#) (fst x)) \<pi>s) ps \<pi>ss))"
    by auto
  finally have "seq_opt (map ?sub ps) =
      Some (seq_calls (map (?del \<rho> n) (concat (map2 (\<lambda>x \<pi>s. map ((#) (fst x)) \<pi>s) ps \<pi>ss))))"
    by (simp only: seq_opt_Some map_concat seq_calls_concat)
  moreover have "?del \<rho> n [] = seq_calls (Node_ForEachSubscription
      (\<lambda>sh det ss. publish_shard (hash d) (rand \<rho> sh) sh det ss) n)"
    by (simp add: deliver_def)
  ultimately show ?case
    by (subst traversePublish.simps) (simp add: 1(1) split: sum.splits)
qed

text \<open>
  The choice made for each shard: everything in the empty shard, one subscription in every other one,
  by the hash of the data when a subscription of the shard asks for deterministic routing and by the
  random number otherwise.
\<close>

definition pick :: "uint64 \<Rightarrow> (nat \<Rightarrow> nat) \<Rightarrow> string \<Rightarrow> 'f SubscriptionEnvelope list \<Rightarrow> 'f SubscriptionEnvelope list" where
  "pick h rnd sh ss =
     (if sh = [] then ss
      else [ss ! (if \<exists>e \<in> set ss. se_dName e \<noteq> [] then unat h mod length ss else rnd (length ss))])"

lemma publish_shard_pick:
  assumes "shard_ok shards sh si" and "\<And>l. 0 < l \<Longrightarrow> rnd l < l" and "length (si_envelopes si) < 2 ^ 64"
  shows "publish_shard h rnd sh (si_deterministicRoutingCount si > 0) (si_envelopes si) =
    Inr (pick h rnd sh (si_envelopes si))"
proof -
  let ?ss = "si_envelopes si"
  have len: "0 < length ?ss" using assms(1) by (simp add: shard_ok_def)
  have "(si_deterministicRoutingCount si > 0) = (\<exists>e \<in> set ?ss. se_dName e \<noteq> [])"
    using assms(1) by (auto simp: shard_ok_def filter_empty_conv)
  moreover have "unat (h mod of_nat (length ?ss)) = unat h mod length ?ss"
    using assms(3) by (simp add: unat_mod_distrib unat_of_nat_64)
  ultimately show ?thesis
    using len assms(2) [OF len] by (auto simp: publish_shard_def determineIdx_def pick_def)
qed

text \<open>What a path delivers: the choices of all its shards with subscriptions.\<close>

definition picks ::
    "uint64 \<Rightarrow> (uint64 list \<Rightarrow> string \<Rightarrow> nat \<Rightarrow> nat) \<Rightarrow> 'f Node \<Rightarrow> uint64 list \<Rightarrow> 'f SubscriptionEnvelope multiset" where
  "picks h rand n \<pi> =
     (\<Sum>sh \<in> {sh. envs_at \<pi> sh n \<noteq> []}. mset (pick h (rand \<pi> sh) sh (envs_at \<pi> sh n)))"

text \<open>No shard has $2^{64}$ subscriptions: an index into a shard fits 64 bits.\<close>

definition small_tree :: "'f Node \<Rightarrow> bool" where
  "small_tree n = (\<forall>\<pi> sh. length (envs_at \<pi> sh n) < 2 ^ 64)"

lemma deliver_node:
  assumes "node_ok n" and "\<And>\<pi> sh l. 0 < l \<Longrightarrow> rand \<pi> sh l < l" and "\<And>sh. length (shard_envs sh n) < 2 ^ 64"
  shows "\<exists>ys. deliver h rand \<pi> (Some n) = Inr ys \<and>
    mset ys = (\<Sum>sh \<in> {sh. shard_envs sh n \<noteq> []}. mset (pick h (rand \<pi> sh) sh (shard_envs sh n)))"
proof -
  let ?f = "\<lambda>sh. pick h (rand \<pi> sh) sh (shard_envs sh n)"
  have wf: "gomap_wf (n_subscriptions n)" using assms(1) by (simp add: node_ok_def)
  have "publish_shard h (rand \<pi> sh) sh (si_deterministicRoutingCount si > 0) (si_envelopes si) = Inr (?f sh)"
    if "(sh, si) \<in> set (n_subscriptions n)" for sh si
  proof -
    have si: "map_of (n_subscriptions n) sh = Some si" using wf that by (rule gomap_wf_map_of)
    then have "si_envelopes si = shard_envs sh n" "shard_ok (n_shards n) sh si"
      using assms(1) by (auto simp: shard_envs_def node_ok_def)
    with assms(2,3) publish_shard_pick show ?thesis by metis
  qed
  then have "Node_ForEachSubscription (\<lambda>sh det ss. publish_shard h (rand \<pi> sh) sh det ss) n =
      map (\<lambda>x. Inr ((?f \<circ> fst) x)) (n_subscriptions n)"
    by (auto simp: Node_ForEachSubscription_def)
  then have "deliver h rand \<pi> (Some n) = Inr (concat (map (?f \<circ> fst) (n_subscriptions n)))"
    by (simp only: deliver_def option.case seq_calls_Inr)
  moreover have "mset (concat (map (?f \<circ> fst) (n_subscriptions n))) =
      sum_list (map (\<lambda>sh. mset (?f sh)) (map fst (n_subscriptions n)))"
    by (simp add: mset_concat comp_def)
  moreover have "\<dots> = (\<Sum>sh \<in> fst ` set (n_subscriptions n). mset (?f sh))"
    using sum_list_distinct_conv_sum_set [of "map fst (n_subscriptions n)"] wf
    by (simp add: gomap_wf_def del: map_map)
  moreover have "fst ` set (n_subscriptions n) = {sh. shard_envs sh n \<noteq> []}"
  proof (rule set_eqI)
    fix sh
    show "sh \<in> fst ` set (n_subscriptions n) \<longleftrightarrow> sh \<in> {sh. shard_envs sh n \<noteq> []}"
      using node_ok_envs(4) [OF assms(1), of sh]
      by (cases "map_of (n_subscriptions n) sh")
        (auto simp: shard_envs_def dom_map_of_conv_image_fst [symmetric])
  qed
  ultimately show ?thesis by auto
qed

lemma deliver_picks:
  assumes "tree_ok n" and "\<And>\<pi> sh l. 0 < l \<Longrightarrow> rand \<pi> sh l < l" and "small_tree n"
  shows "\<exists>ys. deliver h rand \<pi> (node_at \<pi> n) = Inr ys \<and> mset ys = picks h rand n \<pi>"
proof (cases "node_at \<pi> n")
  case None
  then show ?thesis by (simp add: deliver_def picks_def envs_at_def)
next
  case (Some m)
  have at: "envs_at \<pi> sh n = shard_envs sh m" for sh using Some by (simp add: envs_at_def)
  have "node_ok m" using tree_ok_node [OF tree_ok_node_at [OF assms(1) Some]] .
  moreover have "length (shard_envs sh m) < 2 ^ 64" for sh
    using assms(3) unfolding small_tree_def at [symmetric] by blast
  ultimately show ?thesis
    unfolding Some picks_def at using assms(2) by (intro deliver_node)
qed

lemma seq_calls_picks:
  "(\<And>x. \<exists>ys. f x = Inr ys \<and> mset ys = g x) \<Longrightarrow>
   \<exists>ys. seq_calls (map f xs) = Inr ys \<and> mset ys = sum_list (map g xs)"
proof (induction xs)
  case (Cons x xs)
  then obtain ys zs where "f x = Inr ys" "mset ys = g x" "seq_calls (map f xs) = Inr zs"
    "mset zs = sum_list (map g xs)" by metis
  then show ?case by simp
qed simp

lemma publish_picks:
  assumes "enumerates d a \<pi>s" and "tree_ok n" and "\<And>\<pi> sh l. 0 < l \<Longrightarrow> rand \<pi> sh l < l" and "small_tree n"
  shows "\<exists>ys. PubSub_Publish hash rand d a n = Some (Inr ys) \<and> mset ys = sum_list (map (picks (hash d) rand n) \<pi>s)"
  using seq_calls_picks [of "\<lambda>\<pi>. deliver (hash d) rand \<pi> (node_at \<pi> n)", OF deliver_picks [OF assms(2-4)]]
  by (simp add: PubSub_Publish_def traverse_enumerates [OF assms(1)])

section \<open>The contract of a subscription store\<close>

text \<open>
  What a client relies on: subscriptions are held under keys, subscribing returns a handle, and the
  handle takes the subscription away again. \<open>store_run\<close> is any sequence of calls in which a handle is
  used at most once, together with the subscriptions whose handle was not used yet.
\<close>

inductive store_run ::
    "('r \<Rightarrow> 'k \<Rightarrow> 'f \<Rightarrow> 's \<Rightarrow> ('h \<times> 's) option) \<Rightarrow> ('h \<Rightarrow> 'k \<Rightarrow> 's \<Rightarrow> 's go) \<Rightarrow> 's \<Rightarrow>
     ('k \<times> 'h \<times> 'f) multiset \<Rightarrow> 's \<Rightarrow> bool"
  for subscribe unsubscribe s0 where
  start: "store_run subscribe unsubscribe s0 {#} s0"
| sub: "store_run subscribe unsubscribe s0 L s \<Longrightarrow> subscribe r k f s = Some (h, s') \<Longrightarrow>
    store_run subscribe unsubscribe s0 (add_mset (k, h, f) L) s'"
| unsub: "store_run subscribe unsubscribe s0 L s \<Longrightarrow> (k, h, f) \<in># L \<Longrightarrow> unsubscribe h k s = Inr s' \<Longrightarrow>
    store_run subscribe unsubscribe s0 (L - {#(k, h, f)#}) s'"

locale subscription_store =
  fixes ok :: "'s \<Rightarrow> bool"
    and subscribe :: "'r \<Rightarrow> 'k \<Rightarrow> 'f \<Rightarrow> 's \<Rightarrow> ('h \<times> 's) option"
    and unsubscribe :: "'h \<Rightarrow> 'k \<Rightarrow> 's \<Rightarrow> 's go"
    and held :: "'k \<Rightarrow> 's \<Rightarrow> ('h \<times> 'f) multiset"
    and s0 :: 's
  assumes start_ok: "ok s0" and start_held: "held k s0 = {#}"
    and subscribe_ok: "ok s \<Longrightarrow> subscribe r k f s = Some (h, s') \<Longrightarrow> ok s'"
    and subscribe_held: "ok s \<Longrightarrow> subscribe r k f s = Some (h, s') \<Longrightarrow>
      held k' s' = (if k' = k then add_mset (h, f) (held k s) else held k' s)"
    and unsubscribe_spec: "ok s \<Longrightarrow> (h, f) \<in># held k s \<Longrightarrow>
      \<exists>s'. unsubscribe h k s = Inr s' \<and> ok s' \<and>
        (\<forall>k'. held k' s' = (if k' = k then held k s - {#(h, f)#} else held k' s))"
begin

lemma run_held:
  assumes "store_run subscribe unsubscribe s0 L s"
  shows "ok s \<and> (\<forall>k. held k s = image_mset snd (filter_mset (\<lambda>x. fst x = k) L))"
  using assms
proof induction
  case start
  show ?case by (simp add: start_ok start_held)
next
  case (sub L s r k f h s')
  then show ?case using subscribe_ok subscribe_held [of s r k f h s'] by auto
next
  case (unsub L s k h f s')
  then obtain L' where L: "L = add_mset (k, h, f) L'" by (metis insert_DiffM)
  then have "(h, f) \<in># held k s" using unsub.IH by simp
  from unsubscribe_spec [OF conjunct1 [OF unsub.IH] this] unsub.hyps(3)
  have "ok s'" "\<And>k'. held k' s' = (if k' = k then held k s - {#(h, f)#} else held k' s)" by auto
  then show ?case using unsub.IH L by auto
qed

lemma run_unsubscribe:
  assumes "store_run subscribe unsubscribe s0 L s" and "(k, h, f) \<in># L"
  shows "\<exists>s'. unsubscribe h k s = Inr s'"
proof -
  obtain L' where "L = add_mset (k, h, f) L'" using assms(2) by (metis insert_DiffM)
  with run_held [OF assms(1)] have "ok s" "(h, f) \<in># held k s" by auto
  with unsubscribe_spec show ?thesis by blast
qed

lemma subscribe_unsubscribe:
  assumes "ok s" and "subscribe r k f s = Some (h, s')"
  shows "\<exists>s''. unsubscribe h k s' = Inr s'' \<and> ok s'' \<and> held k' s'' = held k' s"
proof -
  have "ok s'" "\<And>k'. held k' s' = (if k' = k then add_mset (h, f) (held k s) else held k' s)"
    using assms subscribe_ok subscribe_held by blast+
  with unsubscribe_spec [of s' h f k] show ?thesis by auto
qed

end

text \<open>The tree, with the path and the shard as the key and the identifier as the handle.\<close>

definition tree_subscribe ::
    "uint64 \<Rightarrow> uint64 list \<times> string \<Rightarrow> 'f \<times> string \<Rightarrow> 'f Node \<Rightarrow> (uint64 \<times> 'f Node) option" where
  "tree_subscribe r k f n = PubSub_Subscribe r (fst f) (snd k) (snd f) (fst k) n"

definition tree_unsubscribe :: "uint64 \<Rightarrow> uint64 list \<times> string \<Rightarrow> 'f Node \<Rightarrow> 'f Node go" where
  "tree_unsubscribe i k n =
     (case cleanupSubscriptionTree (Some n) i (fst k) of
        Inl e \<Rightarrow> Inl e | Inr None \<Rightarrow> Inl NilDereference | Inr (Some n') \<Rightarrow> Inr n')"

definition tree_held :: "uint64 list \<times> string \<Rightarrow> 'f Node \<Rightarrow> (uint64 \<times> 'f \<times> string) multiset" where
  "tree_held k n =
     image_mset (\<lambda>e. (se_id e, se_Subscription e, se_dName e)) (mset (envs_at (fst k) (snd k) n))"

interpretation tree: subscription_store tree_ok tree_subscribe tree_unsubscribe tree_held Node_New
proof
  fix n n' :: "'f Node" and r i :: uint64 and k k' :: "uint64 list \<times> string" and f :: "'f \<times> string"
  show "tree_ok (Node_New :: 'f Node)" by simp
  show "tree_held k Node_New = {#}" by (simp add: tree_held_def)
  {
    assume n: "tree_ok n" and sub: "tree_subscribe r k f n = Some (i, n')"
    note spec = subscribe_spec [OF sub [unfolded tree_subscribe_def] n]
    then show "tree_ok n'" by simp
    have "envs_at (fst k') (snd k') n' =
      (if k' = k then sort_key se_dName (envs_at (fst k) (snd k) n @
         [\<lparr>se_Subscription = fst f, se_id = i, se_dName = snd f\<rparr>]) else envs_at (fst k') (snd k') n)"
      using spec by (simp add: prod_eq_iff)
    then show "tree_held k' n' = (if k' = k then add_mset (i, f) (tree_held k n) else tree_held k' n)"
      by (simp add: tree_held_def)
  }
  {
    assume n: "tree_ok n" and "(i, f) \<in># tree_held k n"
    then obtain e where e: "e \<in> set (envs_at (fst k) (snd k) n)"
      "i = se_id e" "f = (se_Subscription e, se_dName e)" by (auto simp: tree_held_def)
    from cleanup_spec [OF n e(1)] e(2) obtain n' where
      n': "cleanupSubscriptionTree (Some n) i (fst k) = Inr (Some n')" "tree_ok n'"
        "\<And>ps sh. envs_at ps sh n' = (if ps = fst k \<and> sh = snd k then remove1 e (envs_at (fst k) (snd k) n)
           else envs_at ps sh n)" by auto
    have "tree_held k' n' = (if k' = k then tree_held k n - {#(i, f)#} else tree_held k' n)" for k'
      using e(1) by (cases "k' = k") (auto simp: e(2,3) tree_held_def n'(3) prod_eq_iff image_mset_Diff)
    then show "\<exists>n'. tree_unsubscribe i k n = Inr n' \<and> tree_ok n' \<and>
        (\<forall>k'. tree_held k' n' = (if k' = k then tree_held k n - {#(i, f)#} else tree_held k' n))"
      using n' by (auto simp: tree_unsubscribe_def)
  }
qed

text \<open>The routing names under a key, read off the live subscriptions of a run.\<close>

lemma run_names:
  assumes "store_run tree_subscribe tree_unsubscribe Node_New L n"
  shows "image_mset se_dName (mset (envs_at \<pi> sh n)) =
    image_mset snd (filter_mset (\<lambda>y. fst y = (\<pi>, sh)) (image_mset (\<lambda>(k, i, f). (k, snd f)) L))"
proof -
  have "image_mset se_dName (mset (envs_at \<pi> sh n)) = image_mset (\<lambda>x. snd (snd x)) (tree_held (\<pi>, sh) n)"
    by (simp add: tree_held_def multiset.map_comp comp_def)
  also have "tree_held (\<pi>, sh) n = image_mset snd (filter_mset (\<lambda>x. fst x = (\<pi>, sh)) L)"
    using tree.run_held [OF assms] by blast
  finally show ?thesis
    by (simp add: filter_mset_image_mset multiset.map_comp comp_def case_prod_unfold)
qed

lemma run_small:
  assumes "store_run tree_subscribe tree_unsubscribe Node_New L n" and "size L < 2 ^ 64"
  shows "small_tree n"
  unfolding small_tree_def
proof (intro allI)
  fix \<pi> sh
  have "length (envs_at \<pi> sh n) = size (image_mset se_dName (mset (envs_at \<pi> sh n)))" by simp
  also have "\<dots> \<le> size L" unfolding run_names [OF assms(1)] using size_filter_mset_lesseq [of _ "image_mset _ L"] by (metis size_image_mset)
  finally show "length (envs_at \<pi> sh n) < 2 ^ 64" using assms(2) by simp
qed

section \<open>Properties\<close>

text \<open>A tree with one subscription.\<close>

definition example_tree :: "int Node" where
  "example_tree = Node
     [(5, Node [] [(''s'', \<lparr>si_deterministicRoutingCount = 1,
         si_envelopes = [\<lparr>se_Subscription = 42, se_id = 9, se_dName = ''a''\<rparr>]\<rparr>)] [(9, ''s'')])] [] []"

lemmas node_defs = Node_AddChild_def Node_setChild_def Node_DeleteChild_def Node_AddSubscription_def
  Node_DeleteSubscription_def Node_FetchChild_def Node_ChildLen_def Node_SubscriptionLen_def
  createAndSetID_def Node_New_def

lemma example_subscribe: "PubSub_Subscribe 9 42 ''s'' ''a'' [5] Node_New = Some (9, example_tree)"
  by (simp add: node_defs example_tree_def free_id.simps Let_def)

lemma example_run:
  "store_run tree_subscribe tree_unsubscribe Node_New {#(([5], ''s''), 9, 42, ''a'')#} example_tree"
  using store_run.sub [OF store_run.start, of tree_subscribe 9 "([5], ''s'')" "(42, ''a'')" Node_New 9 example_tree]
    example_subscribe by (simp add: tree_subscribe_def)

lemma example_ok: "tree_ok example_tree"
  using subscribe_spec [OF example_subscribe] by simp

text \<open>A traverser that leads all data to the path of the example.\<close>

definition example_paths :: "unit TreeTraverser" where
  "example_paths = TreeTraverser (\<lambda>_ i. if i = 0 then Some (5, Some (TreeTraverser (\<lambda>_ _. None))) else None)"

lemma example_paths_enumerates: "enumerates () example_paths [[], [5]]"
proof -
  have "enumerates () (TreeTraverser (\<lambda>_ _. None)) [[]]"
    using enumerates.intros [of "TreeTraverser (\<lambda>_ _. None)" "()" "[]" "[]"] by (simp add: paths_from.simps)
  then show ?thesis
    using enumerates.intros [of example_paths "()" "[(5, Some (TreeTraverser (\<lambda>_ _. None)))]" "[[[]]]"]
    by (simp add: example_paths_def paths_from.simps next_traverser_def)
qed

text \<open>
  C20. After any sequence of \<open>Subscribe\<close> calls and unsubscriptions on a new \<open>PubSub\<close>, where each
  unsubscriber is used at most once, the tree is well-formed, holds exactly the subscriptions that were
  not unsubscribed, each at its own path and shard, and every one of them can be unsubscribed without a
  panic.
\<close>

theorem PubSub_holds_live_subscriptions:
  assumes "store_run tree_subscribe tree_unsubscribe Node_New L n"
  shows "tree_ok n \<and> (\<forall>k. tree_held k n = image_mset snd (filter_mset (\<lambda>x. fst x = k) L)) \<and>
    (\<forall>k i f. (k, i, f) \<in># L \<longrightarrow> (\<exists>n'. tree_unsubscribe i k n = Inr n'))"
  using tree.run_held [OF assms] tree.run_unsubscribe [OF assms] by blast

theorem PubSub_holds_live_subscriptions_witness:
  "tree_ok example_tree \<and> tree_held ([5], ''s'') example_tree = {#(9, 42, ''a'')#} \<and>
   (\<exists>n'. tree_unsubscribe 9 ([5], ''s'') example_tree = Inr n')"
  using PubSub_holds_live_subscriptions [OF example_run] by simp

text \<open>
  \<open>Subscribe\<close> returns (its search for a free identifier ends), and calling the unsubscriber at once
  brings every path and shard back to the subscriptions, in the order, they had before.
\<close>

theorem PubSub_subscribe_unsubscribe:
  assumes "tree_ok n" and "\<And>m. node_at \<pi> n = Some m \<Longrightarrow> length (n_shards m) < 2 ^ 64"
  shows "\<exists>i n' n''. PubSub_Subscribe r s sh dn \<pi> n = Some (i, n') \<and>
    cleanupSubscriptionTree (Some n') i \<pi> = Inr (Some n'') \<and> tree_ok n'' \<and>
    (\<forall>\<pi>' sh'. envs_at \<pi>' sh' n'' = envs_at \<pi>' sh' n)"
proof -
  obtain i n' where sub: "PubSub_Subscribe r s sh dn \<pi> n = Some (i, n')"
    using subscribe_returns [OF assms(2)] by blast
  let ?e = "\<lparr>se_Subscription = s, se_id = i, se_dName = dn\<rparr>"
  note spec = subscribe_spec [OF sub assms(1)]
  then have at: "envs_at \<pi> sh n' = sort_key se_dName (envs_at \<pi> sh n @ [?e])" by simp
  obtain n'' where n'': "cleanupSubscriptionTree (Some n') i \<pi> = Inr (Some n'')" "tree_ok n''"
    "\<forall>\<pi>' sh'. envs_at \<pi>' sh' n'' =
       (if \<pi>' = \<pi> \<and> sh' = sh then remove1 ?e (envs_at \<pi> sh n') else envs_at \<pi>' sh' n')"
    using cleanup_spec [of n' ?e \<pi> sh] spec at by auto
  have "remove1 ?e (envs_at \<pi> sh n') = envs_at \<pi> sh n"
    unfolding at
  proof (rule remove1_sort_append)
    show "?e \<notin> set (envs_at \<pi> sh n)" using spec by force
    show "distinct (envs_at \<pi> sh n)" using envs_at_distinct [OF assms(1)] by (simp add: distinct_map)
  qed (rule envs_at_sorted [OF assms(1)])
  with n'' spec sub show ?thesis by auto
qed

theorem PubSub_subscribe_unsubscribe_witness:
  "\<exists>i n' n''. PubSub_Subscribe 3 43 ''s'' ''b'' [5] example_tree = Some (i, n') \<and>
    cleanupSubscriptionTree (Some n') i [5] = Inr (Some n'') \<and> tree_ok n'' \<and>
    (\<forall>\<pi>' sh'. envs_at \<pi>' sh' n'' = envs_at \<pi>' sh' example_tree)"
  by (rule PubSub_subscribe_unsubscribe [OF example_ok]) (simp add: example_tree_def)

text \<open>
  Unsubscribing panics exactly when the path has no node any more: a second call of an
  unsubscriber is harmless as long as another subscription keeps the path alive, and dereferences nil
  otherwise.
\<close>

theorem cleanup_panics_iff:
  "cleanupSubscriptionTree (Some n) i \<pi> = Inl NilDereference \<longleftrightarrow> node_at \<pi> n = None"
  using cleanup_total [of \<pi> "Some n" i] by (auto split: if_splits)

text \<open>
  C8. Publishing terminates without a panic and invokes, for each path the traverser leads the data to
  and each occurrence of it, every subscription without a shard and exactly one subscription of every
  other shard at that path, and nothing else.
\<close>

theorem PubSub_Publish_delivers:
  assumes "enumerates d a \<pi>s" and "tree_ok n" and "\<And>\<pi> sh l. 0 < l \<Longrightarrow> rand \<pi> sh l < l" and "small_tree n"
  shows "\<exists>ys. PubSub_Publish hash rand d a n = Some (Inr ys) \<and>
    mset ys = sum_list (map (picks (hash d) rand n) \<pi>s)"
  using publish_picks [OF assms] .

theorem PubSub_Publish_delivers_witness:
  "\<exists>ys. PubSub_Publish (\<lambda>_. 4) (\<lambda>_ _ _. 0) () example_paths example_tree = Some (Inr ys) \<and>
    mset ys = sum_list (map (picks 4 (\<lambda>_ _ _. 0) example_tree) [[], [5]])"
  by (rule PubSub_Publish_delivers [OF example_paths_enumerates example_ok])
    (use run_small [OF example_run] in auto)

subsection \<open>Deterministic routing\<close>

lemma sorted_names_eq:
  assumes "tree_ok n" and "tree_ok n'"
    and "image_mset se_dName (mset (envs_at \<pi> sh n)) = image_mset se_dName (mset (envs_at \<pi> sh n'))"
  shows "map se_dName (envs_at \<pi> sh n) = map se_dName (envs_at \<pi> sh n')"
  using assms(3) envs_at_sorted [OF assms(1)] envs_at_sorted [OF assms(2)]
  by (metis mset_map properties_for_sort sorted_sort_id)

lemma pick_names:
  assumes "map se_dName ss = map se_dName ss'" and "ss \<noteq> []" and "sh \<noteq> [] \<Longrightarrow> \<exists>e \<in> set ss. se_dName e \<noteq> []"
  shows "map se_dName (pick h rnd sh ss) = map se_dName (pick h rnd' sh ss')"
proof (cases "sh = []")
  case False
  have len: "length ss = length ss'" using assms(1) by (metis length_map)
  have "se_dName ` set ss = se_dName ` set ss'" using assms(1) by (metis list.set_map)
  then have named: "\<exists>e \<in> set ss. se_dName e \<noteq> []" "\<exists>e \<in> set ss'. se_dName e \<noteq> []" using assms(3) [OF False] by (auto, metis image_iff)
  have "unat h mod length ss < length ss" using assms(2) by (cases ss) auto
  then have "se_dName (ss ! (unat h mod length ss)) = se_dName (ss' ! (unat h mod length ss'))"
    using assms(1) len by (metis nth_map)
  with named False show ?thesis by (simp add: pick_def)
qed (use assms(1) in \<open>simp add: pick_def\<close>)

lemma image_mset_sum_set: "image_mset f (\<Sum>x \<in> A. g x) = (\<Sum>x \<in> A. image_mset f (g x))"
  by (induction A rule: infinite_finite_induct) simp_all

lemma image_mset_sum_list: "image_mset f (sum_list (map g xs)) = sum_list (map (\<lambda>x. image_mset f (g x)) xs)"
  by (induction xs) simp_all

lemma picks_names:
  assumes "\<And>sh. map se_dName (envs_at \<pi> sh n) = map se_dName (envs_at \<pi> sh n')"
    and "\<And>sh. envs_at \<pi> sh n \<noteq> [] \<Longrightarrow> sh \<noteq> [] \<Longrightarrow> \<exists>e \<in> set (envs_at \<pi> sh n). se_dName e \<noteq> []"
  shows "image_mset se_dName (picks h rand n \<pi>) = image_mset se_dName (picks h rand' n' \<pi>)"
proof -
  have dom: "envs_at \<pi> sh n \<noteq> [] \<longleftrightarrow> envs_at \<pi> sh n' \<noteq> []" for sh using assms(1) [of sh] by (metis list.map_disc_iff)
  have "image_mset se_dName (mset (pick h (rand \<pi> sh) sh (envs_at \<pi> sh n))) =
      image_mset se_dName (mset (pick h (rand' \<pi> sh) sh (envs_at \<pi> sh n')))" if "envs_at \<pi> sh n \<noteq> []" for sh
    using pick_names [OF assms(1) [of sh] that assms(2) [OF that]] by (metis mset_map)
  then show ?thesis unfolding picks_def image_mset_sum_set by (intro sum.cong) (simp_all add: dom)
qed

text \<open>
  C30. Deterministic routing. Take two routers with any histories of subscriptions and unsubscriptions, which have left them
  with the same routing names at the same paths and shards (counting repetitions), at least one of them not empty in every shard
  with a name. Publishing the same data then invokes subscriptions with the same routing names on both, whatever the order of
  the histories, the subscriptions themselves, their identifiers and the random numbers of the two routers: in each shard
  the hash of the data alone decides which name gets it.
\<close>

theorem PubSub_deterministic_choice:
  assumes "store_run tree_subscribe tree_unsubscribe Node_New L n" and "store_run tree_subscribe tree_unsubscribe Node_New L' n'"
    and names: "image_mset (\<lambda>(k, i, f). (k, snd f)) L = image_mset (\<lambda>(k, i, f). (k, snd f)) L'"
    and named: "\<forall>k i f. (k, i, f) \<in># L \<and> snd k \<noteq> [] \<longrightarrow> (\<exists>i' f'. (k, i', f') \<in># L \<and> snd f' \<noteq> [])"
    and "size L < 2 ^ 64" and paths: "enumerates d a \<pi>s"
    and rand: "\<And>\<pi> sh l. 0 < l \<Longrightarrow> rand \<pi> sh l < l" "\<And>\<pi> sh l. 0 < l \<Longrightarrow> rand' \<pi> sh l < l"
  shows "\<exists>ys ys'. PubSub_Publish hash rand d a n = Some (Inr ys) \<and> PubSub_Publish hash rand' d a n' = Some (Inr ys') \<and>
    image_mset se_dName (mset ys) = image_mset se_dName (mset ys')"
proof -
  have ok: "tree_ok n" "tree_ok n'" using tree.run_held assms(1,2) by blast+
  have "size L' = size L" using names by (metis size_image_mset)
  then have small: "small_tree n" "small_tree n'" using run_small assms(1,2,5) by metis+
  have eq: "map se_dName (envs_at \<pi> sh n) = map se_dName (envs_at \<pi> sh n')" for \<pi> sh
    by (rule sorted_names_eq [OF ok]) (simp only: run_names [OF assms(1)] run_names [OF assms(2)] names)
  have some: "\<exists>e \<in> set (envs_at \<pi> sh n). se_dName e \<noteq> []" if "envs_at \<pi> sh n \<noteq> []" "sh \<noteq> []" for \<pi> sh
  proof -
    have held: "tree_held (\<pi>, sh) n = image_mset snd (filter_mset (\<lambda>x. fst x = (\<pi>, sh)) L)"
      using tree.run_held [OF assms(1)] by blast
    with that(1) obtain i f where "((\<pi>, sh), i, f) \<in># L" by (cases "envs_at \<pi> sh n") (auto simp: tree_held_def dest!: union_single_eq_member)
    with named that(2) obtain i' f' where "((\<pi>, sh), i', f') \<in># L" "snd f' \<noteq> []" by fastforce
    then have "(i', f') \<in># tree_held (\<pi>, sh) n" unfolding held by force
    with \<open>snd f' \<noteq> []\<close> show ?thesis by (auto simp: tree_held_def)
  qed
  obtain ys where ys: "PubSub_Publish hash rand d a n = Some (Inr ys)" "mset ys = sum_list (map (picks (hash d) rand n) \<pi>s)"
    using publish_picks [of d a \<pi>s n rand hash] paths ok(1) rand(1) small(1) by blast
  obtain ys' where ys': "PubSub_Publish hash rand' d a n' = Some (Inr ys')" "mset ys' = sum_list (map (picks (hash d) rand' n') \<pi>s)"
    using publish_picks [of d a \<pi>s n' rand' hash] paths ok(2) rand(2) small(2) by blast
  have "image_mset se_dName (mset ys) = image_mset se_dName (mset ys')"
    unfolding ys(2) ys'(2) image_mset_sum_list
    by (intro arg_cong [where f = sum_list] map_cong refl picks_names eq some)
  with ys(1) ys'(1) show ?thesis by blast
qed

text \<open>Two routers with the names \<open>a\<close> and \<open>b\<close> in one shard, subscribed in different orders, and different random numbers.\<close>

theorem PubSub_deterministic_choice_witness:
  "\<exists>n m n' ys ys'. tree_subscribe 3 ([5], ''s'') (43, ''b'') example_tree = Some (3, n) \<and>
     tree_subscribe 1 ([5], ''s'') (0, ''b'') Node_New = Some (1, m) \<and> tree_subscribe 2 ([5], ''s'') (1 :: int, ''a'') m = Some (2, n') \<and>
     PubSub_Publish (\<lambda>_. 7) (\<lambda>_ _ _. 0) () example_paths n = Some (Inr ys) \<and>
     PubSub_Publish (\<lambda>_. 7) (\<lambda>_ _ l. l - 1) () example_paths n' = Some (Inr ys') \<and>
     image_mset se_dName (mset ys) = image_mset se_dName (mset ys')"
proof -
  obtain n where n: "tree_subscribe 3 ([5], ''s'') (43, ''b'') example_tree = Some (3, n)"
    by (simp add: tree_subscribe_def node_defs example_tree_def free_id.simps Let_def)
  obtain m n' where m: "tree_subscribe 1 ([5], ''s'') (0 :: int, ''b'') Node_New = Some (1, m)"
    and n': "tree_subscribe 2 ([5], ''s'') (1, ''a'') m = Some (2, n')"
    by (simp add: tree_subscribe_def node_defs free_id.simps Let_def)
  have run: "store_run tree_subscribe tree_unsubscribe Node_New {#(([5], ''s''), 3, 43, ''b''), (([5], ''s''), 9, 42, ''a'')#} n"
    using example_run n by (rule store_run.sub)
  have "store_run tree_subscribe tree_unsubscribe Node_New {#(([5], ''s''), 1, 0, ''b'')#} m"
    using store_run.start m by (rule store_run.sub)
  then have run': "store_run tree_subscribe tree_unsubscribe Node_New {#(([5], ''s''), 2, 1, ''a''), (([5], ''s''), 1, 0, ''b'')#} n'"
    using n' by (rule store_run.sub)
  have "\<exists>ys ys'. PubSub_Publish (\<lambda>_. 7) (\<lambda>_ _ _. 0) () example_paths n = Some (Inr ys) \<and>
     PubSub_Publish (\<lambda>_. 7) (\<lambda>_ _ l. l - 1) () example_paths n' = Some (Inr ys') \<and>
     image_mset se_dName (mset ys) = image_mset se_dName (mset ys')"
    by (rule PubSub_deterministic_choice [OF run run' _ _ _ example_paths_enumerates]) auto
  with n m n' show ?thesis by blast
qed

end
