(* ===== verification/Envelopes.thy ===== *)
theory Envelopes
  imports Prelude
begin

text \<open>
  The v2 data model of Loggregator, as generated from the protocol buffer definitions, and the checksum
  that the router uses to turn strings into keys.

  A pointer that may be nil is an option; a oneof is a datatype under an option. A \<open>float64\<close> is its bit
  pattern: no modelled code calculates with the floating point numbers of an envelope.
\<close>

section \<open>Envelopes\<close>

type_synonym float64 = "64 word"
type_synonym int64 = "64 word"

datatype Log_Type = Log_OUT | Log_ERR

record Log =
  Log_Payload :: bytes
  Log_Type :: Log_Type

record Counter =
  Counter_Name :: string
  Counter_Delta :: uint64
  Counter_Total :: uint64

record GaugeValue =
  GaugeValue_Unit :: string
  GaugeValue_Value :: float64

record Gauge =
  Gauge_Metrics :: "(string, GaugeValue option) gomap"

record Timer =
  Timer_Name :: string
  Timer_Start :: int64
  Timer_Stop :: int64

record Event =
  Event_Title :: string
  Event_Body :: string

datatype Envelope_Message =
    Envelope_Log "Log option"
  | Envelope_Counter "Counter option"
  | Envelope_Gauge "Gauge option"
  | Envelope_Timer "Timer option"
  | Envelope_Event "Event option"

datatype Value_Data =
    Value_Text string
  | Value_Integer int64
  | Value_Decimal float64

record Value =
  Value_Data :: "Value_Data option"

text \<open>\<open>None\<close> is the nil map, which has no entries and cannot be written to.\<close>

record Envelope =
  Timestamp :: int64
  SourceId :: string
  InstanceId :: string
  DeprecatedTags :: "(string, Value option) gomap option"
  Tags :: "(string, string) gomap option"
  Message :: "Envelope_Message option"

definition Envelope_empty :: Envelope where
  "Envelope_empty =
     \<lparr>Timestamp = 0, SourceId = [], InstanceId = [], DeprecatedTags = None, Tags = None, Message = None\<rparr>"

section \<open>Selectors and requests\<close>

record CounterSelector =
  CounterSelector_Name :: string

record GaugeSelector =
  GaugeSelector_Names :: "string list"

datatype Selector_Message =
    Selector_Log
  | Selector_Counter "CounterSelector option"
  | Selector_Gauge "GaugeSelector option"
  | Selector_Timer
  | Selector_Event

record Selector =
  Selector_SourceId :: string
  Selector_Message :: "Selector_Message option"

record EgressRequest =
  er_ShardId :: string
  er_DeterministicName :: string
  er_LegacySelector :: "Selector option"
  er_Selectors :: "Selector list"
  er_UsePreferredTags :: bool

record EgressBatchRequest =
  ebr_ShardId :: string
  ebr_DeterministicName :: string
  ebr_LegacySelector :: "Selector option"
  ebr_Selectors :: "Selector list"
  ebr_UsePreferredTags :: bool

section \<open>CRC-64 (\<open>hash/crc64\<close> of the standard library)\<close>

unbundle bit_operations_syntax

definition crc64_ECMA :: uint64 where
  "crc64_ECMA = 0xC96C5795D7870F42"

fun crc64_bits :: "nat \<Rightarrow> uint64 \<Rightarrow> uint64" where
  "crc64_bits 0 crc = crc"
| "crc64_bits (Suc n) crc =
     crc64_bits n (if crc AND 1 = 1 then drop_bit 1 crc XOR crc64_ECMA else drop_bit 1 crc)"

definition crc64_table :: "byte \<Rightarrow> uint64" where
  "crc64_table i = crc64_bits 8 (ucast i)"

definition crc64_update :: "uint64 \<Rightarrow> bytes \<Rightarrow> uint64" where
  "crc64_update crc p =
     NOT (foldl (\<lambda>crc v. crc64_table (ucast crc XOR v) XOR drop_bit 8 crc) (NOT crc) p)"

definition crc64_Checksum :: "bytes \<Rightarrow> uint64" where
  "crc64_Checksum p = crc64_update 0 p"

lemma crc64_Checksum_Nil [simp]: "crc64_Checksum [] = 0"
  by (simp add: crc64_Checksum_def crc64_update_def)

end
