(* ===== verification/EnvelopeTraverser.thy ===== *)
theory EnvelopeTraverser
  imports PubSub Envelopes
begin

text \<open>
  \<open>router/internal/server/v2/envelope_traverser.gen.go\<close>: how an envelope is led through the
  subscription tree, and the path at which a filter subscribes.

  A Go traverser \<open>_X\<close> is \<open>trav_X\<close> here and a function \<open>___X\<close> of type \<open>Paths\<close> is \<open>paths_X\<close>. The type
  assertions of the source cannot fail: each of these functions is only reached from \<open>___Message\<close>, which
  selects it by the type of the message, and a field of a message is only read below the test that
  its pointer is not nil. The accessors \<open>log_of\<close>, \<open>counter_of\<close>, ... stand for the asserted expressions.
\<close>

type_synonym EnvelopePaths = "nat \<Rightarrow> (uint64 \<times> Envelope TreeTraverser option) option"

section \<open>Keys\<close>

definition hashBool :: "bool \<Rightarrow> uint64" where
  "hashBool data = (if data then 2 else 1)"

definition hashUint64 :: "uint64 \<Rightarrow> uint64" where
  "hashUint64 data = (if data = 0 then 1 else data)"

text \<open>\<open>hashUint64(crc64.Checksum([]byte(s), tableECMA))\<close>\<close>

definition hashString :: "string \<Rightarrow> uint64" where
  "hashString s = hashUint64 (crc64_Checksum (bytes_of_string s))"

text \<open>The loops that sum the keys of several names.\<close>

definition hashStrings :: "string list \<Rightarrow> uint64" where
  "hashStrings xs = hashUint64 (foldl (\<lambda>total x. total + hashString x) 0 xs)"

section \<open>Traversing an envelope\<close>

definition log_of :: "Envelope \<Rightarrow> Log option" where
  "log_of e = (case Message e of Some (Envelope_Log x) \<Rightarrow> x | _ \<Rightarrow> None)"

definition counter_of :: "Envelope \<Rightarrow> Counter option" where
  "counter_of e = (case Message e of Some (Envelope_Counter x) \<Rightarrow> x | _ \<Rightarrow> None)"

definition gauge_of :: "Envelope \<Rightarrow> Gauge option" where
  "gauge_of e = (case Message e of Some (Envelope_Gauge x) \<Rightarrow> x | _ \<Rightarrow> None)"

definition timer_of :: "Envelope \<Rightarrow> Timer option" where
  "timer_of e = (case Message e of Some (Envelope_Timer x) \<Rightarrow> x | _ \<Rightarrow> None)"

definition event_of :: "Envelope \<Rightarrow> Event option" where
  "event_of e = (case Message e of Some (Envelope_Event x) \<Rightarrow> x | _ \<Rightarrow> None)"

text \<open>\<open>done\<close> in the source.\<close>

definition trav_done :: "Envelope TreeTraverser" where
  "trav_done = TreeTraverser (\<lambda>data idx. None)"

definition trav_Message_Envelope_Log :: "Envelope TreeTraverser" where
  "trav_Message_Envelope_Log =
     TreeTraverser (\<lambda>data idx. if idx = 0 then Some (1, Some trav_done) else None)"

definition paths_Message_Envelope_Log_Log :: "Envelope \<Rightarrow> EnvelopePaths" where
  "paths_Message_Envelope_Log_Log data idx =
     (if idx = 0
      then if log_of data = None then Some (0, Some trav_done) else Some (1, Some trav_done)
      else None)"

definition trav_Message_Envelope_Log_Log :: "Envelope TreeTraverser" where
  "trav_Message_Envelope_Log_Log =
     TreeTraverser (\<lambda>data idx.
       if log_of data = None then (if idx = 0 then Some (0, Some trav_done) else None)
       else (if idx = 0 then Some (1, Some trav_done) else None))"

definition trav_Message_Envelope_Counter :: "Envelope TreeTraverser" where
  "trav_Message_Envelope_Counter =
     TreeTraverser (\<lambda>data idx. if idx = 0 then Some (1, Some trav_done) else None)"

definition trav_Message_Envelope_Counter_Counter_Name :: "Envelope TreeTraverser" where
  "trav_Message_Envelope_Counter_Counter_Name =
     TreeTraverser (\<lambda>data idx.
       if idx = 0 then Some (0, Some trav_done)
       else if idx = 1 then
         (case counter_of data of
            None \<Rightarrow> None
          | Some x \<Rightarrow> Some (hashString (Counter_Name x), Some trav_done))
       else None)"

definition paths_Message_Envelope_Counter_Counter :: "Envelope \<Rightarrow> EnvelopePaths" where
  "paths_Message_Envelope_Counter_Counter data idx =
     (if idx = 0
      then if counter_of data = None then Some (0, Some trav_done) else Some (1, Some trav_Message_Envelope_Counter_Counter_Name)
      else None)"

definition trav_Message_Envelope_Counter_Counter :: "Envelope TreeTraverser" where
  "trav_Message_Envelope_Counter_Counter =
     TreeTraverser (\<lambda>data idx.
       if counter_of data = None then (if idx = 0 then Some (0, Some trav_done) else None)
       else (if idx = 0 then Some (1, Some trav_Message_Envelope_Counter_Counter_Name) else None))"

definition trav_Message_Envelope_Gauge :: "Envelope TreeTraverser" where
  "trav_Message_Envelope_Gauge =
     TreeTraverser (\<lambda>data idx. if idx = 0 then Some (1, Some trav_done) else None)"

definition trav_Message_Envelope_Gauge_Gauge_Metrics :: "Envelope TreeTraverser" where
  "trav_Message_Envelope_Gauge_Gauge_Metrics =
     TreeTraverser (\<lambda>data idx.
       if idx = 0 then Some (0, Some trav_done)
       else if idx = 1 then
         (case gauge_of data of
            None \<Rightarrow> None
          | Some x \<Rightarrow> Some (hashStrings (map fst (Gauge_Metrics x)), Some trav_done))
       else None)"

definition paths_Message_Envelope_Gauge_Gauge :: "Envelope \<Rightarrow> EnvelopePaths" where
  "paths_Message_Envelope_Gauge_Gauge data idx =
     (if idx = 0
      then if gauge_of data = None then Some (0, Some trav_done) else Some (1, Some trav_Message_Envelope_Gauge_Gauge_Metrics)
      else None)"

definition trav_Message_Envelope_Gauge_Gauge :: "Envelope TreeTraverser" where
  "trav_Message_Envelope_Gauge_Gauge =
     TreeTraverser (\<lambda>data idx.
       if gauge_of data = None then (if idx = 0 then Some (0, Some trav_done) else None)
       else (if idx = 0 then Some (1, Some trav_Message_Envelope_Gauge_Gauge_Metrics) else None))"

definition trav_Message_Envelope_Timer :: "Envelope TreeTraverser" where
  "trav_Message_Envelope_Timer =
     TreeTraverser (\<lambda>data idx. if idx = 0 then Some (1, Some trav_done) else None)"

definition paths_Message_Envelope_Timer_Timer :: "Envelope \<Rightarrow> EnvelopePaths" where
  "paths_Message_Envelope_Timer_Timer data idx =
     (if idx = 0
      then if timer_of data = None then Some (0, Some trav_done) else Some (1, Some trav_done)
      else None)"

definition trav_Message_Envelope_Timer_Timer :: "Envelope TreeTraverser" where
  "trav_Message_Envelope_Timer_Timer =
     TreeTraverser (\<lambda>data idx.
       if timer_of data = None then (if idx = 0 then Some (0, Some trav_done) else None)
       else (if idx = 0 then Some (1, Some trav_done) else None))"

definition trav_Message_Envelope_Event :: "Envelope TreeTraverser" where
  "trav_Message_Envelope_Event =
     TreeTraverser (\<lambda>data idx. if idx = 0 then Some (1, Some trav_done) else None)"

definition trav_Message_Envelope_Event_Event_Body :: "Envelope TreeTraverser" where
  "trav_Message_Envelope_Event_Event_Body =
     TreeTraverser (\<lambda>data idx.
       if idx = 0 then Some (0, Some trav_done)
       else if idx = 1 then
         (case event_of data of
            None \<Rightarrow> None
          | Some x \<Rightarrow> Some (hashString (Event_Body x), Some trav_done))
       else None)"

definition trav_Message_Envelope_Event_Event_Title :: "Envelope TreeTraverser" where
  "trav_Message_Envelope_Event_Event_Title =
     TreeTraverser (\<lambda>data idx.
       if idx = 0 then Some (0, Some trav_Message_Envelope_Event_Event_Body)
       else if idx = 1 then
         (case event_of data of
            None \<Rightarrow> None
          | Some x \<Rightarrow> Some (hashString (Event_Title x), Some trav_Message_Envelope_Event_Event_Body))
       else None)"

definition paths_Message_Envelope_Event_Event :: "Envelope \<Rightarrow> EnvelopePaths" where
  "paths_Message_Envelope_Event_Event data idx =
     (if idx = 0
      then if event_of data = None then Some (0, Some trav_done) else Some (1, Some trav_Message_Envelope_Event_Event_Title)
      else None)"

definition trav_Message_Envelope_Event_Event :: "Envelope TreeTraverser" where
  "trav_Message_Envelope_Event_Event =
     TreeTraverser (\<lambda>data idx.
       if event_of data = None then (if idx = 0 then Some (0, Some trav_done) else None)
       else (if idx = 0 then Some (1, Some trav_Message_Envelope_Event_Event_Title) else None))"

definition paths_Message :: "Envelope \<Rightarrow> EnvelopePaths" where
  "paths_Message data idx =
     (if idx = 0
      then
        (case Message data of
           Some (Envelope_Log _) \<Rightarrow> Some (4, Some trav_Message_Envelope_Log_Log)
         | Some (Envelope_Counter _) \<Rightarrow> Some (1, Some trav_Message_Envelope_Counter_Counter)
         | Some (Envelope_Gauge _) \<Rightarrow> Some (3, Some trav_Message_Envelope_Gauge_Gauge)
         | Some (Envelope_Timer _) \<Rightarrow> Some (5, Some trav_Message_Envelope_Timer_Timer)
         | Some (Envelope_Event _) \<Rightarrow> Some (2, Some trav_Message_Envelope_Event_Event)
         | None \<Rightarrow> Some (0, Some trav_done))
      else None)"

definition trav_SourceId :: "Envelope TreeTraverser" where
  "trav_SourceId =
     TreeTraverser (\<lambda>data idx.
       if idx = 0 then Some (0, Some (TreeTraverser paths_Message))
       else if idx = 1 then Some (hashString (SourceId data), Some (TreeTraverser paths_Message))
       else None)"

definition envelopeTraverserTraverse :: "Envelope TreeTraverser" where
  "envelopeTraverserTraverse = TreeTraverser (traverse trav_SourceId)"

section \<open>Filters and their paths\<close>

text \<open>\<open>LogFilter\<close> and \<open>TimerFilter\<close> have no fields: only whether the pointer is nil counts.\<close>

record LogFilter =
  lf_unit :: unit

record Envelope_LogFilter =
  elf_Log :: "LogFilter option"

record CounterFilter =
  cf_Name :: "string option"

record Envelope_CounterFilter =
  ecf_Counter :: "CounterFilter option"

record GaugeFilter =
  gf_Metrics :: "string list option"

record Envelope_GaugeFilter =
  egf_Gauge :: "GaugeFilter option"

record TimerFilter =
  tf_unit :: unit

record Envelope_TimerFilter =
  etf_Timer :: "TimerFilter option"

record EventFilter =
  ef_Title :: "string option"
  ef_Body :: "string option"

record Envelope_EventFilter =
  eef_Event :: "EventFilter option"

record EnvelopeFilter =
  ef_SourceId :: "string option"
  ef_Log :: "Envelope_LogFilter option"
  ef_Counter :: "Envelope_CounterFilter option"
  ef_Gauge :: "Envelope_GaugeFilter option"
  ef_Timer :: "Envelope_TimerFilter option"
  ef_Event :: "Envelope_EventFilter option"

text \<open>
  In the functions below the source counts the fields of a oneof that are set and panics if there is
  more than one. Only \<open>envelopeTraverserCreatePath\<close> has more than one field to count.
\<close>

definition createPath_Envelope_Counter_Counter :: "CounterFilter option \<Rightarrow> uint64 list" where
  "createPath_Envelope_Counter_Counter f =
     (case f of None \<Rightarrow> []
      | Some f \<Rightarrow> [1] @ (case cf_Name f of Some s \<Rightarrow> [hashString s] | None \<Rightarrow> [0]))"

definition createPath_Message_Envelope_Counter :: "Envelope_CounterFilter option \<Rightarrow> uint64 list" where
  "createPath_Message_Envelope_Counter f =
     (case f of None \<Rightarrow> [] | Some f \<Rightarrow> [1] @ createPath_Envelope_Counter_Counter (ecf_Counter f))"

definition createPath_Envelope_Event_Event :: "EventFilter option \<Rightarrow> uint64 list" where
  "createPath_Envelope_Event_Event f =
     (case f of None \<Rightarrow> []
      | Some f \<Rightarrow> [1] @ (case ef_Title f of Some s \<Rightarrow> [hashString s] | None \<Rightarrow> [0])
                     @ (case ef_Body f of Some s \<Rightarrow> [hashString s] | None \<Rightarrow> [0]))"

definition createPath_Message_Envelope_Event :: "Envelope_EventFilter option \<Rightarrow> uint64 list" where
  "createPath_Message_Envelope_Event f =
     (case f of None \<Rightarrow> [] | Some f \<Rightarrow> [2] @ createPath_Envelope_Event_Event (eef_Event f))"

definition createPath_Envelope_Gauge_Gauge :: "GaugeFilter option \<Rightarrow> uint64 list" where
  "createPath_Envelope_Gauge_Gauge f =
     (case f of None \<Rightarrow> []
      | Some f \<Rightarrow> [1] @ (case gf_Metrics f of Some xs \<Rightarrow> [hashStrings xs] | None \<Rightarrow> [0]))"

definition createPath_Message_Envelope_Gauge :: "Envelope_GaugeFilter option \<Rightarrow> uint64 list" where
  "createPath_Message_Envelope_Gauge f =
     (case f of None \<Rightarrow> [] | Some f \<Rightarrow> [3] @ createPath_Envelope_Gauge_Gauge (egf_Gauge f))"

definition createPath_Envelope_Log_Log :: "LogFilter option \<Rightarrow> uint64 list" where
  "createPath_Envelope_Log_Log f = (case f of None \<Rightarrow> [] | Some _ \<Rightarrow> [1])"

definition createPath_Message_Envelope_Log :: "Envelope_LogFilter option \<Rightarrow> uint64 list" where
  "createPath_Message_Envelope_Log f =
     (case f of None \<Rightarrow> [] | Some f \<Rightarrow> [4] @ createPath_Envelope_Log_Log (elf_Log f))"

definition createPath_Envelope_Timer_Timer :: "TimerFilter option \<Rightarrow> uint64 list" where
  "createPath_Envelope_Timer_Timer f = (case f of None \<Rightarrow> [] | Some _ \<Rightarrow> [1])"

definition createPath_Message_Envelope_Timer :: "Envelope_TimerFilter option \<Rightarrow> uint64 list" where
  "createPath_Message_Envelope_Timer f =
     (case f of None \<Rightarrow> [] | Some f \<Rightarrow> [5] @ createPath_Envelope_Timer_Timer (etf_Timer f))"

text \<open>The loop that cuts trailing zeros, from index \<open>i\<close> down to 1.\<close>

fun trim_path :: "nat \<Rightarrow> uint64 list \<Rightarrow> uint64 list" where
  "trim_path 0 path = path"
| "trim_path (Suc i) path = (if path ! Suc i \<noteq> 0 then path else trim_path i (take (Suc i) path))"

definition set_count :: "bool list \<Rightarrow> nat" where
  "set_count bs = length (filter id bs)"

definition envelopeTraverserCreatePath :: "EnvelopeFilter option \<Rightarrow> uint64 list go" where
  "envelopeTraverserCreatePath f =
     (case f of
        None \<Rightarrow> Inr []
      | Some f \<Rightarrow>
          if set_count [ef_Log f \<noteq> None, ef_Counter f \<noteq> None, ef_Gauge f \<noteq> None, ef_Timer f \<noteq> None,
               ef_Event f \<noteq> None] > 1
          then Inl (ExplicitPanic ''Only one field can be set'')
          else
            let path = (case ef_SourceId f of Some s \<Rightarrow> [hashString s] | None \<Rightarrow> [0])
                  @ createPath_Message_Envelope_Counter (ef_Counter f)
                  @ createPath_Message_Envelope_Event (ef_Event f)
                  @ createPath_Message_Envelope_Gauge (ef_Gauge f)
                  @ createPath_Message_Envelope_Log (ef_Log f)
                  @ createPath_Message_Envelope_Timer (ef_Timer f)
            in Inr (trim_path (length path - 1) path))"

section \<open>Lemmas\<close>

lemma hashUint64_nonzero [simp]: "hashUint64 x \<noteq> 0"
  by (simp add: hashUint64_def)

lemma hashString_nonzero [simp]: "hashString s \<noteq> 0" "hashStrings xs \<noteq> 0"
  by (simp_all add: hashString_def hashStrings_def)

lemma foldl_hash: "foldl (\<lambda>total x. total + f x) (a :: uint64) xs = a + sum_mset (image_mset f (mset xs))"
  by (induction xs arbitrary: a) (simp_all add: add.assoc)

lemma hashStrings_mset: "mset xs = mset ys \<Longrightarrow> hashStrings xs = hashStrings ys"
  by (simp add: hashStrings_def foldl_hash)

text \<open>The paths an envelope is led to below the source identifier.\<close>

definition message_paths :: "Envelope \<Rightarrow> uint64 list list" where
  "message_paths e =
     [] # (case Message e of
        None \<Rightarrow> [[0]]
      | Some (Envelope_Log x) \<Rightarrow> [[4], (if x = None then [4, 0] else [4, 1])]
      | Some (Envelope_Timer x) \<Rightarrow> [[5], (if x = None then [5, 0] else [5, 1])]
      | Some (Envelope_Counter x) \<Rightarrow>
          (case x of None \<Rightarrow> [[1], [1, 0]]
           | Some c \<Rightarrow> [[1], [1, 1], [1, 1, 0], [1, 1, hashString (Counter_Name c)]])
      | Some (Envelope_Gauge x) \<Rightarrow>
          (case x of None \<Rightarrow> [[3], [3, 0]]
           | Some g \<Rightarrow> [[3], [3, 1], [3, 1, 0], [3, 1, hashStrings (map fst (Gauge_Metrics g))]])
      | Some (Envelope_Event x) \<Rightarrow>
          (case x of None \<Rightarrow> [[2], [2, 0]]
           | Some v \<Rightarrow>
               let t = hashString (Event_Title v); b = hashString (Event_Body v)
               in [[2], [2, 1], [2, 1, 0], [2, 1, 0, 0], [2, 1, 0, b], [2, 1, t], [2, 1, t, 0], [2, 1, t, b]]))"

definition envelope_paths :: "Envelope \<Rightarrow> uint64 list list" where
  "envelope_paths e =
     [] # map ((#) 0) (message_paths e) @ map ((#) (hashString (SourceId e))) (message_paths e)"

lemmas traverser_defs = trav_done_def paths_Message_def trav_SourceId_def
  trav_Message_Envelope_Log_Log_def trav_Message_Envelope_Timer_Timer_def
  trav_Message_Envelope_Counter_Counter_def trav_Message_Envelope_Counter_Counter_Name_def
  trav_Message_Envelope_Gauge_Gauge_def trav_Message_Envelope_Gauge_Gauge_Metrics_def
  trav_Message_Envelope_Event_Event_def trav_Message_Envelope_Event_Event_Title_def
  trav_Message_Envelope_Event_Event_Body_def log_of_def counter_of_def gauge_of_def timer_of_def event_of_def

lemma enumerates_0:
  "traverse a d 0 = None \<Longrightarrow> enumerates d a [[]]"
  using enumerates.intros [of a d "[]" "[]"] by (simp add: paths_from.simps)

lemma enumerates_1:
  "traverse a d 0 = Some (p, Some b) \<Longrightarrow> traverse a d (Suc 0) = None \<Longrightarrow> enumerates d b \<pi>s \<Longrightarrow>
   enumerates d a ([] # map ((#) p) \<pi>s)"
  using enumerates.intros [of a d "[(p, Some b)]" "[\<pi>s]"]
  by (simp add: paths_from.simps [of _ 0] paths_from.simps [of _ "Suc 0"] next_traverser_def)

lemma enumerates_2:
  "traverse a d 0 = Some (p, Some b) \<Longrightarrow> traverse a d (Suc 0) = Some (q, Some c) \<Longrightarrow>
   traverse a d (Suc (Suc 0)) = None \<Longrightarrow> enumerates d b \<pi>s \<Longrightarrow> enumerates d c \<rho>s \<Longrightarrow>
   enumerates d a ([] # map ((#) p) \<pi>s @ map ((#) q) \<rho>s)"
  using enumerates.intros [of a d "[(p, Some b), (q, Some c)]" "[\<pi>s, \<rho>s]"]
  by (simp add: paths_from.simps [of _ 0] paths_from.simps [of _ "Suc 0"] paths_from.simps [of _ "Suc (Suc 0)"]
      next_traverser_def)

lemma enum_done: "enumerates d trav_done [[]]"
  by (rule enumerates_0) (simp add: trav_done_def)

lemma enum_optional:
  "traverse a d 0 = Some (p, Some trav_done) \<Longrightarrow> traverse a d (Suc 0) = None \<Longrightarrow> enumerates d a [[], [p]]"
  using enumerates_1 [OF _ _ enum_done] by simp

lemma enum_field:
  "traverse a d 0 = Some (0, Some b) \<Longrightarrow> traverse a d (Suc 0) = Some (h, Some b) \<Longrightarrow>
   traverse a d (Suc (Suc 0)) = None \<Longrightarrow> enumerates d b \<pi>s \<Longrightarrow>
   enumerates d a ([] # map ((#) 0) \<pi>s @ map ((#) h) \<pi>s)"
  using enumerates_2 [of a d 0 b h b] by simp

lemma enum_counter_name:
  "counter_of e = Some c \<Longrightarrow>
   enumerates e trav_Message_Envelope_Counter_Counter_Name [[], [0], [hashString (Counter_Name c)]]"
  using enum_field [OF _ _ _ enum_done, of trav_Message_Envelope_Counter_Counter_Name e]
  by (simp add: trav_Message_Envelope_Counter_Counter_Name_def)

lemma enum_gauge_metrics:
  "gauge_of e = Some g \<Longrightarrow>
   enumerates e trav_Message_Envelope_Gauge_Gauge_Metrics [[], [0], [hashStrings (map fst (Gauge_Metrics g))]]"
  using enum_field [OF _ _ _ enum_done, of trav_Message_Envelope_Gauge_Gauge_Metrics e]
  by (simp add: trav_Message_Envelope_Gauge_Gauge_Metrics_def)

lemma enum_event_body:
  "event_of e = Some v \<Longrightarrow>
   enumerates e trav_Message_Envelope_Event_Event_Body [[], [0], [hashString (Event_Body v)]]"
  using enum_field [OF _ _ _ enum_done, of trav_Message_Envelope_Event_Event_Body e]
  by (simp add: trav_Message_Envelope_Event_Event_Body_def)

lemma enum_event_title:
  "event_of e = Some v \<Longrightarrow>
   enumerates e trav_Message_Envelope_Event_Event_Title
     [[], [0], [0, 0], [0, hashString (Event_Body v)], [hashString (Event_Title v)],
      [hashString (Event_Title v), 0], [hashString (Event_Title v), hashString (Event_Body v)]]"
  using enum_field [OF _ _ _ enum_event_body, of trav_Message_Envelope_Event_Event_Title e]
  by (simp add: trav_Message_Envelope_Event_Event_Title_def)

lemma enumerates_message: "enumerates e (TreeTraverser paths_Message) (message_paths e)"
proof (cases "Message e")
  case None
  then show ?thesis using enum_optional [of "TreeTraverser paths_Message" e 0]
    by (simp add: paths_Message_def message_paths_def)
next
  case (Some m)
  show ?thesis
  proof (cases m)
    case (Envelope_Log x)
    have "enumerates e trav_Message_Envelope_Log_Log [[], [if x = None then 0 else 1]]"
      by (rule enum_optional)
        (simp_all add: Some Envelope_Log trav_Message_Envelope_Log_Log_def log_of_def)
    from enumerates_1 [OF _ _ this, of "TreeTraverser paths_Message" 4] show ?thesis
      by (auto simp: paths_Message_def message_paths_def Some Envelope_Log)
  next
    case (Envelope_Timer x)
    have "enumerates e trav_Message_Envelope_Timer_Timer [[], [if x = None then 0 else 1]]"
      by (rule enum_optional)
        (simp_all add: Some Envelope_Timer trav_Message_Envelope_Timer_Timer_def timer_of_def)
    from enumerates_1 [OF _ _ this, of "TreeTraverser paths_Message" 5] show ?thesis
      by (auto simp: paths_Message_def message_paths_def Some Envelope_Timer)
  next
    case (Envelope_Counter x)
    have of: "counter_of e = x" by (simp add: counter_of_def Some Envelope_Counter)
    have "enumerates e trav_Message_Envelope_Counter_Counter (case x of None \<Rightarrow> [[], [0]]
        | Some c \<Rightarrow> [[], [1], [1, 0], [1, hashString (Counter_Name c)]])"
      using enum_optional [of trav_Message_Envelope_Counter_Counter e 0] enum_counter_name [of e]
        enumerates_1 [of trav_Message_Envelope_Counter_Counter e 1 trav_Message_Envelope_Counter_Counter_Name]
      by (cases x) (fastforce simp: of trav_Message_Envelope_Counter_Counter_def)+
    from enumerates_1 [OF _ _ this, of "TreeTraverser paths_Message" 1] show ?thesis
      by (cases x) (auto simp: paths_Message_def message_paths_def Some Envelope_Counter)
  next
    case (Envelope_Gauge x)
    have of: "gauge_of e = x" by (simp add: gauge_of_def Some Envelope_Gauge)
    have "enumerates e trav_Message_Envelope_Gauge_Gauge (case x of None \<Rightarrow> [[], [0]]
        | Some c \<Rightarrow> [[], [1], [1, 0], [1, hashStrings (map fst (Gauge_Metrics c))]])"
      using enum_optional [of trav_Message_Envelope_Gauge_Gauge e 0] enum_gauge_metrics [of e]
        enumerates_1 [of trav_Message_Envelope_Gauge_Gauge e 1 trav_Message_Envelope_Gauge_Gauge_Metrics]
      by (cases x) (fastforce simp: of trav_Message_Envelope_Gauge_Gauge_def)+
    from enumerates_1 [OF _ _ this, of "TreeTraverser paths_Message" 3] show ?thesis
      by (cases x) (auto simp: paths_Message_def message_paths_def Some Envelope_Gauge)
  next
    case (Envelope_Event x)
    have of: "event_of e = x" by (simp add: event_of_def Some Envelope_Event)
    have "enumerates e trav_Message_Envelope_Event_Event (case x of None \<Rightarrow> [[], [0]]
        | Some v \<Rightarrow> let t = hashString (Event_Title v); b = hashString (Event_Body v)
            in [[], [1], [1, 0], [1, 0, 0], [1, 0, b], [1, t], [1, t, 0], [1, t, b]])"
      using enum_optional [of trav_Message_Envelope_Event_Event e 0] enum_event_title [of e]
        enumerates_1 [of trav_Message_Envelope_Event_Event e 1 trav_Message_Envelope_Event_Event_Title]
      by (cases x) (fastforce simp: of trav_Message_Envelope_Event_Event_def Let_def)+
    from enumerates_1 [OF _ _ this, of "TreeTraverser paths_Message" 2] show ?thesis
      by (cases x) (auto simp: paths_Message_def message_paths_def Some Envelope_Event Let_def)
  qed
qed

lemma enumerates_envelope: "enumerates e envelopeTraverserTraverse (envelope_paths e)"
  using enum_field [OF _ _ _ enumerates_message, of envelopeTraverserTraverse e]
  by (simp add: envelopeTraverserTraverse_def trav_SourceId_def envelope_paths_def)

lemma distinct_message_paths: "distinct (message_paths e)"
  by (auto simp: message_paths_def Let_def split: option.splits Envelope_Message.splits)

lemma distinct_envelope_paths: "distinct (envelope_paths e)"
  using distinct_message_paths [of e] hashString_nonzero(1) [of "SourceId e", symmetric]
  by (auto simp: envelope_paths_def distinct_map)

end
