(* ===== verification/RouterV2.thy ===== *)
theory RouterV2
  imports EnvelopeTraverser
begin

text \<open>
  \<open>router/internal/server/v2/pubsub.go\<close>: subscriptions by selector and publishing of v2 envelopes.

  A subscription function is represented by the data it closes over, the source identifier of the
  selector and the \<open>DataSetter\<close>; \<open>subscription\<close> says what calling it does. The random draws are
  parameters: one draw per subscription for its identifier, one draw per published envelope for
  \<open>rand.Uint64()\<close> in \<open>hashEnvelope\<close>, and \<open>rand\<close> for the choice within shards.
\<close>

section \<open>Definitions\<close>

record 'w sub_closure =
  sc_sourceID :: string
  sc_setter :: 'w

text \<open>The calls of \<open>d.Set(e)\<close> that a subscription makes when it is invoked with \<open>e\<close>.\<close>

definition subscription :: "'w sub_closure \<Rightarrow> Envelope \<Rightarrow> ('w \<times> Envelope) list" where
  "subscription c e =
     (if sc_sourceID c \<noteq> [] \<and> sc_sourceID c \<noteq> SourceId e then [] else [(sc_setter c, e)])"

definition hashEnvelope :: "uint64 \<Rightarrow> Envelope \<Rightarrow> uint64" where
  "hashEnvelope r e =
     (case Message e of
        Some (Envelope_Counter c) \<Rightarrow>
          crc64_Checksum (bytes_of_string (case c of None \<Rightarrow> [] | Some c \<Rightarrow> Counter_Name c))
      | Some (Envelope_Gauge g) \<Rightarrow>
          foldl (\<lambda>h name. h + crc64_Checksum (bytes_of_string name)) 0
            (case g of None \<Rightarrow> [] | Some g \<Rightarrow> map fst (Gauge_Metrics g))
      | _ \<Rightarrow> r)"

definition EnvelopeFilter_empty :: EnvelopeFilter where
  "EnvelopeFilter_empty =
     \<lparr>ef_SourceId = None, ef_Log = None, ef_Counter = None, ef_Gauge = None, ef_Timer = None, ef_Event = None\<rparr>"

definition buildFilter :: "Selector \<Rightarrow> EnvelopeFilter" where
  "buildFilter s =
     (let f = EnvelopeFilter_empty;
          f = (if Selector_SourceId s \<noteq> [] then f\<lparr>ef_SourceId := Some (Selector_SourceId s)\<rparr> else f)
      in case Selector_Message s of
           Some Selector_Log \<Rightarrow> f\<lparr>ef_Log := Some \<lparr>elf_Log = None\<rparr>\<rparr>
         | Some (Selector_Counter c) \<Rightarrow>
             let name = (case c of None \<Rightarrow> [] | Some c \<Rightarrow> CounterSelector_Name c)
             in f\<lparr>ef_Counter := Some \<lparr>ecf_Counter = (if name \<noteq> [] then Some \<lparr>cf_Name = Some name\<rparr> else None)\<rparr>\<rparr>
         | Some (Selector_Gauge g) \<Rightarrow>
             let names = (case g of None \<Rightarrow> [] | Some g \<Rightarrow> GaugeSelector_Names g)
             in f\<lparr>ef_Gauge := Some \<lparr>egf_Gauge = (if length names \<noteq> 0 then Some \<lparr>gf_Metrics = Some names\<rparr> else None)\<rparr>\<rparr>
         | Some Selector_Timer \<Rightarrow> f\<lparr>ef_Timer := Some \<lparr>etf_Timer = None\<rparr>\<rparr>
         | Some Selector_Event \<Rightarrow> f\<lparr>ef_Event := Some \<lparr>eef_Event = None\<rparr>\<rparr>
         | None \<Rightarrow> f)"

text \<open>
  The loop of \<open>Subscribe\<close>: one subscription per selector with a message; the handles are what the
  returned function passes to \<open>cleanupSubscriptionTree\<close>, in order. \<open>rs\<close> are the random draws.
\<close>

type_synonym handle = "(uint64 list \<times> string) \<times> uint64"

fun v2_Subscribe_loop ::
    "(nat \<Rightarrow> uint64) \<Rightarrow> nat \<Rightarrow> EgressBatchRequest \<Rightarrow> 'w \<Rightarrow> Selector list \<Rightarrow> 'w sub_closure Node \<Rightarrow>
     (handle list \<times> 'w sub_closure Node) go option" where
  "v2_Subscribe_loop rs k req setter [] n = Some (Inr ([], n))"
| "v2_Subscribe_loop rs k req setter (s # ss) n =
     (if Selector_Message s = None then v2_Subscribe_loop rs k req setter ss n
      else
        case envelopeTraverserCreatePath (Some (buildFilter s)) of
          Inl e \<Rightarrow> Some (Inl e)
        | Inr path \<Rightarrow>
            (case PubSub_Subscribe (rs k) \<lparr>sc_sourceID = Selector_SourceId s, sc_setter = setter\<rparr>
                    (ebr_ShardId req) (ebr_DeterministicName req) path n of
               None \<Rightarrow> None
             | Some (i, n) \<Rightarrow>
                 (case v2_Subscribe_loop rs (Suc k) req setter ss n of
                    Some (Inr (hs, n)) \<Rightarrow> Some (Inr (((path, ebr_ShardId req), i) # hs, n))
                  | x \<Rightarrow> x)))"

definition v2_Subscribe ::
    "(nat \<Rightarrow> uint64) \<Rightarrow> EgressBatchRequest \<Rightarrow> 'w \<Rightarrow> 'w sub_closure Node \<Rightarrow>
     (handle list \<times> 'w sub_closure Node) go option" where
  "v2_Subscribe rs req setter n = v2_Subscribe_loop rs 0 req setter (ebr_Selectors req) n"

text \<open>The function that \<open>Subscribe\<close> returns.\<close>

fun v2_unsubscribe :: "handle list \<Rightarrow> 'w sub_closure Node \<Rightarrow> 'w sub_closure Node go" where
  "v2_unsubscribe [] n = Inr n"
| "v2_unsubscribe ((k, i) # hs) n =
     (case cleanupSubscriptionTree (Some n) i (fst k) of
        Inl e \<Rightarrow> Inl e
      | Inr None \<Rightarrow> Inl NilDereference
      | Inr (Some n) \<Rightarrow> v2_unsubscribe hs n)"

text \<open>\<open>Publish\<close>: the calls of \<open>Set\<close> it makes.\<close>

definition v2_Publish ::
    "uint64 \<Rightarrow> (uint64 list \<Rightarrow> string \<Rightarrow> nat \<Rightarrow> nat) \<Rightarrow> Envelope \<Rightarrow> 'w sub_closure Node \<Rightarrow>
     ('w \<times> Envelope) list go option" where
  "v2_Publish r rand e n =
     map_option (map_sum id (\<lambda>ss. concat (map (\<lambda>s. subscription (se_Subscription s) e) ss)))
       (PubSub_Publish (hashEnvelope r) rand e envelopeTraverserTraverse n)"

section \<open>Selectors and the paths they subscribe at\<close>

text \<open>
  What a selector asks for. Source identifiers are compared as strings; counter names and the
  multiset of gauge names only by their 64-bit keys, as the tree has no second check for them.
\<close>

definition source_matches :: "string \<Rightarrow> Envelope \<Rightarrow> bool" where
  "source_matches src e \<longleftrightarrow> src = [] \<or> src = SourceId e"

fun message_matches :: "Selector_Message \<Rightarrow> Envelope_Message option \<Rightarrow> bool" where
  "message_matches Selector_Log (Some (Envelope_Log _)) = True"
| "message_matches Selector_Timer (Some (Envelope_Timer _)) = True"
| "message_matches Selector_Event (Some (Envelope_Event _)) = True"
| "message_matches (Selector_Counter None) (Some (Envelope_Counter _)) = True"
| "message_matches (Selector_Counter (Some s)) (Some (Envelope_Counter c)) =
     (CounterSelector_Name s = [] \<or>
      (\<exists>c'. c = Some c' \<and> hashString (Counter_Name c') = hashString (CounterSelector_Name s)))"
| "message_matches (Selector_Gauge None) (Some (Envelope_Gauge _)) = True"
| "message_matches (Selector_Gauge (Some s)) (Some (Envelope_Gauge g)) =
     (GaugeSelector_Names s = [] \<or>
      (\<exists>g'. g = Some g' \<and> hashStrings (map fst (Gauge_Metrics g')) = hashStrings (GaugeSelector_Names s)))"
| "message_matches _ _ = False"

definition selector_path :: "Selector \<Rightarrow> uint64 list" where
  "selector_path s =
     (if Selector_SourceId s = [] then 0 else hashString (Selector_SourceId s)) #
     (case Selector_Message s of
        None \<Rightarrow> []
      | Some Selector_Log \<Rightarrow> [4]
      | Some Selector_Timer \<Rightarrow> [5]
      | Some Selector_Event \<Rightarrow> [2]
      | Some (Selector_Counter c) \<Rightarrow>
          (case c of None \<Rightarrow> [1] | Some c \<Rightarrow>
             if CounterSelector_Name c = [] then [1] else [1, 1, hashString (CounterSelector_Name c)])
      | Some (Selector_Gauge g) \<Rightarrow>
          (case g of None \<Rightarrow> [3] | Some g \<Rightarrow>
             if GaugeSelector_Names g = [] then [3] else [3, 1, hashStrings (GaugeSelector_Names g)]))"

lemma createPath_buildFilter:
  "envelopeTraverserCreatePath (Some (buildFilter s)) = Inr (selector_path s)"
  by (cases "Selector_Message s"; cases "the (Selector_Message s)")
    (auto simp: envelopeTraverserCreatePath_def buildFilter_def EnvelopeFilter_empty_def set_count_def
      selector_path_def createPath_Message_Envelope_Counter_def createPath_Message_Envelope_Event_def
      createPath_Message_Envelope_Gauge_def createPath_Message_Envelope_Log_def
      createPath_Message_Envelope_Timer_def createPath_Envelope_Counter_Counter_def
      createPath_Envelope_Event_Event_def createPath_Envelope_Gauge_Gauge_def
      createPath_Envelope_Log_Log_def createPath_Envelope_Timer_Timer_def Let_def
      split: option.splits)

lemma selector_path_visited:
  assumes "Selector_Message s = Some m"
  shows "selector_path s \<in> set (envelope_paths e) \<longleftrightarrow>
    (Selector_SourceId s = [] \<or> hashString (Selector_SourceId s) = hashString (SourceId e)) \<and>
    message_matches m (Message e)"
proof -
  have "tl (selector_path s) \<in> set (message_paths e) \<longleftrightarrow> message_matches m (Message e)"
    using hashString_nonzero [symmetric] assms
    by (cases m; cases "Message e"; cases "the (Message e)")
      (auto simp: selector_path_def message_paths_def Let_def split: option.splits)
  moreover have "selector_path s \<in> set (envelope_paths e) \<longleftrightarrow>
      (hd (selector_path s) = 0 \<or> hd (selector_path s) = hashString (SourceId e)) \<and>
      tl (selector_path s) \<in> set (message_paths e)"
    by (auto simp: envelope_paths_def selector_path_def)
  moreover have "hd (selector_path s) = 0 \<longleftrightarrow> Selector_SourceId s = []"
    by (simp add: selector_path_def)
  moreover have "Selector_SourceId s \<noteq> [] \<Longrightarrow> hd (selector_path s) = hashString (Selector_SourceId s)"
    by (simp add: selector_path_def)
  ultimately show ?thesis by metis
qed

section \<open>Subscribing with a request\<close>

text \<open>
  The router as a subscription store: \<open>v2_run L n\<close> says that the tree \<open>n\<close> is reached by subscribing and
  unsubscribing, and that the subscriptions in \<open>L\<close> are those not unsubscribed. An element of \<open>L\<close> is a
  key (path and shard), an identifier, and the closure with its routing name.
\<close>

type_synonym 'w live = "(uint64 list \<times> string) \<times> uint64 \<times> 'w sub_closure \<times> string"

definition v2_run :: "'w live multiset \<Rightarrow> 'w sub_closure Node \<Rightarrow> bool" where
  "v2_run = store_run tree_subscribe tree_unsubscribe Node_New"

definition live_of :: "EgressBatchRequest \<Rightarrow> 'w \<Rightarrow> Selector \<Rightarrow> handle \<Rightarrow> 'w live" where
  "live_of req w s h =
     (fst h, snd h, \<lparr>sc_sourceID = Selector_SourceId s, sc_setter = w\<rparr>, ebr_DeterministicName req)"

abbreviation with_message :: "Selector list \<Rightarrow> Selector list" where
  "with_message ss \<equiv> filter (\<lambda>s. Selector_Message s \<noteq> None) ss"

lemma v2_run_start: "v2_run {#} Node_New"
  by (simp add: v2_run_def store_run.start)

lemma v2_run_held:
  "v2_run L n \<Longrightarrow> tree_ok n" "v2_run L n \<Longrightarrow> tree_held k n = image_mset snd (filter_mset (\<lambda>x. fst x = k) L)"
  using tree.run_held unfolding v2_run_def by blast+

lemma v2_run_subscribe:
  "v2_run L n \<Longrightarrow> PubSub_Subscribe r c sh dn \<pi> n = Some (i, n') \<Longrightarrow> v2_run (add_mset ((\<pi>, sh), i, c, dn) L) n'"
  using store_run.sub [of tree_subscribe tree_unsubscribe Node_New L n r "(\<pi>, sh)" "(c, dn)" i n']
  by (simp add: v2_run_def tree_subscribe_def)

lemma v2_run_unsubscribe:
  assumes "v2_run (add_mset (k, i, f) L) n"
  shows "\<exists>n'. cleanupSubscriptionTree (Some n) i (fst k) = Inr (Some n') \<and> v2_run L n'"
proof -
  obtain n' where n': "tree_unsubscribe i k n = Inr n'"
    using tree.run_unsubscribe [OF assms [unfolded v2_run_def], of k i f] by auto
  then have "cleanupSubscriptionTree (Some n) i (fst k) = Inr (Some n')"
    by (auto simp: tree_unsubscribe_def split: sum.splits option.splits)
  moreover have "v2_run L n'"
    using store_run.unsub [OF assms [unfolded v2_run_def] _ n', of f] by (simp add: v2_run_def)
  ultimately show ?thesis by blast
qed

lemma card_set_mset_size: "card (set_mset M) \<le> size M"
  by (induction M) (auto simp: card_insert_if)

lemma v2_run_shards:
  assumes "v2_run L n" and "node_at \<pi> n = Some m"
  shows "length (n_shards m) \<le> size L"
proof -
  have ok: "node_ok m" using tree_ok_node [OF tree_ok_node_at [OF v2_run_held(1) [OF assms(1)] assms(2)]] .
  then have dist: "distinct (n_shards m)" by (auto simp: node_ok_def gomap_wf_def distinct_map)
  have "(\<lambda>(i, sh). ((\<pi>, sh), i)) ` set (n_shards m) \<subseteq> set_mset (image_mset (\<lambda>(k, i, f). (k, i)) L)"
  proof clarify
    fix i sh assume "(i, sh) \<in> set (n_shards m)"
    then have "map_of (n_shards m) i = Some sh" using ok by (auto simp: node_ok_def intro: gomap_wf_map_of)
    then obtain e where "e \<in> set (shard_envs sh m)" "se_id e = i" using ok unfolding node_ok_def by blast
    then have "(i, se_Subscription e, se_dName e) \<in># tree_held (\<pi>, sh) n"
      using assms(2) by (force simp: tree_held_def envs_at_def)
    then show "((\<pi>, sh), i) \<in># image_mset (\<lambda>(k, i, f). (k, i)) L"
      unfolding v2_run_held(2) [OF assms(1)] by force
  qed
  then have "card ((\<lambda>(i, sh). ((\<pi>, sh), i)) ` set (n_shards m)) \<le> card (set_mset (image_mset (\<lambda>(k, i, f). (k, i)) L))"
    by (intro card_mono) simp_all
  also have "\<dots> \<le> size L" using card_set_mset_size [of "image_mset (\<lambda>(k, i, f). (k, i)) L"] by simp
  also have "card ((\<lambda>(i, sh). ((\<pi>, sh), i)) ` set (n_shards m)) = card (set (n_shards m))"
    by (rule card_image) (auto simp: inj_on_def)
  finally show ?thesis using dist by (simp add: distinct_card)
qed

lemma v2_Subscribe_loop_spec:
  assumes "v2_run L n" and "size L + length ss < 2 ^ 64"
  shows "\<exists>hs n'. v2_Subscribe_loop rs k req w ss n = Some (Inr (hs, n')) \<and>
    map fst hs = map (\<lambda>s. (selector_path s, ebr_ShardId req)) (with_message ss) \<and>
    v2_run (mset (map2 (live_of req w) (with_message ss) hs) + L) n'"
  using assms
proof (induction ss arbitrary: k n L)
  case (Cons s ss)
  show ?case
  proof (cases "Selector_Message s")
    case None
    with Cons.IH [of L n k] Cons.prems show ?thesis by simp
  next
    case (Some m)
    have "length (n_shards m) < 2 ^ 64" if "node_at (selector_path s) n = Some m" for m
      using v2_run_shards [OF Cons.prems(1) that] Cons.prems(2) by simp
    from subscribe_returns [OF this] obtain i n1 where
      sub: "PubSub_Subscribe (rs k) \<lparr>sc_sourceID = Selector_SourceId s, sc_setter = w\<rparr> (ebr_ShardId req)
        (ebr_DeterministicName req) (selector_path s) n = Some (i, n1)" by blast
    from Cons.IH [OF v2_run_subscribe [OF Cons.prems(1) sub], of "Suc k"] Cons.prems(2) Some sub
    show ?thesis by (auto simp: createPath_buildFilter live_of_def)
  qed
qed simp

lemma v2_unsubscribe_spec:
  assumes "v2_run (mset (map2 (live_of req w) ss hs) + L) n" and "length ss = length hs"
  shows "\<exists>n'. v2_unsubscribe hs n = Inr n' \<and> v2_run L n'"
  using assms(2,1)
proof (induction ss hs arbitrary: n rule: list_induct2)
  case (Cons s ss h hs)
  obtain k i where h: "h = (k, i)" by fastforce
  from Cons.prems obtain f where "v2_run (add_mset (k, i, f) (mset (map2 (live_of req w) ss hs) + L)) n"
    by (auto simp: h live_of_def)
  from v2_run_unsubscribe [OF this] Cons.IH show ?case by (auto simp: h)
qed simp

section \<open>Publishing\<close>

lemma calls_sum:
  assumes "finite K" and "\<And>e. c e = (if G (g e) then {#F (g e)#} else {#})"
  shows "sum_mset (image_mset c (\<Sum>k\<in>K. M k)) =
    image_mset (F \<circ> snd) (filter_mset (G \<circ> snd) (\<Sum>k\<in>K. image_mset (\<lambda>e. (k, g e)) (M k)))"
  using assms(1)
proof (induction rule: finite_induct)
  case (insert k K)
  have "sum_mset (image_mset c A) =
      image_mset (F \<circ> snd) (filter_mset (G \<circ> snd) (image_mset (\<lambda>e. (k, g e)) A))" for A
    by (induction A) (simp_all add: assms(2))
  with insert show ?case by (simp add: comp_def)
qed simp

lemma finite_shards: "finite {sh. envs_at \<pi> sh n \<noteq> []}"
proof (cases "node_at \<pi> n")
  case (Some m)
  have "{sh. envs_at \<pi> sh n \<noteq> []} \<subseteq> fst ` set (n_subscriptions m)"
    using Some by (auto simp: envs_at_def shard_envs_def dom_map_of_conv_image_fst [symmetric] split: option.splits)
  then show ?thesis by (rule finite_subset) simp
qed (simp add: envs_at_def)

lemma v2_run_small:
  assumes "v2_run L n" and "size L < 2 ^ 64"
  shows "small_tree n"
  unfolding small_tree_def
proof (intro allI)
  fix \<pi> sh
  have "length (envs_at \<pi> sh n) = size (tree_held (\<pi>, sh) n)" by (simp add: tree_held_def)
  also have "\<dots> \<le> size L" unfolding v2_run_held(2) [OF assms(1)] by (simp add: size_filter_mset_lesseq)
  finally show "length (envs_at \<pi> sh n) < 2 ^ 64" using assms(2) by simp
qed

text \<open>What is delivered under one key: everything without a shard, one subscription otherwise.\<close>

definition key_delivers :: "Envelope \<Rightarrow> uint64 list \<times> string \<Rightarrow> 'w live multiset \<Rightarrow> 'w live multiset \<Rightarrow> bool" where
  "key_delivers e k L D \<longleftrightarrow>
     (if fst k \<notin> set (envelope_paths e) then D = {#}
      else if snd k = [] then D = L
      else D \<subseteq># L \<and> size D = (if L = {#} then 0 else 1))"

definition live_env :: "'w sub_closure SubscriptionEnvelope \<Rightarrow> uint64 \<times> 'w sub_closure \<times> string" where
  "live_env e = (se_id e, se_Subscription e, se_dName e)"

lemma v2_run_key:
  assumes "v2_run L n"
  shows "filter_mset (\<lambda>x. fst x = k) L = image_mset (\<lambda>en. (k, live_env en)) (mset (envs_at (fst k) (snd k) n))"
proof -
  have "filter_mset (\<lambda>x. fst x = k) L = image_mset (Pair k) (image_mset snd (filter_mset (\<lambda>x. fst x = k) L))"
    by (induction L) auto
  also have "image_mset snd (filter_mset (\<lambda>x. fst x = k) L) = tree_held k n"
    by (rule v2_run_held(2) [OF assms, symmetric])
  finally show ?thesis by (simp add: tree_held_def live_env_def multiset.map_comp comp_def)
qed

lemma v2_publish_spec:
  fixes n :: "'w sub_closure Node" and L :: "'w live multiset"
  assumes run: "v2_run L n" and rand: "\<And>\<pi> sh l. 0 < l \<Longrightarrow> rand \<pi> sh l < l" and size: "size L < 2 ^ 64"
  shows "\<exists>calls D. v2_Publish r rand e n = Some (Inr calls) \<and>
    mset calls = image_mset (\<lambda>x. (sc_setter (fst (snd (snd x))), e))
      (filter_mset (\<lambda>x. source_matches (sc_sourceID (fst (snd (snd x)))) e) D) \<and>
    (\<forall>k. key_delivers e k (filter_mset (\<lambda>x. fst x = k) L) (filter_mset (\<lambda>x. fst x = k) D))"
proof -
  note small = v2_run_small [OF run size]
  let ?h = "hashEnvelope r e"
  define P where "P = set (envelope_paths e)"
  define K where "K = Sigma P (\<lambda>\<pi>. {sh. envs_at \<pi> sh n \<noteq> []})"
  define M where "M = (\<lambda>k. mset (pick ?h (rand (fst k) (snd k)) (snd k) (envs_at (fst k) (snd k) n)))"
  define D where "D = (\<Sum>k\<in>K. image_mset (\<lambda>en. (k, live_env en)) (M k))"
  have fin: "finite K" by (auto simp: K_def P_def finite_shards)
  obtain ys where ys: "PubSub_Publish (hashEnvelope r) rand e envelopeTraverserTraverse n = Some (Inr ys)"
    "mset ys = sum_list (map (picks ?h rand n) (envelope_paths e))"
    using publish_picks [where rand = rand, OF enumerates_envelope v2_run_held(1) [OF run] _ small] rand by blast
  have "mset ys = (\<Sum>\<pi>\<in>P. picks ?h rand n \<pi>)"
    unfolding ys(2) P_def by (rule sum_list_distinct_conv_sum_set [OF distinct_envelope_paths])
  also have "\<dots> = (\<Sum>(\<pi>, sh)\<in>K. M (\<pi>, sh))"
    unfolding K_def picks_def M_def by (subst sum.Sigma) (auto simp: P_def finite_shards)
  finally have mys: "mset ys = (\<Sum>k\<in>K. M k)" by simp
  define c where "c = (\<lambda>en :: 'w sub_closure SubscriptionEnvelope. mset (subscription (se_Subscription en) e))"
  let ?G = "\<lambda>x :: uint64 \<times> 'w sub_closure \<times> string. source_matches (sc_sourceID (fst (snd x))) e"
  let ?F = "\<lambda>x :: uint64 \<times> 'w sub_closure \<times> string. (sc_setter (fst (snd x)), e)"
  have c: "c en = (if ?G (live_env en) then {#?F (live_env en)#} else {#})" for en
    by (auto simp: c_def subscription_def source_matches_def live_env_def)
  let ?calls = "concat (map (\<lambda>s. subscription (se_Subscription s) e) ys)"
  have "mset ?calls = sum_mset (image_mset c (mset ys))"
    by (simp add: c_def mset_concat comp_def sum_mset_sum_list [symmetric])
  also have "\<dots> = image_mset (?F \<circ> snd) (filter_mset (?G \<circ> snd) D)"
    unfolding mys D_def by (rule calls_sum [where G = ?G and F = ?F and g = live_env, OF fin c])
  finally have calls: "mset ?calls = image_mset (?F \<circ> snd) (filter_mset (?G \<circ> snd) D)" .
  have key: "key_delivers e k (filter_mset (\<lambda>x. fst x = k) L) (filter_mset (\<lambda>x. fst x = k) D)" for k
  proof -
    have D: "filter_mset (\<lambda>x. fst x = k) D = (if k \<in> K then image_mset (\<lambda>en. (k, live_env en)) (M k) else {#})"
      unfolding D_def by (rule filter_key_sum [OF fin])
    have inK: "k \<in> K \<longleftrightarrow> fst k \<in> P \<and> envs_at (fst k) (snd k) n \<noteq> []" by (cases k) (simp add: K_def)
    have "M k \<subseteq># mset (envs_at (fst k) (snd k) n)" if "snd k \<noteq> []" "envs_at (fst k) (snd k) n \<noteq> []"
      using that rand [of "length (envs_at (fst k) (snd k) n)"]
      by (auto simp: M_def pick_def intro: nth_mem)
    moreover have "size (M k) = 1" if "snd k \<noteq> []" using that by (simp add: M_def pick_def)
    moreover have "M k = mset (envs_at (fst k) (snd k) n)" if "snd k = []" using that by (simp add: M_def pick_def)
    ultimately show ?thesis
      unfolding key_delivers_def D v2_run_key [OF run] inK P_def
      by (cases "envs_at (fst k) (snd k) n = []") (auto intro: image_mset_subseteq_mono)
  qed
  have "v2_Publish r rand e n = Some (Inr ?calls)" by (simp add: v2_Publish_def ys(1))
  with calls key show ?thesis by (auto simp: comp_def)
qed

lemma key_delivers_single:
  assumes "key_delivers e k L D" and "L \<noteq> {#} \<Longrightarrow> fst k \<in> set (envelope_paths e)" and "size L \<le> 1"
  shows "D = L"
proof (cases "L = {#}")
  case True
  with assms(1) show ?thesis by (auto simp: key_delivers_def split: if_splits)
next
  case False
  then have "size L = 1" using assms(3) by (metis Suc_le_eq One_nat_def le_antisym nonempty_has_size)
  with False assms(1,2) show ?thesis
    by (auto simp: key_delivers_def split: if_splits dest!: mset_subset_size [OF subset_mset.le_neq_trans])
qed

lemma mset_eq_by_key: "(\<And>k. filter_mset (\<lambda>x. fst x = k) D = filter_mset (\<lambda>x. fst x = k) L) \<Longrightarrow> D = L"
proof (rule multiset_eqI)
  fix x assume "\<And>k. filter_mset (\<lambda>x. fst x = k) D = filter_mset (\<lambda>x. fst x = k) L"
  then have "count (filter_mset (\<lambda>y. fst y = fst x) D) x = count (filter_mset (\<lambda>y. fst y = fst x) L) x" by simp
  then show "count D x = count L x" by simp
qed

definition log_request :: "string \<Rightarrow> string \<Rightarrow> EgressBatchRequest" where
  "log_request sh src =
     \<lparr>ebr_ShardId = sh, ebr_DeterministicName = [], ebr_LegacySelector = None,
      ebr_Selectors = [\<lparr>Selector_SourceId = src, Selector_Message = Some Selector_Log\<rparr>], ebr_UsePreferredTags = True\<rparr>"

lemma log_request_sel:
  "ebr_ShardId (log_request sh src) = sh" "ebr_DeterministicName (log_request sh src) = []"
  "with_message (ebr_Selectors (log_request sh src)) = [\<lparr>Selector_SourceId = src, Selector_Message = Some Selector_Log\<rparr>]"
  "length (ebr_Selectors (log_request sh src)) = 1"
  "selector_path \<lparr>Selector_SourceId = src, Selector_Message = Some Selector_Log\<rparr> =
    [if src = [] then 0 else hashString src, 4]"
  by (auto simp: log_request_def selector_path_def)

lemma log_request_subscribe:
  assumes "v2_run L n" and "size L + 1 < 2 ^ 64"
  shows "\<exists>i n'. v2_Subscribe rs (log_request sh src) w n =
      Some (Inr ([(([if src = [] then 0 else hashString src, 4], sh), i)], n')) \<and>
    v2_run (add_mset (([if src = [] then 0 else hashString src, 4], sh), i,
      \<lparr>sc_sourceID = src, sc_setter = w\<rparr>, []) L) n'"
proof -
  have len: "size L + length (ebr_Selectors (log_request sh src)) < 2 ^ 64"
    using assms(2) by (simp add: log_request_sel)
  obtain hs n' where sub: "v2_Subscribe rs (log_request sh src) w n = Some (Inr (hs, n'))"
    and keys: "map fst hs = [([if src = [] then 0 else hashString src, 4], sh)]"
    and run: "v2_run (mset (map2 (live_of (log_request sh src) w)
       [\<lparr>Selector_SourceId = src, Selector_Message = Some Selector_Log\<rparr>] hs) + L) n'"
    using v2_Subscribe_loop_spec [OF assms(1) len, of rs 0 "log_request sh src" w,
        unfolded log_request_sel list.map] that unfolding v2_Subscribe_def by (elim exE conjE)
  from keys obtain i where hs: "hs = [(([if src = [] then 0 else hashString src, 4], sh), i)]" by auto
  from run have "v2_run (add_mset (([if src = [] then 0 else hashString src, 4], sh), i,
      \<lparr>sc_sourceID = src, sc_setter = w\<rparr>, []) L) n'"
    unfolding hs by (simp add: live_of_def log_request_sel)
  with sub hs show ?thesis by blast
qed

section \<open>Properties\<close>

text \<open>
  C7. Routing of v2 envelopes: whatever requests were subscribed and unsubscribed before, \<open>Publish\<close>
  returns without a panic and sets the envelope, for each path the envelope is led to, on all setters
  subscribed there without a shard and on exactly one setter of every other shard subscribed there,
  except that a setter whose selector names another source identifier is skipped. No other setter is
  called.
\<close>

theorem v2_Publish_routes:
  assumes "v2_run L n" and "\<And>\<pi> sh l. 0 < l \<Longrightarrow> rand \<pi> sh l < l" and "size L < 2 ^ 64"
  shows "\<exists>calls D. v2_Publish r rand e n = Some (Inr calls) \<and>
    mset calls = image_mset (\<lambda>x. (sc_setter (fst (snd (snd x))), e))
      (filter_mset (\<lambda>x. source_matches (sc_sourceID (fst (snd (snd x)))) e) D) \<and>
    (\<forall>k. key_delivers e k (filter_mset (\<lambda>x. fst x = k) L) (filter_mset (\<lambda>x. fst x = k) D))"
  by (rule v2_publish_spec [OF assms])

theorem v2_Publish_routes_witness:
  "\<exists>i n calls D. v2_Subscribe (\<lambda>_. 7) (log_request ''s'' []) (5 :: nat) Node_New = Some (Inr ([(([0, 4], ''s''), i)], n)) \<and>
    v2_Publish 3 (\<lambda>_ _ _. 0) Envelope_empty n = Some (Inr calls) \<and>
    mset calls = image_mset (\<lambda>x. (sc_setter (fst (snd (snd x))), Envelope_empty))
      (filter_mset (\<lambda>x. source_matches (sc_sourceID (fst (snd (snd x)))) Envelope_empty) D) \<and>
    (\<forall>k. key_delivers Envelope_empty k
       (filter_mset (\<lambda>x. fst x = k) {#(([0, 4], ''s''), i, \<lparr>sc_sourceID = [], sc_setter = 5\<rparr>, [])#}) (filter_mset (\<lambda>x. fst x = k) D))"
proof -
  obtain i n where n: "v2_Subscribe (\<lambda>_. 7) (log_request ''s'' []) (5 :: nat) Node_New = Some (Inr ([(([0, 4], ''s''), i)], n))"
    "v2_run {#(([0, 4], ''s''), i, \<lparr>sc_sourceID = [], sc_setter = 5\<rparr>, [])#} n"
    using log_request_subscribe [OF v2_run_start, of "\<lambda>_. 7" "''s''" "[]" "5 :: nat"] by auto
  from v2_Publish_routes [OF n(2), of "\<lambda>_ _ _. 0" 3 Envelope_empty] n(1) show ?thesis by auto
qed

text \<open>
  C19. The path of a selector is one of the paths of an envelope, and the guard of its subscription lets
  the envelope through, exactly when the selector asks for the envelope: the source identifiers are
  equal as strings (or the selector has none), the message types agree, and the counter name or the
  gauge names agree up to the 64-bit keys. The path never panics.
\<close>

theorem v2_selector_matches:
  assumes "Selector_Message s = Some m"
  shows "\<exists>\<pi>. envelopeTraverserCreatePath (Some (buildFilter s)) = Inr \<pi> \<and>
    (\<pi> \<in> set (envelope_paths e) \<and> subscription \<lparr>sc_sourceID = Selector_SourceId s, sc_setter = w\<rparr> e = [(w, e)] \<longleftrightarrow>
     source_matches (Selector_SourceId s) e \<and> message_matches m (Message e))"
  using selector_path_visited [OF assms, of e]
  by (auto simp: createPath_buildFilter subscription_def source_matches_def)

theorem v2_selector_matches_witness:
  "\<exists>\<pi>. envelopeTraverserCreatePath (Some (buildFilter \<lparr>Selector_SourceId = ''app'', Selector_Message = Some Selector_Log\<rparr>)) = Inr \<pi> \<and>
    (\<pi> \<in> set (envelope_paths (Envelope_empty\<lparr>SourceId := ''app'', Message := Some (Envelope_Log None)\<rparr>)) \<and>
     subscription \<lparr>sc_sourceID = ''app'', sc_setter = ()\<rparr> (Envelope_empty\<lparr>SourceId := ''app'', Message := Some (Envelope_Log None)\<rparr>)
       = [((), Envelope_empty\<lparr>SourceId := ''app'', Message := Some (Envelope_Log None)\<rparr>)] \<longleftrightarrow> True)"
  using v2_selector_matches [of "\<lparr>Selector_SourceId = ''app'', Selector_Message = Some Selector_Log\<rparr>" Selector_Log
      "Envelope_empty\<lparr>SourceId := ''app'', Message := Some (Envelope_Log None)\<rparr>" "()"]
  by (simp add: source_matches_def)

text \<open>
  C29. A request makes one subscription for each of its selectors that has a message, at the path of the
  selector and under the shard and routing name of the request; selectors without a message are
  ignored; the search for identifiers ends. The function returned by \<open>Subscribe\<close> removes exactly these
  subscriptions again, without a panic.
\<close>

theorem v2_Subscribe_unsubscribe:
  assumes "v2_run L n" and "size L + length (ebr_Selectors req) < 2 ^ 64"
  shows "\<exists>hs n' n''. v2_Subscribe rs req w n = Some (Inr (hs, n')) \<and>
    map fst hs = map (\<lambda>s. (selector_path s, ebr_ShardId req)) (with_message (ebr_Selectors req)) \<and>
    v2_run (mset (map2 (live_of req w) (with_message (ebr_Selectors req)) hs) + L) n' \<and>
    v2_unsubscribe hs n' = Inr n'' \<and> v2_run L n''"
proof -
  obtain hs n' where sub: "v2_Subscribe rs req w n = Some (Inr (hs, n'))"
    and keys: "map fst hs = map (\<lambda>s. (selector_path s, ebr_ShardId req)) (with_message (ebr_Selectors req))"
    and run: "v2_run (mset (map2 (live_of req w) (with_message (ebr_Selectors req)) hs) + L) n'"
    using v2_Subscribe_loop_spec [OF assms] unfolding v2_Subscribe_def by blast
  moreover have "length (with_message (ebr_Selectors req)) = length hs" using keys by (metis length_map)
  ultimately show ?thesis using v2_unsubscribe_spec [OF run] by blast
qed

theorem v2_Subscribe_unsubscribe_witness:
  "\<exists>hs n' n''. v2_Subscribe (\<lambda>_. 0) (log_request ''s'' []) (1 :: nat) Node_New = Some (Inr (hs, n')) \<and> map fst hs = [([0, 4], ''s'')] \<and>
    v2_unsubscribe hs n' = Inr n'' \<and> v2_run {#} n''"
  using v2_Subscribe_unsubscribe [OF v2_run_start, of "log_request ''s'' []" "\<lambda>_. 0" "1 :: nat", unfolded log_request_sel list.map]
  by auto

text \<open>
  The hash for deterministic routing of a gauge, and the key of its names in the tree, do not depend
  on the order in which the map of its metrics is iterated.
\<close>

theorem v2_gauge_hash_order:
  assumes "mset (map fst (Gauge_Metrics g)) = mset (map fst (Gauge_Metrics g'))"
  shows "hashEnvelope r (e\<lparr>Message := Some (Envelope_Gauge (Some g))\<rparr>) =
      hashEnvelope r' (e'\<lparr>Message := Some (Envelope_Gauge (Some g'))\<rparr>) \<and>
    message_paths (e\<lparr>Message := Some (Envelope_Gauge (Some g))\<rparr>) =
      message_paths (e'\<lparr>Message := Some (Envelope_Gauge (Some g'))\<rparr>)"
  using assms hashStrings_mset [OF assms] by (simp add: hashEnvelope_def foldl_hash message_paths_def)

theorem v2_gauge_hash_order_witness:
  "hashEnvelope 1 (Envelope_empty\<lparr>Message := Some (Envelope_Gauge (Some \<lparr>Gauge_Metrics = [(''a'', None), (''b'', None)]\<rparr>))\<rparr>) =
   hashEnvelope 2 (Envelope_empty\<lparr>Message := Some (Envelope_Gauge (Some \<lparr>Gauge_Metrics = [(''b'', None), (''a'', None)]\<rparr>))\<rparr>)"
  using v2_gauge_hash_order [of "\<lparr>Gauge_Metrics = [(''a'', None), (''b'', None)]\<rparr>"
      "\<lparr>Gauge_Metrics = [(''b'', None), (''a'', None)]\<rparr>" 1 Envelope_empty 2 Envelope_empty]
  by (simp add: add_mset_commute)

text \<open>
  The shard ID does not make two subscribers exclusive by itself: a subscriber to all logs and a
  subscriber to the logs of one source with the same shard ID are at different paths, and an envelope
  of that source is set on both.
\<close>

theorem v2_same_shard_two_paths:
  assumes "\<And>\<pi> sh l. 0 < l \<Longrightarrow> rand \<pi> sh l < l" and "src \<noteq> []"
    and "SourceId e = src" and "Message e = Some (Envelope_Log l)"
  shows "\<exists>hs1 n1 hs2 n2 calls.
    v2_Subscribe rs (log_request sh []) (1 :: nat) Node_New = Some (Inr (hs1, n1)) \<and>
    v2_Subscribe rs' (log_request sh src) 2 n1 = Some (Inr (hs2, n2)) \<and>
    v2_Publish r rand e n2 = Some (Inr calls) \<and> mset calls = {#(1, e), (2, e)#}"
proof -
  let ?p1 = "[0, 4] :: uint64 list" and ?p2 = "[hashString src, 4] :: uint64 list"
  let ?c1 = "\<lparr>sc_sourceID = [], sc_setter = 1 :: nat\<rparr>" and ?c2 = "\<lparr>sc_sourceID = src, sc_setter = 2 :: nat\<rparr>"
  have p: "?p1 = [if [] = [] then 0 else hashString [], 4]" "?p2 = [if src = [] then 0 else hashString src, 4]"
    using assms(2) by simp_all
  have sz: "size {#} + 1 < (2 :: nat) ^ 64" "size {#((?p1, sh), i1, ?c1, [] :: string)#} + 1 < (2 :: nat) ^ 64" for i1 :: uint64
    by simp_all
  obtain i1 n1 where 1: "v2_Subscribe rs (log_request sh []) (1 :: nat) Node_New = Some (Inr ([((?p1, sh), i1)], n1))"
    "v2_run {#((?p1, sh), i1, ?c1, [])#} n1"
    using log_request_subscribe [OF v2_run_start sz(1), of rs sh "[]" 1, folded p] that by (elim exE conjE)
  obtain i2 n2 where 2: "v2_Subscribe rs' (log_request sh src) 2 n1 = Some (Inr ([((?p2, sh), i2)], n2))"
    "v2_run {#((?p2, sh), i2, ?c2, []), ((?p1, sh), i1, ?c1, [])#} n2"
    using log_request_subscribe [OF 1(2) sz(2), of rs' sh src 2, folded p] that by (elim exE conjE)
  let ?L = "{#((?p2, sh), i2, ?c2, [] :: string), ((?p1, sh), i1, ?c1, [])#}"
  obtain calls D where calls: "v2_Publish r rand e n2 = Some (Inr calls)"
    "mset calls = image_mset (\<lambda>x. (sc_setter (fst (snd (snd x))), e))
      (filter_mset (\<lambda>x. source_matches (sc_sourceID (fst (snd (snd x)))) e) D)"
    and key: "\<And>k. key_delivers e k (filter_mset (\<lambda>x. fst x = k) ?L) (filter_mset (\<lambda>x. fst x = k) D)"
    using v2_publish_spec [OF 2(2), of rand r e] assms(1) by auto
  have "filter_mset (\<lambda>x. fst x = k) D = filter_mset (\<lambda>x. fst x = k) ?L" for k
  proof (rule key_delivers_single [OF key])
    show "fst k \<in> set (envelope_paths e)" if "filter_mset (\<lambda>x. fst x = k) ?L \<noteq> {#}"
      using that assms(3,4) by (auto simp: envelope_paths_def message_paths_def split: if_splits)
    show "size (filter_mset (\<lambda>x. fst x = k) ?L) \<le> 1"
      using hashString_nonzero(1) [of src] by auto
  qed
  then have "D = ?L" by (rule mset_eq_by_key)
  with calls(2) assms(3) have "mset calls = {#(1, e), (2, e)#}" by (simp add: source_matches_def add_mset_commute)
  with 1(1) 2(1) calls(1) show ?thesis by blast
qed

theorem v2_same_shard_two_paths_witness:
  "\<exists>hs1 n1 hs2 n2 calls.
    v2_Subscribe (\<lambda>_. 0) (log_request ''s'' []) (1 :: nat) Node_New = Some (Inr (hs1, n1)) \<and>
    v2_Subscribe (\<lambda>_. 0) (log_request ''s'' ''app'') 2 n1 = Some (Inr (hs2, n2)) \<and>
    v2_Publish 0 (\<lambda>_ _ _. 0) (Envelope_empty\<lparr>SourceId := ''app'', Message := Some (Envelope_Log None)\<rparr>) n2 = Some (Inr calls) \<and>
    mset calls = {#(1, Envelope_empty\<lparr>SourceId := ''app'', Message := Some (Envelope_Log None)\<rparr>),
      (2, Envelope_empty\<lparr>SourceId := ''app'', Message := Some (Envelope_Log None)\<rparr>)#}"
  by (rule v2_same_shard_two_paths [where src = "''app''" and l = None]) simp_all

end
