(* ===== verification/Metrics.thy ===== *)
theory Metrics
  imports Envelopes Transport
begin

text \<open>
  The metric emitter (\<open>metricemitter/counter.go\<close>, \<open>gauge.go\<close>, \<open>client.go\<close>) and the envelope averager
  (\<open>plumbing/envelope_averager.go\<close>).

  Parameters: the clock (\<open>now\<close>), the callback that sends an envelope (its error is an option), the
  gRPC client, and the floating point conversions \<open>toUint64(v, 2)\<close> and \<open>toFloat64(v, 2)\<close> of gauges.
  Every access to a value is one atomic operation; where another goroutine can run between two of them,
  its additions are an argument (\<open>inc\<close>).
\<close>

unbundle bit_operations_syntax

section \<open>Counters\<close>

type_synonym tags = "(string, Value option) gomap"

record metric_Counter =
  mc_tags :: tags
  mc_name :: string
  mc_sourceID :: string
  mc_delta :: uint64

type_synonym MetricOption = "tags \<Rightarrow> tags"

definition WithTags :: "(string, string) gomap \<Rightarrow> MetricOption" where
  "WithTags ts m = foldl (\<lambda>m (k, v). gomap_set k (Some \<lparr>Value_Data = Some (Value_Text v)\<rparr>) m) m ts"

definition WithVersion :: "nat \<Rightarrow> nat \<Rightarrow> MetricOption" where
  "WithVersion major minor =
     WithTags [(''metric_version'', digits_of_nat major @ ''.'' @ digits_of_nat minor)]"

definition NewCounter :: "string \<Rightarrow> string \<Rightarrow> MetricOption list \<Rightarrow> metric_Counter" where
  "NewCounter name sourceID opts =
     \<lparr>mc_tags = foldl (\<lambda>m opt. opt m) [] opts, mc_name = name, mc_sourceID = sourceID, mc_delta = 0\<rparr>"

definition Counter_Increment :: "uint64 \<Rightarrow> metric_Counter \<Rightarrow> metric_Counter" where
  "Counter_Increment c m = m\<lparr>mc_delta := mc_delta m + c\<rparr>"

definition Counter_GetDelta :: "metric_Counter \<Rightarrow> uint64" where
  "Counter_GetDelta m = mc_delta m"

definition Counter_toEnvelope :: "int64 \<Rightarrow> uint64 \<Rightarrow> metric_Counter \<Rightarrow> Envelope" where
  "Counter_toEnvelope now delta m =
     \<lparr>Timestamp = now, SourceId = mc_sourceID m, InstanceId = [], DeprecatedTags = Some (mc_tags m), Tags = None,
      Message = Some (Envelope_Counter (Some
        \<lparr>Counter_Name = mc_name m, Counter_Delta = delta, Counter_Total = 0\<rparr>))\<rparr>"

text \<open>\<open>inc\<close> is what other goroutines add between the swap and the end of the callback.\<close>

definition Counter_WithEnvelope ::
    "int64 \<Rightarrow> (Envelope \<Rightarrow> 'err option) \<Rightarrow> uint64 \<Rightarrow> metric_Counter \<Rightarrow> metric_Counter \<times> 'err option" where
  "Counter_WithEnvelope now fn inc m =
     (let d = mc_delta m;
          m = m\<lparr>mc_delta := 0\<rparr>;
          err = fn (Counter_toEnvelope now d m);
          m = Counter_Increment inc m
      in case err of
           Some e \<Rightarrow> (Counter_Increment d m, Some e)
         | None \<Rightarrow> (m, None))"

section \<open>Gauges\<close>

record metric_Gauge =
  mg_tags :: tags
  mg_name :: string
  mg_unit :: string
  mg_sourceID :: string
  mg_value :: uint64

definition NewGauge :: "string \<Rightarrow> string \<Rightarrow> string \<Rightarrow> MetricOption list \<Rightarrow> metric_Gauge" where
  "NewGauge name unit sourceID opts =
     \<lparr>mg_tags = foldl (\<lambda>m opt. opt m) [] opts, mg_name = name, mg_unit = unit, mg_sourceID = sourceID, mg_value = 0\<rparr>"

definition Gauge_Set :: "(float64 \<Rightarrow> uint64) \<Rightarrow> float64 \<Rightarrow> metric_Gauge \<Rightarrow> metric_Gauge" where
  "Gauge_Set toUint64 value m = m\<lparr>mg_value := toUint64 value\<rparr>"

definition Gauge_Increment :: "(float64 \<Rightarrow> uint64) \<Rightarrow> float64 \<Rightarrow> metric_Gauge \<Rightarrow> metric_Gauge" where
  "Gauge_Increment toUint64 value m = m\<lparr>mg_value := mg_value m + toUint64 value\<rparr>"

definition Gauge_Decrement :: "(float64 \<Rightarrow> uint64) \<Rightarrow> float64 \<Rightarrow> metric_Gauge \<Rightarrow> metric_Gauge" where
  "Gauge_Decrement toUint64 value m = m\<lparr>mg_value := mg_value m + (NOT (toUint64 value - 1))\<rparr>"

definition Gauge_GetValue :: "(uint64 \<Rightarrow> float64) \<Rightarrow> metric_Gauge \<Rightarrow> float64" where
  "Gauge_GetValue toFloat64 m = toFloat64 (mg_value m)"

text \<open>The argument \<open>value\<close> of the source is not used: the value is read again.\<close>

definition Gauge_toEnvelope :: "(uint64 \<Rightarrow> float64) \<Rightarrow> int64 \<Rightarrow> float64 \<Rightarrow> metric_Gauge \<Rightarrow> Envelope" where
  "Gauge_toEnvelope toFloat64 now value m =
     \<lparr>Timestamp = now, SourceId = mg_sourceID m, InstanceId = [], DeprecatedTags = Some (mg_tags m), Tags = None,
      Message = Some (Envelope_Gauge (Some \<lparr>Gauge_Metrics =
        [(mg_name m, Some \<lparr>GaugeValue_Unit = mg_unit m, GaugeValue_Value = Gauge_GetValue toFloat64 m\<rparr>)]\<rparr>))\<rparr>"

definition Gauge_WithEnvelope ::
    "(uint64 \<Rightarrow> float64) \<Rightarrow> int64 \<Rightarrow> (Envelope \<Rightarrow> 'err option) \<Rightarrow> metric_Gauge \<Rightarrow> 'err option" where
  "Gauge_WithEnvelope toFloat64 now fn m =
     (let v = Gauge_GetValue toFloat64 m in fn (Gauge_toEnvelope toFloat64 now v m))"

section \<open>The client\<close>

record metric_Client =
  cl_pulseInterval :: int
  cl_dialOpts :: "dial_option list"
  cl_sourceID :: string
  cl_tags :: "(string, string) gomap"

type_synonym ClientOption = "metric_Client \<Rightarrow> metric_Client"

definition WithGRPCDialOptions :: "dial_option list \<Rightarrow> ClientOption" where
  "WithGRPCDialOptions opts c = c\<lparr>cl_dialOpts := opts\<rparr>"

definition WithPulseInterval :: "int \<Rightarrow> ClientOption" where
  "WithPulseInterval d c = c\<lparr>cl_pulseInterval := d\<rparr>"

definition WithSourceID :: "string \<Rightarrow> ClientOption" where
  "WithSourceID s c = c\<lparr>cl_sourceID := s\<rparr>"

definition WithOrigin :: "string \<Rightarrow> ClientOption" where
  "WithOrigin name c = c\<lparr>cl_tags := gomap_set ''origin'' name (cl_tags c)\<rparr>"

definition WithDeployment :: "string \<Rightarrow> string \<Rightarrow> string \<Rightarrow> ClientOption" where
  "WithDeployment deployment job index c =
     c\<lparr>cl_tags := gomap_set ''index'' index (gomap_set ''job'' job (gomap_set ''deployment'' deployment (cl_tags c)))\<rparr>"

text \<open>\<open>dial\<close> is \<open>grpc.NewClient\<close>: \<open>Some e\<close> when it fails. Durations are in nanoseconds.\<close>

definition NewClient ::
    "(string \<Rightarrow> dial_option list \<Rightarrow> 'err option) \<Rightarrow> string \<Rightarrow> ClientOption list \<Rightarrow> 'err + metric_Client" where
  "NewClient dial addr opts =
     (let client = foldl (\<lambda>c opt. opt c)
        \<lparr>cl_pulseInterval = 5000000000, cl_dialOpts = [], cl_sourceID = [], cl_tags = []\<rparr> opts
      in case dial addr (cl_dialOpts client) of Some e \<Rightarrow> Inl e | None \<Rightarrow> Inr client)"

definition Client_NewCounter :: "string \<Rightarrow> MetricOption list \<Rightarrow> metric_Client \<Rightarrow> metric_Counter" where
  "Client_NewCounter name opts c = NewCounter name (cl_sourceID c) (opts @ [WithTags (cl_tags c)])"

definition Client_NewGauge :: "string \<Rightarrow> string \<Rightarrow> MetricOption list \<Rightarrow> metric_Client \<Rightarrow> metric_Gauge" where
  "Client_NewGauge name unit opts c = NewGauge name unit (cl_sourceID c) (opts @ [WithTags (cl_tags c)])"

text \<open>The envelope that \<open>EmitEvent\<close> sends, if it can open a sender.\<close>

definition EmitEvent :: "int64 \<Rightarrow> bool \<Rightarrow> string \<Rightarrow> string \<Rightarrow> metric_Client \<Rightarrow> Envelope list" where
  "EmitEvent now can_open title body c =
     (if can_open then
        [\<lparr>Timestamp = now, SourceId = cl_sourceID c, InstanceId = [], DeprecatedTags = None, Tags = None,
          Message = Some (Envelope_Event (Some \<lparr>Event_Title = title, Event_Body = body\<rparr>))\<rparr>]
      else [])"

text \<open>
  One round of \<open>pulse\<close>, for a counter. The state is whether \<open>senderClient\<close> is not nil; the input is
  whether a sender can be opened, and what \<open>Send\<close> answers.
\<close>

definition pulse_tick ::
    "int64 \<Rightarrow> bool \<Rightarrow> (Envelope \<Rightarrow> 'err option) \<Rightarrow> uint64 \<Rightarrow> bool \<times> metric_Counter \<Rightarrow>
     (bool \<times> metric_Counter) \<times> Envelope list" where
  "pulse_tick now can_open send inc s =
     (let (client, m) = s
      in if \<not> client \<and> \<not> can_open then ((False, Counter_Increment inc m), [])
         else
           (case Counter_WithEnvelope now send inc m of
              (m', Some _) \<Rightarrow> ((False, m'), [])
            | (m', None) \<Rightarrow> ((True, m'), [Counter_toEnvelope now (mc_delta m) m])))"

section \<open>The envelope averager\<close>

definition ct_decode :: "uint64 \<Rightarrow> uint16 \<times> uint64" where
  "ct_decode u = (ucast (drop_bit 48 (u AND 0xFFFF000000000000)), u AND 0x0000FFFFFFFFFFFF)"

definition ct_encodeDelta :: "uint16 \<Rightarrow> uint64 \<Rightarrow> uint64 \<Rightarrow> uint64" where
  "ct_encodeDelta cnt tot u =
     (let (currentCount, currentTotal) = ct_decode u;
          cnt = cnt + currentCount;
          tot = tot + currentTotal
      in push_bit 48 (ucast cnt) + (tot AND 0x0000FFFFFFFFFFFF))"

text \<open>
  \<open>Track\<close> without interference; a failed compare-and-swap starts over with the new value, so concurrent
  calls act one after the other. The arguments are converted to \<open>uint16\<close> and \<open>uint64\<close>.
\<close>

definition Averager_Track :: "int \<Rightarrow> int \<Rightarrow> uint64 \<Rightarrow> uint64" where
  "Averager_Track cnt sz storage = ct_encodeDelta (of_int cnt) (of_int sz) storage"

text \<open>What the callback gets: 0, or the quotient of the two numbers.\<close>

datatype average = Zero | Quotient uint64 uint16

text \<open>One tick of \<open>Start\<close>; the state is \<open>(prevCount, prevTotal)\<close>.\<close>

definition Averager_tick :: "uint64 \<Rightarrow> uint16 \<times> uint64 \<Rightarrow> (uint16 \<times> uint64) \<times> average" where
  "Averager_tick storage prev =
     (let (cnt, tot) = ct_decode storage;
          deltaCount = cnt - fst prev;
          deltaTotal = tot - snd prev
      in ((cnt, tot), if deltaCount = 0 then Zero else Quotient deltaTotal deltaCount))"

section \<open>Lemmas\<close>

lemma and_mask48: "u AND 0xFFFFFFFFFFFF = take_bit 48 (u :: uint64)"
  by (simp add: take_bit_eq_mask mask_eq_exp_minus_1)

lemma ct_decode_eq: "ct_decode u = (ucast (drop_bit 48 u), take_bit 48 u)"
proof -
  have c: "(0xFFFF000000000000 :: uint64) = push_bit 48 (mask 16)" by (simp add: mask_eq_exp_minus_1)
  have "(ucast (drop_bit 48 (u AND 0xFFFF000000000000)) :: uint16) = ucast (drop_bit 48 u)"
    unfolding c by (rule bit_word_eqI) (auto simp: bit_simps)
  then show ?thesis by (simp add: ct_decode_def and_mask48)
qed

lemma ct_decode_0 [simp]: "ct_decode 0 = (0, 0)"
  by (simp add: ct_decode_eq)

lemma take_bit_48_small: "unat (t :: uint64) < 2 ^ 48 \<Longrightarrow> take_bit 48 t = t"
  by (simp add: unsigned_take_bit_eq word_unat_eq_iff take_bit_nat_eq_self)

lemma ct_encode_decode: "ct_decode (ct_encodeDelta c t u) =
    (fst (ct_decode u) + c, take_bit 48 (snd (ct_decode u) + t))"
proof -
  let ?c = "fst (ct_decode u) + c" and ?t = "take_bit 48 (snd (ct_decode u) + t)"
  have "ct_encodeDelta c t u = push_bit 48 (ucast ?c) + ?t"
    by (simp add: ct_encodeDelta_def ct_decode_eq Let_def add.commute and_mask48)
  also have "\<dots> = push_bit 48 (ucast ?c) OR ?t"
    by (rule disjunctive_add_eq_or) (rule bit_word_eqI, auto simp: bit_simps)
  finally have eq: "ct_encodeDelta c t u = push_bit 48 (ucast ?c) OR ?t" .
  have "(ucast (drop_bit 48 (push_bit 48 (ucast ?c) OR ?t)) :: uint16) = ?c"
    by (rule bit_word_eqI) (auto simp: bit_simps)
  moreover have "take_bit 48 (push_bit 48 (ucast ?c) OR ?t :: uint64) = ?t"
    by (rule bit_word_eqI) (auto simp: bit_simps)
  ultimately show ?thesis by (simp add: ct_decode_eq eq)
qed

lemma Counter_WithEnvelope_delta:
  assumes "Counter_WithEnvelope now fn inc m = (m', err)"
  shows "mc_delta m' + (if err = None then mc_delta m else 0) = mc_delta m + inc"
  using assms by (auto simp: Counter_WithEnvelope_def Counter_Increment_def Let_def split: option.splits)

text \<open>A history of a counter: increments, and rounds of \<open>pulse\<close> with whatever answers the server gives.\<close>

datatype counter_op =
    OpIncrement uint64
  | OpPulse int64 bool "Envelope \<Rightarrow> string option" uint64

fun counter_run :: "counter_op list \<Rightarrow> bool \<times> metric_Counter \<Rightarrow> (bool \<times> metric_Counter) \<times> Envelope list" where
  "counter_run [] s = (s, [])"
| "counter_run (OpIncrement c # ops) s = counter_run ops (fst s, Counter_Increment c (snd s))"
| "counter_run (OpPulse now can_open send inc # ops) s =
     (let (s', es) = pulse_tick now can_open send inc s; (s'', es') = counter_run ops s' in (s'', es @ es'))"

fun op_increment :: "counter_op \<Rightarrow> uint64" where
  "op_increment (OpIncrement c) = c"
| "op_increment (OpPulse _ _ _ inc) = inc"

fun env_delta :: "Envelope \<Rightarrow> uint64" where
  "env_delta e = (case Message e of Some (Envelope_Counter (Some c)) \<Rightarrow> Counter_Delta c | _ \<Rightarrow> 0)"

lemma pulse_tick_delta:
  assumes "pulse_tick now can_open send inc s = (s', es)"
  shows "mc_delta (snd s') + sum_list (map env_delta es) = mc_delta (snd s) + inc"
proof (cases "\<not> fst s \<and> \<not> can_open")
  case True
  with assms show ?thesis by (auto simp: pulse_tick_def Counter_Increment_def split: prod.splits)
next
  case False
  obtain m' err where w: "Counter_WithEnvelope now send inc (snd s) = (m', err)" by fastforce
  with assms False Counter_WithEnvelope_delta [OF w] show ?thesis
    by (cases err) (auto simp: pulse_tick_def Let_def Counter_toEnvelope_def split_beta)
qed

lemma counter_run_delta:
  "counter_run ops s = (s', es) \<Longrightarrow>
   mc_delta (snd s') + sum_list (map env_delta es) = mc_delta (snd s) + sum_list (map op_increment ops)"
proof (induction ops arbitrary: s es)
  case (Cons op ops)
  show ?case
  proof (cases op)
    case (OpIncrement c)
    with Cons.IH [of "(fst s, Counter_Increment c (snd s))"] Cons.prems show ?thesis
      by (simp add: Counter_Increment_def)
  next
    case (OpPulse now can_open send inc)
    obtain s1 es1 where 1: "pulse_tick now can_open send inc s = (s1, es1)" by fastforce
    obtain es2 where 2: "counter_run ops s1 = (s', es2)" "es = es1 @ es2"
      using Cons.prems OpPulse 1 by (auto split: prod.splits)
    have "mc_delta (snd s') + sum_list (map env_delta es) =
        sum_list (map env_delta es1) + (mc_delta (snd s') + sum_list (map env_delta es2))" by (simp add: 2)
    also have "\<dots> = (mc_delta (snd s1) + sum_list (map env_delta es1)) + sum_list (map op_increment ops)"
      by (simp add: Cons.IH [OF 2(1)])
    also have "\<dots> = mc_delta (snd s) + sum_list (map op_increment (op # ops))"
      by (simp add: pulse_tick_delta [OF 1] OpPulse)
    finally show ?thesis .
  qed
qed simp

lemma gauge_increment_decrement:
  "mg_value (Gauge_Decrement f x (Gauge_Increment f y (Gauge_Increment f x m))) = mg_value (Gauge_Increment f y m)"
  by (simp add: Gauge_Decrement_def Gauge_Increment_def not_eq_complement)

definition averager_tracks :: "(int \<times> int) list \<Rightarrow> uint64 \<Rightarrow> uint64" where
  "averager_tracks xs storage = foldl (\<lambda>s (cnt, sz). Averager_Track cnt sz s) storage xs"

lemma averager_tracks_decode:
  assumes "int (unat (snd (ct_decode storage))) + sum_list (map snd xs) < 2 ^ 48" and "\<forall>x \<in> set xs. 0 \<le> snd x"
  shows "ct_decode (averager_tracks xs storage) =
    (fst (ct_decode storage) + of_int (sum_list (map fst xs)), snd (ct_decode storage) + of_int (sum_list (map snd xs)))"
  using assms
proof (induction xs arbitrary: storage)
  case (Cons x xs)
  obtain n k where x: "x = (n, int k)" using Cons.prems(2)
    by (intro that [of "fst x" "nat (snd x)"]) (simp add: prod_eq_iff)
  let ?t = "snd (ct_decode storage)"
  have pos: "0 \<le> sum_list (map snd xs)" using Cons.prems(2) by (intro sum_list_nonneg) auto
  then have "int (unat ?t + k) < int (2 ^ 48)" using Cons.prems(1) x by simp
  then have small: "unat ?t + k < 2 ^ 48" by (simp only: of_nat_less_iff)
  then have un: "unat (?t + of_nat k) = unat ?t + k" by (simp add: unat_word_ariths unat_of_nat_64)
  then have dec: "ct_decode (Averager_Track n (int k) storage) = (fst (ct_decode storage) + of_int n, ?t + of_nat k)"
    using small by (simp add: Averager_Track_def ct_encode_decode take_bit_48_small)
  have "int (unat (?t + of_nat k)) + sum_list (map snd xs) < 2 ^ 48"
    using Cons.prems(1) x unfolding un by simp
  with Cons.IH [of "Averager_Track n (int k) storage"] Cons.prems(2) dec x show ?case
    by (simp add: averager_tracks_def add.assoc)
qed (simp add: averager_tracks_def)

section \<open>Properties\<close>

text \<open>
  C34. No increment of a counter is lost or counted twice: for any sequence of increments and pulses,
  with failing senders, failing sends, and increments that come between the swap and the restoration of
  the delta, the delta kept plus the deltas of the envelopes sent equal the sum of all increments
  (in 64-bit arithmetic).
\<close>

theorem counter_conserves_increments:
  assumes "counter_run ops (False, Client_NewCounter name opts c) = (s, es)"
  shows "Counter_GetDelta (snd s) + sum_list (map env_delta es) = sum_list (map op_increment ops)"
  using counter_run_delta [OF assms] by (simp add: Client_NewCounter_def NewCounter_def Counter_GetDelta_def)

theorem counter_conserves_increments_witness:
  "\<exists>s es. counter_run [OpIncrement 3, OpPulse 0 True (\<lambda>_. Some ''eof'') 4, OpPulse 1 True (\<lambda>_. None) 5]
      (False, Client_NewCounter ''egress'' [] \<lparr>cl_pulseInterval = 1, cl_dialOpts = [], cl_sourceID = ''rlp'', cl_tags = []\<rparr>)
      = (s, es) \<and> Counter_GetDelta (snd s) + sum_list (map env_delta es) = 12"
proof -
  let ?run = "counter_run [OpIncrement 3, OpPulse 0 True (\<lambda>_. Some ''eof'') 4, OpPulse 1 True (\<lambda>_. None) 5]
      (False, Client_NewCounter ''egress'' [] \<lparr>cl_pulseInterval = 1, cl_dialOpts = [], cl_sourceID = ''rlp'', cl_tags = []\<rparr>)"
  obtain s es where run: "?run = (s, es)" by (cases ?run)
  from counter_conserves_increments [OF run] run show ?thesis by (intro exI [of _ s] exI [of _ es]) simp
qed

text \<open>
  Whatever is tracked between two ticks, by however many goroutines, as long as the total stays below
  $2^{48}$ the callback gets the sum of the sizes divided by the number of envelopes (modulo $2^{16}$), or 0
  if that number is 0: the two halves of the packed word never overflow into each other.
\<close>

theorem averager_tick_delta:
  assumes "int (unat (snd (ct_decode storage))) + sum_list (map snd xs) < 2 ^ 48" and "\<forall>x \<in> set xs. 0 \<le> snd x"
  shows "snd (Averager_tick (averager_tracks xs storage) (fst (Averager_tick storage prev))) =
    (let n = of_int (sum_list (map fst xs)) in if n = 0 then Zero else Quotient (of_int (sum_list (map snd xs))) n)"
  using averager_tracks_decode [OF assms] by (simp add: Averager_tick_def split_beta Let_def)

theorem averager_tick_delta_witness:
  "snd (Averager_tick (averager_tracks [(1, 70), (1, 30)] 0) (fst (Averager_tick 0 (0, 0)))) = Quotient 100 2"
  using averager_tick_delta [of 0 "[(1, 70), (1, 30)]" "(0, 0)"] by simp

text \<open>
  The difference of totals is taken in 64 bits although the totals wrap around at $2^{48}$: when the
  total passes $2^{48}$ between two ticks, the callback gets a quotient of about $2^{64}$ instead of the
  sizes tracked. Here 10 bytes are tracked and the numerator is $2^{64} - 2^{48} + 10$.
\<close>

theorem averager_total_wraps:
  "\<exists>storage. snd (Averager_tick (Averager_Track 1 10 storage) (fst (Averager_tick storage (0, 0)))) =
     Quotient (of_nat (2 ^ 64 - 2 ^ 48 + 10)) 1"
proof (intro exI [of _ "Averager_Track 1 (2 ^ 48 - 1) 0"])
  show "snd (Averager_tick (Averager_Track 1 10 (Averager_Track 1 (2 ^ 48 - 1) 0))
      (fst (Averager_tick (Averager_Track 1 (2 ^ 48 - 1) 0) (0, 0)))) = Quotient (of_nat (2 ^ 64 - 2 ^ 48 + 10)) 1"
    by (simp add: Averager_tick_def Averager_Track_def ct_encode_decode)
qed

end
