(* ===== verification/DiodeWriters.thy ===== *)
theory DiodeWriters
  imports Diodes
begin

text \<open>
  The writers of \<open>ManyToOne\<close> do not wait for each other: from any state that interleaved writers and the reader reach,
  a writer that runs alone completes its call of \<open>Set\<close>.
\<close>

section \<open>A writer that runs alone\<close>

text \<open>The next step of writer \<open>i\<close> in its call of \<open>Set\<close>.\<close>

definition mto_writer_step :: "nat \<Rightarrow> 'a mto_sys \<Rightarrow> 'a mto_sys" where
  "mto_writer_step i s =
     (case ms_pcs s ! i of
        Idle \<Rightarrow> s
      | Adding x \<Rightarrow>
          let (w, d) = mto_add (ms_diode s)
          in s\<lparr>ms_pcs := (ms_pcs s)[i := Loading x w], ms_diode := d, ms_adds := Suc (ms_adds s)\<rparr>
      | Loading x w \<Rightarrow>
          let old = m_buffer (ms_diode s) ! mto_idx (ms_diode s) w
          in if mto_collides (ms_diode s) w old then s\<lparr>ms_pcs := (ms_pcs s)[i := Adding x]\<rparr>
             else s\<lparr>ms_pcs := (ms_pcs s)[i := Swapping x w old]\<rparr>
      | Swapping x w old \<Rightarrow>
          let (swapped, d) = mto_cas (ms_diode s) w old x
          in if swapped then s\<lparr>ms_pcs := (ms_pcs s)[i := Idle], ms_diode := d, ms_stored := ms_stored s @ [(w, x)]\<rparr>
             else s\<lparr>ms_pcs := (ms_pcs s)[i := Adding x], ms_diode := d\<rparr>)"

lemma mto_writer_step_step:
  assumes "i < length (ms_pcs s)" and "ms_pcs s ! i \<noteq> Idle"
  shows "mto_step s (mto_writer_step i s)"
  using assms by (cases "ms_pcs s ! i") (auto simp: mto_writer_step_def Let_def intro: mto_step.intros split: prod.split)

text \<open>Every bucket is in the slot of its sequence number.\<close>

definition slot_inv :: "'a mto_sys \<Rightarrow> bool" where
  "slot_inv s \<longleftrightarrow>
     (\<forall>k < length (m_buffer (ms_diode s)). \<forall>p b. m_buffer (ms_diode s) ! k = Some (p, b) \<longrightarrow>
        unat (b_seq b) mod length (m_buffer (ms_diode s)) = k)"

lemma nth_clear: "k < length xs \<Longrightarrow> xs[j := None] ! k = Some y \<Longrightarrow> xs ! k = Some y"
  by (cases "k = j") simp_all

lemma mto_next_slots:
  assumes "ManyToOne_TryNext d = Inr (d', v, alerts)" and "k < length (m_buffer d)" and "m_buffer d' ! k = Some y"
  shows "m_buffer d ! k = Some y"
proof -
  have "m_buffer d' = (m_buffer d)[unat (m_readIndex d mod of_nat (length (m_buffer d))) := None]"
    using assms(1) by (auto simp: ManyToOne_TryNext_def Let_def split: if_splits option.splits)
  with assms(2,3) show ?thesis using nth_clear by metis
qed

lemma slot_inv_step:
  assumes "mto_step s t" and "slot_inv s" and "length (m_buffer (ms_diode s)) < 2 ^ 63"
  shows "slot_inv t"
  using assms
proof (induction rule: mto_step.induct)
  case (add i s x w d)
  then show ?case by (auto simp: slot_inv_def mto_add_def)
next
  case (swap i s x w old d)
  have "mto_idx (ms_diode s) w = unat w mod length (m_buffer (ms_diode s))"
    using swap.prems(2) by (simp add: mto_idx_def oto_index)
  with mto_cas_cases(5) [OF swap.hyps(3)] have d: "m_buffer d = (m_buffer (ms_diode s))
      [unat w mod length (m_buffer (ms_diode s)) := Some (m_next (ms_diode s), \<lparr>b_data = x, b_seq = w\<rparr>)]" by simp
  have "unat (b_seq b) mod length (m_buffer (ms_diode s)) = k"
    if "k < length (m_buffer (ms_diode s))" "m_buffer d ! k = Some (p, b)" for k p b
    using swap.prems(1) that unfolding d by (cases "k = unat w mod length (m_buffer (ms_diode s))") (auto simp: slot_inv_def)
  then show ?case by (simp add: slot_inv_def mto_cas_cases(3) [OF swap.hyps(3)])
next
  case (swap_fails i s x w old d)
  then show ?case using mto_cas_cases(3,4) [OF swap_fails.hyps(3)] by (auto simp: slot_inv_def)
next
  case (read s d x alerts)
  then show ?case using mto_next_frame(2) [OF read.hyps] mto_next_slots [OF read.hyps] by (auto simp: slot_inv_def)
next
  case (read_fails s d alerts)
  then show ?case using mto_next_frame(2) [OF read_fails.hyps] mto_next_slots [OF read_fails.hyps] by (auto simp: slot_inv_def)
qed (auto simp: slot_inv_def)

lemma mto_reachable_slots:
  assumes "mto_reachable sz writers s" and "ms_adds s < 2 ^ 64" and "sz < 2 ^ 63"
  shows "slot_inv s"
  using assms
proof (induction rule: mto_reachable.induct)
  case start
  then show ?case by (simp add: slot_inv_def mto_init_def NewManyToOne_def)
next
  case (step s t)
  then have "ms_adds s < 2 ^ 64" using mto_step_adds by fastforce
  with step mto_reachable_inv [OF step.hyps(1)] show ?case by (auto simp: buf_inv_def intro: slot_inv_step)
qed

lemma mod_lap: "a mod n = b mod n \<Longrightarrow> a < b \<Longrightarrow> a + n \<le> (b :: nat)"
proof -
  assume "a mod n = b mod n" "a < b"
  then have "n dvd b - a" using mod_eq_dvd_iff_nat [of a b n] by simp
  with \<open>a < b\<close> show ?thesis using dvd_imp_le [of n "b - a"] by simp
qed

text \<open>A fresh index never collides: what is in its slot is at least a lap older.\<close>

lemma fresh_index_free:
  assumes "slot_inv s" and "\<And>p b. m_buffer (ms_diode s) ! k = Some (p, b) \<Longrightarrow> unat (b_seq b) < unat w"
    and "k = mto_idx (ms_diode s) w" and "0 < length (m_buffer (ms_diode s))" and "length (m_buffer (ms_diode s)) < 2 ^ 63"
  shows "\<not> mto_collides (ms_diode s) w (m_buffer (ms_diode s) ! k)"
proof (cases "m_buffer (ms_diode s) ! k")
  case (Some y)
  obtain p b where y: "y = (p, b)" by fastforce
  let ?n = "length (m_buffer (ms_diode s))"
  have k: "k = unat w mod ?n" using assms(3,5) by (simp add: mto_idx_def oto_index)
  then have "unat (b_seq b) mod ?n = unat w mod ?n" using assms(1,4) Some y by (simp add: slot_inv_def)
  moreover have lt: "unat (b_seq b) < unat w" using assms(2) Some y by simp
  ultimately have le: "unat (b_seq b) + ?n \<le> unat w" by (rule mod_lap)
  have n: "unat (of_nat ?n :: uint64) = ?n" using assms(5) by (simp add: unat_of_nat_64)
  have "(of_nat ?n :: uint64) \<le> w" using le n by (simp add: word_le_nat_alt)
  then have "unat (w - of_nat ?n) = unat w - ?n" using n by (simp add: unat_sub)
  with le show ?thesis by (simp add: mto_collides_def Some y word_less_nat_alt)
qed (simp add: mto_collides_def)

lemma writer_alone_adding:
  assumes inv: "idx_inv s" "buf_inv sz s" "slot_inv s" and adds: "ms_adds s < 2 ^ 64" and sz: "0 < sz" "sz < 2 ^ 63"
    and i: "i < length (ms_pcs s)" "ms_pcs s ! i = Adding x"
  shows "ms_pcs ((mto_writer_step i ^^ 3) s) ! i = Idle \<and>
    ms_stored ((mto_writer_step i ^^ 3) s) = ms_stored s @ [(of_nat (ms_adds s), x)]"
proof -
  let ?w = "of_nat (ms_adds s) :: uint64" and ?d = "ms_diode s"
  have w: "m_writeIndex ?d + 1 = ?w" and uw: "unat ?w = ms_adds s"
    using inv(1) adds by (simp_all add: idx_inv_def unat_of_nat_64)
  define d1 where "d1 = ?d\<lparr>m_writeIndex := ?w\<rparr>"
  define s1 where "s1 = s\<lparr>ms_pcs := (ms_pcs s)[i := Loading x ?w], ms_diode := d1, ms_adds := Suc (ms_adds s)\<rparr>"
  define old where "old = m_buffer ?d ! mto_idx d1 ?w"
  have s1: "mto_writer_step i s = s1" using i(2) w by (simp add: mto_writer_step_def mto_add_def s1_def d1_def)
  have len: "length (m_buffer ?d) = sz" using inv(2) by (simp add: buf_inv_def)
  have idx: "mto_idx d1 ?w = mto_idx ?d ?w" "mto_idx ?d ?w < sz"
    using len sz by (simp_all add: mto_idx_def d1_def oto_index)
  have older: "unat (b_seq b) < unat ?w" if "m_buffer ?d ! mto_idx ?d ?w = Some (p, b)" for p b
  proof -
    have "Some (p, b) \<in> set (m_buffer ?d)" using that idx(2) len by (metis nth_mem)
    then have "(b_seq b, b_data b) \<in> set (ms_stored s)" using inv(2) by (simp add: buf_inv_def)
    then show ?thesis using inv(1) by (auto simp: idx_inv_def uw)
  qed
  have "mto_collides d1 = mto_collides ?d" "m_buffer d1 = m_buffer ?d"
    by (auto simp: mto_collides_def [abs_def] d1_def)
  moreover have "\<not> mto_collides ?d ?w (m_buffer ?d ! mto_idx ?d ?w)"
    using fresh_index_free [OF inv(3) older refl] len sz by simp
  ultimately have "\<not> mto_collides d1 ?w old" "m_buffer d1 ! mto_idx d1 ?w = old" by (simp_all add: old_def idx)
  then have s2: "mto_writer_step i s1 = s1\<lparr>ms_pcs := (ms_pcs s)[i := Swapping x ?w old]\<rparr>"
    using i by (simp add: mto_writer_step_def s1_def Let_def)
  have "mto_cas d1 ?w old x = (True, snd (mto_cas d1 ?w old x))"
    by (simp add: mto_cas_def Let_def old_def d1_def mto_idx_def)
  then obtain d2 where "mto_cas d1 ?w old x = (True, d2)" by blast
  then show ?thesis using i s1 s2 by (simp add: numeral_3_eq_3 mto_writer_step_def s1_def)
qed

lemma writer_alone:
  assumes reach: "mto_reachable sz writers s" and adds: "ms_adds s < 2 ^ 64" and sz: "0 < sz" "sz < 2 ^ 63"
    and i: "i < length (ms_pcs s)"
  shows "\<exists>n \<le> 4. ms_pcs ((mto_writer_step i ^^ n) s) ! i = Idle"
proof -
  let ?f = "mto_writer_step i"
  have adding: "ms_pcs ((?f ^^ 3) t) ! i = Idle"
    if "mto_reachable sz writers t" "ms_adds t < 2 ^ 64" "i < length (ms_pcs t)" "ms_pcs t ! i = Adding x" for t :: "'a mto_sys" and x
  proof -
    from mto_reachable_inv [OF that(1,2) sz(2)] have "idx_inv t" "buf_inv sz t" by simp_all
    from writer_alone_adding [OF this mto_reachable_slots [OF that(1,2) sz(2)] that(2) sz that(3,4)] show ?thesis by simp
  qed
  have retry: "ms_pcs ((?f ^^ 4) s) ! i = Idle"
    if "ms_pcs s ! i \<noteq> Idle" "ms_pcs (?f s) ! i = Adding x" "ms_adds (?f s) = ms_adds s" "length (ms_pcs (?f s)) = length (ms_pcs s)" for x
  proof -
    have "(?f ^^ Suc 3) s = (?f ^^ 3) (?f s)" unfolding funpow_Suc_right comp_apply ..
    then have "(?f ^^ 4) s = (?f ^^ 3) (?f s)" by (simp only: Suc_numeral semiring_norm)
    with adding [OF mto_reachable.step [OF reach mto_writer_step_step [OF i that(1)]] _ _ that(2)] that(3,4) adds i
    show ?thesis by (simp only:)
  qed
  show ?thesis
  proof (cases "ms_pcs s ! i")
    case Idle
    then show ?thesis by (intro exI [of _ 0]) simp
  next
    case (Adding x)
    from adding [OF reach adds i this] show ?thesis by (intro exI [of _ 3]) simp
  next
    case (Loading x w)
    let ?old = "m_buffer (ms_diode s) ! mto_idx (ms_diode s) w"
    show ?thesis
    proof (cases "mto_collides (ms_diode s) w ?old")
      case True
      then have "?f s = s\<lparr>ms_pcs := (ms_pcs s)[i := Adding x]\<rparr>" by (simp add: mto_writer_step_def Loading)
      with retry [of x] Loading i show ?thesis by (intro exI [of _ 4]) simp
    next
      case False
      then have s1: "?f s = s\<lparr>ms_pcs := (ms_pcs s)[i := Swapping x w ?old]\<rparr>" by (simp add: mto_writer_step_def Loading Let_def)
      obtain d where "mto_cas (ms_diode s) w ?old x = (True, d)" by (simp add: mto_cas_def Let_def mto_idx_def)
      then have "ms_pcs ((?f ^^ 2) s) ! i = Idle" using i s1 by (simp add: numeral_2_eq_2 mto_writer_step_def)
      then show ?thesis by (intro exI [of _ 2]) simp
    qed
  next
    case (Swapping x w old)
    obtain ok d where cas: "mto_cas (ms_diode s) w old x = (ok, d)" by fastforce
    show ?thesis
    proof (cases ok)
      case True
      then have "ms_pcs ((?f ^^ 1) s) ! i = Idle" using i cas by (simp add: mto_writer_step_def Swapping)
      then show ?thesis by (intro exI [of _ 1]) simp
    next
      case False
      then have "?f s = s\<lparr>ms_pcs := (ms_pcs s)[i := Adding x], ms_diode := d\<rparr>" using cas by (simp add: mto_writer_step_def Swapping)
      with retry [of x] Swapping i show ?thesis by (intro exI [of _ 4]) simp
    qed
  qed
qed

lemma mto_writer_step_length [simp]: "length (ms_pcs ((mto_writer_step i ^^ n) s)) = length (ms_pcs s)"
proof (induction n)
  case (Suc n)
  let ?t = "(mto_writer_step i ^^ n) s"
  have "length (ms_pcs (mto_writer_step i ?t)) = length (ms_pcs ?t)"
    by (cases "ms_pcs ?t ! i") (simp_all add: mto_writer_step_def Let_def split: prod.split)
  with Suc show ?case by simp
qed simp

text \<open>
  C28. A writer that runs alone finishes its call. From every reachable state, wherever the other writers have
  been interrupted, at most four steps of one writer complete its call of \<open>Set\<close>, and each of them is a step of the
  diode: one that fails (a collision, or a compare-and-swap that lost), and then an add, a load and a
  compare-and-swap that cannot fail. So the loop of \<open>Set\<close> ends unless other writers keep interfering.
\<close>

theorem ManyToOne_Set_alone_returns:
  assumes "mto_reachable sz writers s" and "ms_adds s < 2 ^ 64" and "0 < sz" and "sz < 2 ^ 63" and "i < length (ms_pcs s)"
  shows "\<exists>n \<le> 4. ms_pcs ((mto_writer_step i ^^ n) s) ! i = Idle \<and>
    (\<forall>k < n. mto_step ((mto_writer_step i ^^ k) s) ((mto_writer_step i ^^ Suc k) s))"
proof -
  let ?idle = "\<lambda>n. ms_pcs ((mto_writer_step i ^^ n) s) ! i = Idle"
  obtain m where m: "m \<le> 4" "?idle m" using writer_alone [OF assms] by blast
  define n where "n = (LEAST n. ?idle n)"
  have "?idle n" "n \<le> 4" unfolding n_def using m LeastI [of ?idle m] Least_le [of ?idle m] by auto
  moreover have "mto_step ((mto_writer_step i ^^ k) s) ((mto_writer_step i ^^ Suc k) s)" if "k < n" for k
    using not_less_Least [of k ?idle] that assms(5) by (simp add: n_def mto_writer_step_step)
  ultimately show ?thesis by blast
qed

text \<open>A writer at the start of its call, beside another one.\<close>

theorem ManyToOne_Set_alone_returns_witness:
  "\<exists>n \<le> 4. ms_pcs ((mto_writer_step 0 ^^ n) (mto_init 1 2\<lparr>ms_pcs := [Adding 7, Idle], ms_called := [7 :: int]\<rparr>)) ! 0 = Idle"
proof -
  have "mto_reachable 1 2 (mto_init 1 2\<lparr>ms_pcs := [Adding 7, Idle], ms_called := [7 :: int]\<rparr>)"
    using mto_reachable.step [where sz = 1 and writers = 2, OF mto_reachable.start mto_step.call [of 0 _ "7 :: int"]]
    by (simp add: mto_init_def NewManyToOne_def numeral_2_eq_2)
  from ManyToOne_Set_alone_returns [OF this, of 0] show ?thesis by (auto simp: mto_init_def)
qed

end
