(* ===== verification/DiodeReaders.thy ===== *)
theory DiodeReaders
  imports Diodes Envelopes
begin

text \<open>
  The readers that turn a diode into a blocking queue (\<open>go-diodes/poller.go\<close> and \<open>waiter.go\<close>) and the
  typed diodes of Loggregator (\<open>diodes/*.go\<close>).

  A call of \<open>Next\<close> overlaps with other goroutines. For the poller this is the parameter \<open>env\<close>: \<open>env k\<close> is
  what the writers do to the diode while the reader sleeps for the \<open>k\<close>-th time; \<open>isDone k\<close> is whether the
  context is done at that time. For the waiter, the interleaving of the channel operations matters, and
  the reader and the writer are separate processes of a step relation.
\<close>

section \<open>The poller\<close>

type_synonym ('d, 'a) try_next = "'d \<Rightarrow> ('d \<times> 'a option \<times> int list) go"

text \<open>
  \<open>None\<close>: the loop never ends. The value is \<open>None\<close> when the context is done (nil in the source); the
  numbers are the calls of the alerter.
\<close>

partial_function (option) Poller_Next ::
    "('d, 'a) try_next \<Rightarrow> (nat \<Rightarrow> bool) \<Rightarrow> (nat \<Rightarrow> 'd \<Rightarrow> 'd) \<Rightarrow> nat \<Rightarrow> int list \<Rightarrow> 'd \<Rightarrow> ('d \<times> 'a option \<times> int list) go option" where
  "Poller_Next tryNext isDone env k alerts d =
     (case tryNext d of
        Inl e \<Rightarrow> Some (Inl e)
      | Inr (d, data, al) \<Rightarrow>
          (case data of
             Some x \<Rightarrow> Some (Inr (d, Some x, alerts @ al))
           | None \<Rightarrow>
               if isDone k then Some (Inr (d, None, alerts @ al))
               else Poller_Next tryNext isDone env (Suc k) (alerts @ al) (env k d)))"

text \<open>The default context is never done.\<close>

definition background :: "nat \<Rightarrow> bool" where
  "background k = False"

section \<open>The typed diodes\<close>

text \<open>
  Each type wraps a poller, or a waiter, around a diode. A pointer to a byte slice is stored, so what is
  read is never nil; envelopes are stored as the pointers they are. \<open>TryNext\<close> returns the value and
  \<open>ok\<close>, with the nil value when \<open>ok\<close> is false.
\<close>

definition unbox :: "'a option \<Rightarrow> 'a go" where
  "unbox p = (case p of None \<Rightarrow> Inl NilDereference | Some x \<Rightarrow> Inr x)"

definition typed_try :: "('d, 'a) try_next \<Rightarrow> 'b \<Rightarrow> ('a \<Rightarrow> 'b) \<Rightarrow> 'd \<Rightarrow> ('d \<times> ('b \<times> bool) \<times> int list) go" where
  "typed_try tryNext nil conv d =
     (case tryNext d of
        Inl e \<Rightarrow> Inl e
      | Inr (d, data, al) \<Rightarrow> Inr (d, (case data of None \<Rightarrow> (nil, False) | Some x \<Rightarrow> (conv x, True)), al))"

definition typed_next ::
    "('d, 'a) try_next \<Rightarrow> ('a option \<Rightarrow> 'b go) \<Rightarrow> (nat \<Rightarrow> 'd \<Rightarrow> 'd) \<Rightarrow> 'd \<Rightarrow> ('d \<times> 'b \<times> int list) go option" where
  "typed_next tryNext conv env d =
     map_option (\<lambda>r. case r of Inl e \<Rightarrow> Inl e
         | Inr (d, data, al) \<Rightarrow> (case conv data of Inl e \<Rightarrow> Inl e | Inr x \<Rightarrow> Inr (d, x, al)))
       (Poller_Next tryNext background env 0 [] d)"

text \<open>\<open>diodes.OneToOne\<close> and \<open>diodes.ManyToOne\<close>: byte slices.\<close>

definition diodes_NewOneToOne :: "nat \<Rightarrow> bytes OneToOne" where
  "diodes_NewOneToOne sz = NewOneToOne sz"

definition diodes_OneToOne_Set :: "bytes \<Rightarrow> bytes OneToOne \<Rightarrow> bytes OneToOne go" where
  "diodes_OneToOne_Set data d = OneToOne_Set data d"

definition diodes_OneToOne_TryNext :: "bytes OneToOne \<Rightarrow> (bytes OneToOne \<times> (bytes option \<times> bool) \<times> int list) go" where
  "diodes_OneToOne_TryNext d = typed_try OneToOne_TryNext None Some d"

definition diodes_OneToOne_Next ::
    "(nat \<Rightarrow> bytes OneToOne \<Rightarrow> bytes OneToOne) \<Rightarrow> bytes OneToOne \<Rightarrow> (bytes OneToOne \<times> bytes \<times> int list) go option" where
  "diodes_OneToOne_Next env d = typed_next OneToOne_TryNext unbox env d"

definition diodes_NewManyToOne :: "nat \<Rightarrow> bytes ManyToOne" where
  "diodes_NewManyToOne sz = NewManyToOne sz"

definition diodes_ManyToOne_Set :: "bytes \<Rightarrow> bytes ManyToOne \<Rightarrow> (bytes ManyToOne \<times> nat) go option" where
  "diodes_ManyToOne_Set data d = ManyToOne_Set data d 0"

definition diodes_ManyToOne_TryNext :: "bytes ManyToOne \<Rightarrow> (bytes ManyToOne \<times> (bytes option \<times> bool) \<times> int list) go" where
  "diodes_ManyToOne_TryNext d = typed_try ManyToOne_TryNext None Some d"

definition diodes_ManyToOne_Next ::
    "(nat \<Rightarrow> bytes ManyToOne \<Rightarrow> bytes ManyToOne) \<Rightarrow> bytes ManyToOne \<Rightarrow> (bytes ManyToOne \<times> bytes \<times> int list) go option" where
  "diodes_ManyToOne_Next env d = typed_next ManyToOne_TryNext unbox env d"

text \<open>
  \<open>ManyToOneEnvelope\<close> (v1 envelopes, a type parameter here) and \<open>ManyToOneEnvelopeV2\<close>: pointers to
  envelopes, which may be nil; a nil result of the poller becomes a nil envelope.
\<close>

definition NewManyToOneEnvelope :: "nat \<Rightarrow> 'v1 option ManyToOne" where
  "NewManyToOneEnvelope sz = NewManyToOne sz"

definition ManyToOneEnvelope_Set :: "'v1 option \<Rightarrow> 'v1 option ManyToOne \<Rightarrow> ('v1 option ManyToOne \<times> nat) go option" where
  "ManyToOneEnvelope_Set data d = ManyToOne_Set data d 0"

definition ManyToOneEnvelope_TryNext ::
    "'v1 option ManyToOne \<Rightarrow> ('v1 option ManyToOne \<times> ('v1 option \<times> bool) \<times> int list) go" where
  "ManyToOneEnvelope_TryNext d = typed_try ManyToOne_TryNext None id d"

definition ManyToOneEnvelope_Next ::
    "(nat \<Rightarrow> 'v1 option ManyToOne \<Rightarrow> 'v1 option ManyToOne) \<Rightarrow> 'v1 option ManyToOne \<Rightarrow>
     ('v1 option ManyToOne \<times> 'v1 option \<times> int list) go option" where
  "ManyToOneEnvelope_Next env d = typed_next ManyToOne_TryNext (\<lambda>p. Inr (Option.bind p id)) env d"

definition NewManyToOneEnvelopeV2 :: "nat \<Rightarrow> Envelope option ManyToOne" where
  "NewManyToOneEnvelopeV2 sz = NewManyToOne sz"

definition ManyToOneEnvelopeV2_Set ::
    "Envelope option \<Rightarrow> Envelope option ManyToOne \<Rightarrow> (Envelope option ManyToOne \<times> nat) go option" where
  "ManyToOneEnvelopeV2_Set data d = ManyToOne_Set data d 0"

definition ManyToOneEnvelopeV2_TryNext ::
    "Envelope option ManyToOne \<Rightarrow> (Envelope option ManyToOne \<times> (Envelope option \<times> bool) \<times> int list) go" where
  "ManyToOneEnvelopeV2_TryNext d = typed_try ManyToOne_TryNext None id d"

definition ManyToOneEnvelopeV2_Next ::
    "(nat \<Rightarrow> Envelope option ManyToOne \<Rightarrow> Envelope option ManyToOne) \<Rightarrow> Envelope option ManyToOne \<Rightarrow>
     (Envelope option ManyToOne \<times> Envelope option \<times> int list) go option" where
  "ManyToOneEnvelopeV2_Next env d = typed_next ManyToOne_TryNext (\<lambda>p. Inr (Option.bind p id)) env d"

section \<open>The waiter\<close>

text \<open>
  One writer and one reader around \<open>OneToOne\<close> (the only use, \<open>NewOneToOneWaiterEnvelopeV2\<close>). The channel
  has capacity 1, so it is a flag. A writer in \<open>WBroadcast\<close> has set the diode and not yet tried to send;
  a reader in \<open>RSelect\<close> waits for the channel or the context.
\<close>

datatype waiter_writer = WIdle | WBroadcast
datatype waiter_reader = RTry | RSelect | RStopped

record 'a Waiter =
  w_diode :: "'a OneToOne"
  w_c :: bool
  w_done :: bool
  w_writer :: waiter_writer
  w_reader :: waiter_reader
  w_returned :: "'a list"

definition NewWaiter :: "'a OneToOne \<Rightarrow> 'a Waiter" where
  "NewWaiter d = \<lparr>w_diode = d, w_c = False, w_done = False, w_writer = WIdle, w_reader = RTry, w_returned = []\<rparr>"

definition NewOneToOneWaiterEnvelopeV2 :: "nat \<Rightarrow> Envelope option Waiter" where
  "NewOneToOneWaiterEnvelopeV2 sz = NewWaiter (NewOneToOne sz)"

definition OneToOneEnvelopeV2_TryNext ::
    "Envelope option OneToOne \<Rightarrow> (Envelope option OneToOne \<times> (Envelope option \<times> bool) \<times> int list) go" where
  "OneToOneEnvelopeV2_TryNext d = typed_try OneToOne_TryNext None id d"

text \<open>\<open>set\<close> and \<open>broadcast\<close> are the two halves of \<open>Set\<close>; the other steps but \<open>cancel\<close> are those of \<open>Next\<close>.\<close>

inductive Waiter_step :: "'a Waiter \<Rightarrow> 'a Waiter \<Rightarrow> bool" where
  set: "w_writer s = WIdle \<Longrightarrow> OneToOne_Set x (w_diode s) = Inr d \<Longrightarrow>
    Waiter_step s (s\<lparr>w_diode := d, w_writer := WBroadcast\<rparr>)"
| broadcast: "w_writer s = WBroadcast \<Longrightarrow> Waiter_step s (s\<lparr>w_c := True, w_writer := WIdle\<rparr>)"
| return: "w_reader s = RTry \<Longrightarrow> OneToOne_TryNext (w_diode s) = Inr (d, Some x, al) \<Longrightarrow>
    Waiter_step s (s\<lparr>w_diode := d, w_returned := w_returned s @ [x]\<rparr>)"
| empty: "w_reader s = RTry \<Longrightarrow> OneToOne_TryNext (w_diode s) = Inr (d, None, al) \<Longrightarrow>
    Waiter_step s (s\<lparr>w_diode := d, w_reader := RSelect\<rparr>)"
| wake: "w_reader s = RSelect \<Longrightarrow> w_c s \<Longrightarrow> Waiter_step s (s\<lparr>w_c := False, w_reader := RTry\<rparr>)"
| stop: "w_reader s = RSelect \<Longrightarrow> w_done s \<Longrightarrow> Waiter_step s (s\<lparr>w_reader := RStopped\<rparr>)"
| cancel: "Waiter_step s (s\<lparr>w_done := True\<rparr>)"

inductive Waiter_reachable :: "'a Waiter \<Rightarrow> 'a Waiter \<Rightarrow> bool" for s0 where
  start: "Waiter_reachable s0 s0"
| step: "Waiter_reachable s0 s \<Longrightarrow> Waiter_step s t \<Longrightarrow> Waiter_reachable s0 t"

section \<open>Lemmas\<close>

text \<open>The reader's view of the diode at the time of poll \<open>k\<close>, if it goes on that long.\<close>

fun polled :: "('d, 'a) try_next \<Rightarrow> (nat \<Rightarrow> 'd \<Rightarrow> 'd) \<Rightarrow> nat \<Rightarrow> nat \<Rightarrow> 'd \<Rightarrow> 'd option" where
  "polled tryNext env k 0 d = Some d"
| "polled tryNext env k (Suc n) d =
     (case tryNext d of Inr (d', None, _) \<Rightarrow> polled tryNext env (Suc k) n (env k d') | _ \<Rightarrow> None)"

definition has_data :: "('d, 'a) try_next \<Rightarrow> 'd \<Rightarrow> bool" where
  "has_data tryNext d \<longleftrightarrow> (\<forall>d' al. tryNext d \<noteq> Inr (d', None, al))"

lemma Poller_Next_returns:
  assumes "polled tryNext env k n d = Some d'" and "has_data tryNext d' \<or> isDone (k + n)"
  shows "\<exists>r. Poller_Next tryNext isDone env k al d = Some r"
  using assms
proof (induction n arbitrary: k d al)
  case 0
  then show ?case
    by (subst Poller_Next.simps) (auto simp: has_data_def split: sum.splits option.splits)
next
  case (Suc n)
  from Suc.prems(1) obtain d1 al1 where d1: "tryNext d = Inr (d1, None, al1)"
    "polled tryNext env (Suc k) n (env k d1) = Some d'"
    by (auto split: sum.splits option.splits prod.splits)
  show ?case
  proof (cases "isDone k")
    case True
    with d1 show ?thesis by (subst Poller_Next.simps) simp
  next
    case False
    from Suc.IH [OF d1(2)] Suc.prems(2) have "\<exists>r. Poller_Next tryNext isDone env (Suc k) (al @ al1) (env k d1) = Some r"
      by simp
    with False d1(1) show ?thesis by (subst Poller_Next.simps) simp
  qed
qed

lemma Poller_Next_value:
  assumes "polled tryNext env k n d = Some d'" and "tryNext d' = Inr (d'', Some x, al')"
  shows "\<exists>al''. Poller_Next tryNext background env k al d = Some (Inr (d'', Some x, al''))"
  using assms
proof (induction n arbitrary: k d al)
  case 0
  then show ?case by (subst Poller_Next.simps) auto
next
  case (Suc n)
  from Suc.prems(1) obtain d1 al1 where d1: "tryNext d = Inr (d1, None, al1)"
    "polled tryNext env (Suc k) n (env k d1) = Some d'"
    by (auto split: sum.splits option.splits prod.splits)
  with Suc.IH [OF d1(2) Suc.prems(2), of "al @ al1"] show ?case
    by (subst Poller_Next.simps) (simp add: background_def [of k])
qed

lemma oto_length:
  "OneToOne_Set x d = Inr d' \<Longrightarrow> length (o_buffer d') = length (o_buffer d)"
  "OneToOne_TryNext d = Inr (d', v, al) \<Longrightarrow> length (o_buffer d') = length (o_buffer d)"
  by (auto simp: OneToOne_Set_def OneToOne_TryNext_def Let_def split: if_splits option.splits)

lemma oto_next_none_again:
  assumes "OneToOne_TryNext d = Inr (d', None, al)" and "length (o_buffer d) < 2 ^ 63"
  shows "\<not> has_data OneToOne_TryNext d'"
proof -
  have "o_buffer d \<noteq> []" using assms(1) by (auto simp: OneToOne_TryNext_def)
  then have "unat (o_readIndex d mod of_nat (length (o_buffer d))) < length (o_buffer d)"
    using assms(2) by (simp add: oto_index)
  with assms(1) show ?thesis
    by (auto simp: OneToOne_TryNext_def Let_def has_data_def split: if_splits option.splits)
qed

text \<open>
  The invariant: a reader that waits has a token to take, or a writer about to send one, or there is
  nothing to read.
\<close>

definition waiter_inv :: "nat \<Rightarrow> 'a Waiter \<Rightarrow> bool" where
  "waiter_inv sz s \<longleftrightarrow>
     length (o_buffer (w_diode s)) = sz \<and>
     (w_reader s = RSelect \<longrightarrow>
        w_c s \<or> w_writer s = WBroadcast \<or> \<not> has_data OneToOne_TryNext (w_diode s))"

lemma waiter_inv_step: "Waiter_step s t \<Longrightarrow> sz < 2 ^ 63 \<Longrightarrow> waiter_inv sz s \<Longrightarrow> waiter_inv sz t"
proof (induction rule: Waiter_step.induct)
  case (empty s d al)
  then show ?case using oto_next_none_again [of "w_diode s" d al] by (auto simp: waiter_inv_def oto_length)
qed (auto simp: waiter_inv_def oto_length)

lemma waiter_inv_reachable:
  "Waiter_reachable (NewWaiter (NewOneToOne sz)) s \<Longrightarrow> sz < 2 ^ 63 \<Longrightarrow> waiter_inv sz s"
proof (induction rule: Waiter_reachable.induct)
  case start
  then show ?case by (simp add: waiter_inv_def NewWaiter_def NewOneToOne_def)
next
  case (step s t)
  then show ?case using waiter_inv_step by blast
qed

section \<open>Properties\<close>

text \<open>
  C35. No wake-up is lost between the diode and the channel of the waiter: in every reachable state in
  which the reader waits, the channel is empty and no call of \<open>Set\<close> is under way, the diode has nothing
  to read. So a value that was set can always be returned: the reader can go on whenever there is one.
\<close>

theorem Waiter_no_lost_wakeup:
  assumes "Waiter_reachable (NewOneToOneWaiterEnvelopeV2 sz) s" and "sz < 2 ^ 63"
    and "w_reader s = RSelect" and "w_writer s = WIdle" and "\<not> w_c s"
  shows "\<exists>d al. OneToOne_TryNext (w_diode s) = Inr (d, None, al)"
  using waiter_inv_reachable [OF assms(1,2) [unfolded NewOneToOneWaiterEnvelopeV2_def]] assms(3-5)
  by (auto simp: waiter_inv_def has_data_def)

lemma waiter_example:
  "Waiter_reachable (NewOneToOneWaiterEnvelopeV2 1) (NewOneToOneWaiterEnvelopeV2 1\<lparr>w_reader := RSelect\<rparr>)"
  using Waiter_reachable.step [OF Waiter_reachable.start Waiter_step.empty,
      of "NewOneToOneWaiterEnvelopeV2 1" "NewOneToOne 1" "[]"]
  by (simp add: NewOneToOneWaiterEnvelopeV2_def NewWaiter_def NewOneToOne_def OneToOne_TryNext_def)

theorem Waiter_no_lost_wakeup_witness:
  "\<exists>d al. OneToOne_TryNext (w_diode (NewOneToOneWaiterEnvelopeV2 1\<lparr>w_reader := RSelect\<rparr>)) = Inr (d, None, al)"
  by (rule Waiter_no_lost_wakeup [OF waiter_example])
    (simp_all add: NewOneToOneWaiterEnvelopeV2_def NewWaiter_def)

text \<open>
  \<open>Next\<close> of the typed many-to-one diode of v2 envelopes returns, without a panic, the value of the
  first poll that finds one, however long the diode stays empty before.
\<close>

theorem ManyToOneEnvelopeV2_Next_returns:
  assumes "polled ManyToOne_TryNext env 0 n d = Some d'" and "ManyToOne_TryNext d' = Inr (d'', Some e, al)"
  shows "\<exists>al'. ManyToOneEnvelopeV2_Next env d = Some (Inr (d'', e, al'))"
  using Poller_Next_value [OF assms, of "[]"] by (auto simp: ManyToOneEnvelopeV2_Next_def typed_next_def)

lemma poll_example:
  "ManyToOne_TryNext (NewManyToOneEnvelopeV2 1) = Inr (NewManyToOneEnvelopeV2 1, None, [])"
  "ManyToOne_TryNext ((NewManyToOneEnvelopeV2 1)\<lparr>m_writeIndex := 0, m_buffer := [Some (0, \<lparr>b_data = x, b_seq = 0\<rparr>)], m_next := 1\<rparr>) =
   Inr ((NewManyToOneEnvelopeV2 1)\<lparr>m_writeIndex := 0, m_readIndex := 1, m_next := 1\<rparr>, Some x, [])"
  by (simp_all add: NewManyToOneEnvelopeV2_def NewManyToOne_def ManyToOne_TryNext_def)

theorem ManyToOneEnvelopeV2_Next_returns_witness:
  "\<exists>al'. ManyToOneEnvelopeV2_Next
      (\<lambda>k d. d\<lparr>m_writeIndex := 0, m_buffer := [Some (0, \<lparr>b_data = Some Envelope_empty, b_seq = 0\<rparr>)], m_next := 1\<rparr>)
      (NewManyToOneEnvelopeV2 1) =
    Some (Inr ((NewManyToOneEnvelopeV2 1)\<lparr>m_writeIndex := 0, m_readIndex := 1, m_next := 1\<rparr>, Some Envelope_empty, al'))"
  by (rule ManyToOneEnvelopeV2_Next_returns [OF _ poll_example(2), where n = "Suc 0"])
    (simp add: poll_example(1) [unfolded One_nat_def])

end
