(* ===== verification/Batching.thy ===== *)
theory Batching
  imports Metrics
begin

text \<open>
  The batcher (\<open>go-batching/batcher.go\<close>, \<open>plumbing/batching/v2_envelope_batcher.go\<close>) and the batch writers
  of the egress servers, which send a batch and report a failure on a channel of capacity 1.

  Times are readings of the clock in nanoseconds; a call that reads the clock twice has two arguments.
  The writer of a batcher is called with a batch: an operation returns the batches it writes.
\<close>

section \<open>The batcher\<close>

record 'a Batcher =
  bt_size :: int
  bt_interval :: int
  bt_batch :: "'a list"
  bt_lastSent :: int

definition NewBatcher :: "int \<Rightarrow> int \<Rightarrow> int \<Rightarrow> 'a Batcher" where
  "NewBatcher sz interval now = \<lparr>bt_size = sz, bt_interval = interval, bt_batch = [], bt_lastSent = now\<rparr>"

definition partialBatch :: "'a Batcher \<Rightarrow> bool" where
  "partialBatch b = (int (length (bt_batch b)) < bt_size b)"

definition partialInterval :: "int \<Rightarrow> 'a Batcher \<Rightarrow> bool" where
  "partialInterval now b = (now - bt_lastSent b < bt_interval b)"

definition writeBatch :: "int \<Rightarrow> 'a Batcher \<Rightarrow> 'a Batcher \<times> 'a list list" where
  "writeBatch now b =
     (if length (bt_batch b) = 0 then (b, [])
      else (b\<lparr>bt_batch := [], bt_lastSent := now\<rparr>, [bt_batch b]))"

definition Batcher_Write :: "int \<Rightarrow> int \<Rightarrow> 'a \<Rightarrow> 'a Batcher \<Rightarrow> 'a Batcher \<times> 'a list list" where
  "Batcher_Write now now' data b =
     (let b = b\<lparr>bt_batch := bt_batch b @ [data]\<rparr>
      in if partialBatch b \<and> partialInterval now b then (b, []) else writeBatch now' b)"

definition Batcher_ForcedFlush :: "int \<Rightarrow> 'a Batcher \<Rightarrow> 'a Batcher \<times> 'a list list" where
  "Batcher_ForcedFlush now b = writeBatch now b"

definition Batcher_Flush :: "int \<Rightarrow> int \<Rightarrow> 'a Batcher \<Rightarrow> 'a Batcher \<times> 'a list list" where
  "Batcher_Flush now now' b = (if partialInterval now b then (b, []) else writeBatch now' b)"

text \<open>The typed wrapper: the elements are asserted to be envelopes again, which \<open>Write\<close> guarantees.\<close>

definition NewV2EnvelopeBatcher :: "int \<Rightarrow> int \<Rightarrow> int \<Rightarrow> Envelope Batcher" where
  "NewV2EnvelopeBatcher sz interval now = NewBatcher sz interval now"

definition V2EnvelopeBatcher_Write ::
    "int \<Rightarrow> int \<Rightarrow> Envelope \<Rightarrow> Envelope Batcher \<Rightarrow> Envelope Batcher \<times> Envelope list list" where
  "V2EnvelopeBatcher_Write now now' data b = Batcher_Write now now' data b"

section \<open>A stream and its batch writer\<close>

text \<open>
  The state of one call of a batched receiver: the batcher, the channel \<open>errStream\<close> of capacity 1, the
  egress counter and the gauge of subscriptions. \<open>st_got\<close>, \<open>st_tried\<close> and \<open>st_sent\<close> record the data received,
  the batches passed to \<open>Send\<close> and those for which it succeeded. A goroutine that sends to the full
  channel, which only it would empty, is \<open>Blocked\<close> for ever.
\<close>

datatype 'err status = Running | Returned 'err | Blocked

record ('a, 'err) stream_state =
  st_batcher :: "'a Batcher"
  st_errStream :: "'err option"
  st_egress :: metric_Counter
  st_subscriptions :: metric_Gauge
  st_status :: "'err status"
  st_got :: "'a list"
  st_tried :: "'a list list"
  st_sent :: "'a list list"

text \<open>\<open>batchWriter.Write\<close>; \<open>err\<close> is what \<open>Send\<close> returns.\<close>

definition batchWriter_Write :: "'err option \<Rightarrow> 'a list \<Rightarrow> ('a, 'err) stream_state \<Rightarrow> ('a, 'err) stream_state" where
  "batchWriter_Write err batch s =
     (let s = s\<lparr>st_tried := st_tried s @ [batch]\<rparr>
      in case err of
           None \<Rightarrow> s\<lparr>st_egress := Counter_Increment (of_nat (length batch)) (st_egress s), st_sent := st_sent s @ [batch]\<rparr>
         | Some e \<Rightarrow>
             if st_errStream s = None then s\<lparr>st_errStream := Some e\<rparr>
             else s\<lparr>st_status := Blocked\<rparr>)"

text \<open>
  An operation of the batcher with its writer attached. In the code the batch is cleared when the writer has returned; here it is
  cleared as it is passed on. The two differ only while the writer is blocked for ever, when nothing reads the batch any more:
  then \<open>st_tried\<close> has it and \<open>bt_batch\<close> has not.
\<close>

definition batched ::
    "'err option \<Rightarrow> ('a Batcher \<Rightarrow> 'a Batcher \<times> 'a list list) \<Rightarrow> ('a, 'err) stream_state \<Rightarrow> ('a, 'err) stream_state" where
  "batched err f s =
     (let (b, batches) = f (st_batcher s)
      in foldl (\<lambda>s batch. batchWriter_Write err batch s) (s\<lparr>st_batcher := b\<rparr>) batches)"

text \<open>Entering and leaving a receiver.\<close>

definition enter_stream ::
    "(float64 \<Rightarrow> uint64) \<Rightarrow> float64 \<Rightarrow> 'a Batcher \<Rightarrow> metric_Counter \<Rightarrow> metric_Gauge \<Rightarrow> ('a, 'err) stream_state" where
  "enter_stream toUint64 one b egress subs =
     \<lparr>st_batcher = b, st_errStream = None, st_egress = egress, st_subscriptions = Gauge_Increment toUint64 one subs,
      st_status = Running, st_got = [], st_tried = [], st_sent = []\<rparr>"

definition leave_stream ::
    "(float64 \<Rightarrow> uint64) \<Rightarrow> float64 \<Rightarrow> 'err \<Rightarrow> ('a, 'err) stream_state \<Rightarrow> ('a, 'err) stream_state" where
  "leave_stream toUint64 one e s =
     s\<lparr>st_status := Returned e, st_subscriptions := Gauge_Decrement toUint64 one (st_subscriptions s)\<rparr>"

section \<open>Invariants of a stream\<close>

definition batcher_ok :: "'a Batcher \<Rightarrow> bool" where
  "batcher_ok b \<longleftrightarrow> int (length (bt_batch b)) < max 1 (bt_size b)"

text \<open>
  Nothing is lost, duplicated or reordered on the way to \<open>Send\<close>; batches are not empty and not longer than
  the batch size; the counter counts what was sent; the gauge counts this stream while it runs.
\<close>

definition stream_inv ::
    "(float64 \<Rightarrow> uint64) \<Rightarrow> float64 \<Rightarrow> int \<Rightarrow> metric_Counter \<Rightarrow> metric_Gauge \<Rightarrow> ('a, 'err) stream_state \<Rightarrow> bool" where
  "stream_inv toUint64 one sz c0 g0 s \<longleftrightarrow>
     bt_size (st_batcher s) = sz \<and> batcher_ok (st_batcher s) \<and>
     concat (st_tried s) @ bt_batch (st_batcher s) = st_got s \<and>
     (\<forall>b \<in> set (st_tried s). b \<noteq> [] \<and> int (length b) \<le> max 1 sz) \<and>
     subseq (st_sent s) (st_tried s) \<and>
     mc_delta (st_egress s) = mc_delta c0 + of_nat (length (concat (st_sent s))) \<and>
     mg_value (st_subscriptions s) =
       mg_value g0 + (case st_status s of Returned _ \<Rightarrow> 0 | _ \<Rightarrow> toUint64 one)"

lemma stream_inv_enter:
  "stream_inv f one sz c0 g0 (enter_stream f one (NewBatcher sz interval now) c0 g0)"
  by (simp add: stream_inv_def enter_stream_def NewBatcher_def batcher_ok_def Gauge_Increment_def)

lemma stream_inv_leave:
  "stream_inv f one sz c0 g0 s \<Longrightarrow> (\<forall>e. st_status s \<noteq> Returned e) \<Longrightarrow> stream_inv f one sz c0 g0 (leave_stream f one e s)"
  by (cases "st_status s")
    (auto simp: stream_inv_def leave_stream_def Gauge_Decrement_def not_eq_complement)

lemma stream_inv_errStream: "stream_inv f one sz c0 g0 s \<Longrightarrow> stream_inv f one sz c0 g0 (s\<lparr>st_errStream := x\<rparr>)"
  by (simp add: stream_inv_def)

lemma leave_stream_status [simp]: "st_status (leave_stream f one e s) = Returned e"
  by (simp add: leave_stream_def)

lemma batchWriter_Write_sel:
  "st_batcher (batchWriter_Write err batch s) = st_batcher s"
  "st_got (batchWriter_Write err batch s) = st_got s"
  "st_tried (batchWriter_Write err batch s) = st_tried s @ [batch]"
  "st_subscriptions (batchWriter_Write err batch s) = st_subscriptions s"
  "st_sent (batchWriter_Write err batch s) = st_sent s @ (if err = None then [batch] else [])"
  "mc_delta (st_egress (batchWriter_Write err batch s)) =
     mc_delta (st_egress s) + (if err = None then of_nat (length batch) else 0)"
  by (auto simp: batchWriter_Write_def Counter_Increment_def Let_def split: option.splits)

lemma batchWriter_Write_status:
  "st_status (batchWriter_Write err batch s) =
     (if err \<noteq> None \<and> st_errStream s \<noteq> None then Blocked else st_status s)"
  "st_errStream (batchWriter_Write err batch s) =
     (if st_errStream s = None then err else st_errStream s)"
  by (auto simp: batchWriter_Write_def Let_def split: option.splits)

text \<open>What one operation of the batcher may do: keep everything, or write out the whole batch.\<close>

lemma writeBatch_cases:
  "writeBatch now b = (b', bs) \<Longrightarrow> bt_size b' = bt_size b \<and>
   (b' = b \<and> bs = [] \<or> bt_batch b \<noteq> [] \<and> bt_batch b' = [] \<and> bs = [bt_batch b])"
  by (auto simp: writeBatch_def split: if_splits)

lemma batched_cases:
  assumes "f (st_batcher s) = (b', bs)" and "bs = [] \<or> (\<exists>x. bs = [x])"
  shows "batched err f s = (if bs = [] then s\<lparr>st_batcher := b'\<rparr> else batchWriter_Write err (hd bs) (s\<lparr>st_batcher := b'\<rparr>))"
  using assms by (auto simp: batched_def)

lemma stream_inv_write:
  assumes "stream_inv f one sz c0 g0 s" and "st_status s = Running"
    and "concat bs @ bt_batch b' = bt_batch (st_batcher s) @ xs" and "bt_size b' = sz" and "batcher_ok b'"
    and "bs = [] \<or> (\<exists>x. bs = [x] \<and> x \<noteq> [] \<and> int (length x) \<le> max 1 sz)"
  shows "stream_inv f one sz c0 g0
    (batched err (\<lambda>_. (b', bs)) (s\<lparr>st_got := st_got s @ xs\<rparr>))"
proof (cases "bs = []")
  case True
  with assms show ?thesis by (auto simp: batched_def stream_inv_def)
next
  case False
  then obtain x where x: "bs = [x]" "x \<noteq> []" "int (length x) \<le> max 1 sz" using assms(6) by auto
  then have eq: "batched err (\<lambda>_. (b', bs)) (s\<lparr>st_got := st_got s @ xs\<rparr>) =
      batchWriter_Write err x (s\<lparr>st_got := st_got s @ xs, st_batcher := b'\<rparr>)" by (simp add: batched_def)
  have sub: "subseq (st_sent s @ (if err = None then [x] else [])) (st_tried s @ [x])"
    using assms(1) list_emb_append_mono [of "(=)" "st_sent s" "st_tried s" "if err = None then [x] else []" "[x]"]
    by (simp add: stream_inv_def)
  have gauge: "(case st_status (batchWriter_Write err x (s\<lparr>st_got := st_got s @ xs, st_batcher := b'\<rparr>)) of
      Returned _ \<Rightarrow> 0 | _ \<Rightarrow> f one) = f one"
    by (simp add: batchWriter_Write_status assms(2))
  have got: "concat (st_tried s) @ bt_batch (st_batcher s) = st_got s"
    and tried: "\<forall>b \<in> set (st_tried s). b \<noteq> [] \<and> int (length b) \<le> max 1 sz"
    and cnt: "mc_delta (st_egress s) = mc_delta c0 + of_nat (length (concat (st_sent s)))"
    and sub0: "mg_value (st_subscriptions s) = mg_value g0 + f one"
    using assms(1,2) by (simp_all add: stream_inv_def)
  have "concat (st_tried s @ [x]) @ bt_batch b' = st_got s @ xs" using got assms(3) x(1) by auto
  moreover have "\<forall>b \<in> set (st_tried s @ [x]). b \<noteq> [] \<and> int (length b) \<le> max 1 sz" using tried x by auto
  ultimately show ?thesis
    unfolding eq stream_inv_def batchWriter_Write_sel gauge
    using assms(4,5) sub cnt sub0 by simp
qed

lemma stream_inv_Write:
  assumes "stream_inv f one sz c0 g0 s" and "st_status s = Running"
  shows "stream_inv f one sz c0 g0
    (batched err (Batcher_Write now now' x) (s\<lparr>st_got := st_got s @ [x]\<rparr>))"
proof -
  obtain b' bs where w: "Batcher_Write now now' x (st_batcher s) = (b', bs)" by fastforce
  let ?b = "st_batcher s\<lparr>bt_batch := bt_batch (st_batcher s) @ [x]\<rparr>"
  have ok: "batcher_ok (st_batcher s)" "bt_size (st_batcher s) = sz" using assms(1) by (simp_all add: stream_inv_def)
  have "bt_size b' = sz \<and> batcher_ok b' \<and> concat bs @ bt_batch b' = bt_batch (st_batcher s) @ [x] \<and>
      (bs = [] \<or> (\<exists>x. bs = [x] \<and> x \<noteq> [] \<and> int (length x) \<le> max 1 sz))"
    using w ok by (auto simp: Batcher_Write_def writeBatch_def partialBatch_def batcher_ok_def Let_def split: if_splits)
  then have "stream_inv f one sz c0 g0 (batched err (\<lambda>_. (b', bs)) (s\<lparr>st_got := st_got s @ [x]\<rparr>))"
    using stream_inv_write [OF assms] by blast
  then show ?thesis using w by (simp add: batched_def)
qed

lemma stream_inv_flush:
  assumes "stream_inv f one sz c0 g0 s" and "st_status s = Running"
  shows "stream_inv f one sz c0 g0 (batched err (Batcher_ForcedFlush now) s)"
    and "stream_inv f one sz c0 g0 (batched err (Batcher_Flush now now') s)"
proof -
  have ok: "batcher_ok (st_batcher s)" "bt_size (st_batcher s) = sz" using assms(1) by (simp_all add: stream_inv_def)
  have *: "stream_inv f one sz c0 g0 (batched err g s)"
    if "g (st_batcher s) = (st_batcher s, []) \<or> g (st_batcher s) = writeBatch t (st_batcher s)" for g t
  proof -
    obtain b' bs where w: "g (st_batcher s) = (b', bs)" by fastforce
    have "bt_size b' = sz \<and> batcher_ok b' \<and> concat bs @ bt_batch b' = bt_batch (st_batcher s) @ [] \<and>
        (bs = [] \<or> (\<exists>x. bs = [x] \<and> x \<noteq> [] \<and> int (length x) \<le> max 1 sz))"
      using w that ok by (auto simp: writeBatch_def batcher_ok_def split: if_splits)
    then have "stream_inv f one sz c0 g0 (batched err (\<lambda>_. (b', bs)) (s\<lparr>st_got := st_got s @ []\<rparr>))"
      using stream_inv_write [OF assms] by blast
    then show ?thesis using w by (simp add: batched_def)
  qed
  show "stream_inv f one sz c0 g0 (batched err (Batcher_ForcedFlush now) s)"
    by (rule * [of _ now]) (simp add: Batcher_ForcedFlush_def)
  show "stream_inv f one sz c0 g0 (batched err (Batcher_Flush now now') s)"
    by (rule * [of _ now']) (simp add: Batcher_Flush_def)
qed

end
