(* ===== verification/ServersV2.thy ===== *)
theory ServersV2
  imports RouterV2 Batching DiodeReaders
begin

text \<open>
  The gRPC servers of the v2 router: \<open>ingress_server.go\<close>, \<open>egress_server.go\<close> and \<open>repeater.go\<close> in
  \<open>router/internal/server/v2\<close>.

  A stream is the list of the results of \<open>Recv\<close>; the conversion to v1 envelopes, the clock and the answers
  of \<open>Send\<close> are parameters. The loop of \<open>BatchedReceiver\<close> may take any ready case of its \<open>select\<close>, so a run
  of it is a list of cases.
\<close>

section \<open>Ingress\<close>

record 'v1 IngressServer =
  is_v1Buf :: "'v1 option ManyToOne"
  is_v2Buf :: "Envelope option ManyToOne"
  is_ingressMetric :: metric_Counter

definition NewIngressServer ::
    "'v1 option ManyToOne \<Rightarrow> Envelope option ManyToOne \<Rightarrow> metric_Counter \<Rightarrow> 'v1 IngressServer" where
  "NewIngressServer v1Buf v2Buf ingressMetric =
     \<lparr>is_v1Buf = v1Buf, is_v2Buf = v2Buf, is_ingressMetric = ingressMetric\<rparr>"

datatype grpc_error = Unimplemented string | StreamError string

definition IngressServer_Send :: "'v1 IngressServer \<Rightarrow> grpc_error" where
  "IngressServer_Send i = Unimplemented ''this endpoint is not yet implemented''"

text \<open>The inner loop over the v1 envelopes; \<open>typed\<close> says whether \<open>EventType\<close> is set.\<close>

fun ingress_v1 :: "('v1 \<Rightarrow> bool) \<Rightarrow> 'v1 option list \<Rightarrow> 'v1 IngressServer \<Rightarrow> 'v1 IngressServer go option" where
  "ingress_v1 typed [] i = Some (Inr i)"
| "ingress_v1 typed (v1e # rest) i =
     (if v1e = None \<or> \<not> typed (the v1e) then ingress_v1 typed rest i
      else
        (case ManyToOneEnvelope_Set v1e (is_v1Buf i) of
           None \<Rightarrow> None
         | Some (Inl p) \<Rightarrow> Some (Inl p)
         | Some (Inr (d, _)) \<Rightarrow>
             ingress_v1 typed rest
               (i\<lparr>is_v1Buf := d, is_ingressMetric := Counter_Increment 1 (is_ingressMetric i)\<rparr>)))"

text \<open>The body of the loops for one v2 envelope.\<close>

definition ingress_envelope ::
    "(Envelope \<Rightarrow> 'v1 option list) \<Rightarrow> ('v1 \<Rightarrow> bool) \<Rightarrow> Envelope \<Rightarrow> 'v1 IngressServer \<Rightarrow> 'v1 IngressServer go option" where
  "ingress_envelope toV1 typed v2e i =
     (case ManyToOneEnvelopeV2_Set (Some v2e) (is_v2Buf i) of
        None \<Rightarrow> None
      | Some (Inl p) \<Rightarrow> Some (Inl p)
      | Some (Inr (d, _)) \<Rightarrow> ingress_v1 typed (toV1 v2e) (i\<lparr>is_v2Buf := d\<rparr>))"

fun ingress_batch ::
    "(Envelope \<Rightarrow> 'v1 option list) \<Rightarrow> ('v1 \<Rightarrow> bool) \<Rightarrow> Envelope list \<Rightarrow> 'v1 IngressServer \<Rightarrow> 'v1 IngressServer go option" where
  "ingress_batch toV1 typed [] i = Some (Inr i)"
| "ingress_batch toV1 typed (v2e # rest) i =
     (case ingress_envelope toV1 typed v2e i of
        Some (Inr i) \<Rightarrow> ingress_batch toV1 typed rest i
      | r \<Rightarrow> r)"

text \<open>
  The list gives the results of \<open>Recv\<close> so far; the result has the error that ended the call, or \<open>None\<close> if
  the server waits for the next message.
\<close>

fun IngressServer_BatchSender ::
    "(Envelope \<Rightarrow> 'v1 option list) \<Rightarrow> ('v1 \<Rightarrow> bool) \<Rightarrow> (grpc_error + Envelope list) list \<Rightarrow> 'v1 IngressServer \<Rightarrow>
     ('v1 IngressServer \<times> grpc_error option) go option" where
  "IngressServer_BatchSender toV1 typed [] i = Some (Inr (i, None))"
| "IngressServer_BatchSender toV1 typed (r # rs) i =
     (case r of
        Inl err \<Rightarrow> Some (Inr (i, Some err))
      | Inr v2eBatch \<Rightarrow>
          (case ingress_batch toV1 typed v2eBatch i of
             None \<Rightarrow> None
           | Some (Inl p) \<Rightarrow> Some (Inl p)
           | Some (Inr i) \<Rightarrow> IngressServer_BatchSender toV1 typed rs i))"

fun IngressServer_Sender ::
    "(Envelope \<Rightarrow> 'v1 option list) \<Rightarrow> ('v1 \<Rightarrow> bool) \<Rightarrow> (grpc_error + Envelope) list \<Rightarrow> 'v1 IngressServer \<Rightarrow>
     ('v1 IngressServer \<times> grpc_error option) go option" where
  "IngressServer_Sender toV1 typed [] i = Some (Inr (i, None))"
| "IngressServer_Sender toV1 typed (r # rs) i =
     (case r of
        Inl err \<Rightarrow> Some (Inr (i, Some err))
      | Inr v2e \<Rightarrow>
          (case ingress_envelope toV1 typed v2e i of
             None \<Rightarrow> None
           | Some (Inl p) \<Rightarrow> Some (Inl p)
           | Some (Inr i) \<Rightarrow> IngressServer_Sender toV1 typed rs i))"

section \<open>The repeater\<close>

text \<open>The first \<open>n\<close> rounds of \<open>Start\<close>: \<open>r\<close> reads from and \<open>w\<close> writes to the state they share.\<close>

fun Repeater_Start :: "('s \<Rightarrow> Envelope option \<times> 's) \<Rightarrow> (Envelope option \<Rightarrow> 's \<Rightarrow> 's) \<Rightarrow> nat \<Rightarrow> 's \<Rightarrow> 's" where
  "Repeater_Start r w 0 s = s"
| "Repeater_Start r w (Suc n) s = (let (e, s) = r s in Repeater_Start r w n (w e s))"

section \<open>Egress\<close>

definition EgressServer_Alert :: "int \<Rightarrow> metric_Counter \<Rightarrow> metric_Counter" where
  "EgressServer_Alert missed droppedMetric = Counter_Increment (of_int missed) droppedMetric"

definition EgressServer_Receiver :: "EgressRequest \<Rightarrow> grpc_error" where
  "EgressServer_Receiver req = Unimplemented ''use BatchedReceiver instead''"

text \<open>The goroutine that moves envelopes from the diode to the channel \<open>c\<close>: it ends on nil.\<close>

fun egress_forward :: "Envelope option list \<Rightarrow> Envelope list" where
  "egress_forward [] = []"
| "egress_forward (None # rest) = []"
| "egress_forward (Some env # rest) = env # egress_forward rest"

text \<open>
  The cases of the \<open>select\<close>: the context is done with an error; there is an error in the channel; the timer
  has fired; there is an envelope. The last two carry the readings of the clock and the answer of \<open>Send\<close>,
  in case the batcher writes. \<open>None\<close> is a case that is not ready.
\<close>

datatype select_case =
    SelDone string
  | SelErr
  | SelTimer int "string option"
  | SelEnv Envelope int int "string option"

definition BatchedReceiver_select ::
    "(float64 \<Rightarrow> uint64) \<Rightarrow> float64 \<Rightarrow> select_case \<Rightarrow> (Envelope, string) stream_state \<Rightarrow> (Envelope, string) stream_state option" where
  "BatchedReceiver_select toUint64 one c s =
     (if st_status s \<noteq> Running then None
      else
        case c of
          SelDone err \<Rightarrow> Some (leave_stream toUint64 one err s)
        | SelErr \<Rightarrow>
            (case st_errStream s of
               None \<Rightarrow> None
             | Some err \<Rightarrow> Some (leave_stream toUint64 one err (s\<lparr>st_errStream := None\<rparr>)))
        | SelTimer now err \<Rightarrow> Some (batched err (Batcher_ForcedFlush now) s)
        | SelEnv env now now' err \<Rightarrow>
            Some (batched err (V2EnvelopeBatcher_Write now now' env) (s\<lparr>st_got := st_got s @ [env]\<rparr>)))"

fun BatchedReceiver_loop ::
    "(float64 \<Rightarrow> uint64) \<Rightarrow> float64 \<Rightarrow> select_case list \<Rightarrow> (Envelope, string) stream_state \<Rightarrow> (Envelope, string) stream_state option" where
  "BatchedReceiver_loop toUint64 one [] s = Some s"
| "BatchedReceiver_loop toUint64 one (c # cs) s =
     (case BatchedReceiver_select toUint64 one c s of
        None \<Rightarrow> None | Some s \<Rightarrow> BatchedReceiver_loop toUint64 one cs s)"

text \<open>The whole call: subscribe, run the loop, and unsubscribe when it returns.\<close>

text \<open>The server; its counter of dropped envelopes and its gauge are shared with the v1 server.\<close>

record EgressServer =
  es_egressMetric :: metric_Counter
  es_batchInterval :: int
  es_batchSize :: int

definition NewEgressServer :: "metric_Client \<Rightarrow> int \<Rightarrow> int \<Rightarrow> EgressServer" where
  "NewEgressServer m batchInterval batchSize =
     \<lparr>es_egressMetric = Client_NewCounter ''egress'' [WithVersion 2 0] m, es_batchInterval = batchInterval, es_batchSize = batchSize\<rparr>"

definition BatchedReceiver_start ::
    "(float64 \<Rightarrow> uint64) \<Rightarrow> float64 \<Rightarrow> int \<Rightarrow> int \<Rightarrow> int \<Rightarrow> metric_Counter \<Rightarrow> metric_Gauge \<Rightarrow> (Envelope, string) stream_state" where
  "BatchedReceiver_start toUint64 one batchSize batchInterval now egressMetric subscriptionsMetric =
     enter_stream toUint64 one (NewV2EnvelopeBatcher batchSize batchInterval now) egressMetric subscriptionsMetric"

definition BatchedReceiver_subscribe ::
    "(nat \<Rightarrow> uint64) \<Rightarrow> EgressBatchRequest \<Rightarrow> 'w \<Rightarrow> 'w sub_closure Node \<Rightarrow> (handle list \<times> 'w sub_closure Node) go option" where
  "BatchedReceiver_subscribe rs req d n = v2_Subscribe rs req d n"

definition BatchedReceiver_cancel :: "handle list \<Rightarrow> 'w sub_closure Node \<Rightarrow> 'w sub_closure Node go" where
  "BatchedReceiver_cancel hs n = v2_unsubscribe hs n"

section \<open>Lemmas\<close>

text \<open>A many-writer diode that took the values \<open>ws\<close>, of which \<open>r\<close> are behind the reader.\<close>

abbreviation mto_holds :: "'a list \<Rightarrow> nat \<Rightarrow> 'a ManyToOne \<Rightarrow> bool" where
  "mto_holds ws r d \<equiv> oto_inv ws r (mto_abs d)"

lemma mto_holds_set:
  assumes "mto_holds ws r d" and "Suc (length ws) < 2 ^ 63"
  shows "\<exists>d'. ManyToOne_Set x d l = Some (Inr (d', l)) \<and> mto_holds (ws @ [x]) r d'"
proof -
  obtain d' where "ManyToOne_Set x d l = Some (Inr (d', l))" "OneToOne_Set x (mto_abs d) = Inr (mto_abs d')"
    using mto_set_abs [OF assms(1)] by blast
  with oto_set [OF assms, of x] show ?thesis by auto
qed

definition ingress_holds :: "'v1 option list \<Rightarrow> nat \<Rightarrow> Envelope option list \<Rightarrow> nat \<Rightarrow> uint64 \<Rightarrow> 'v1 IngressServer \<Rightarrow> bool" where
  "ingress_holds w1 r1 w2 r2 cnt i \<longleftrightarrow>
     mto_holds w1 r1 (is_v1Buf i) \<and> mto_holds w2 r2 (is_v2Buf i) \<and> mc_delta (is_ingressMetric i) = cnt"

definition v1_of :: "(Envelope \<Rightarrow> 'v1 option list) \<Rightarrow> ('v1 \<Rightarrow> bool) \<Rightarrow> Envelope \<Rightarrow> 'v1 option list" where
  "v1_of toV1 typed e = filter (\<lambda>v. v \<noteq> None \<and> typed (the v)) (toV1 e)"

lemma ingress_v1_spec:
  assumes "ingress_holds w1 r1 w2 r2 cnt i" and "length w1 + length vs < 2 ^ 63"
  shows "\<exists>i'. ingress_v1 typed vs i = Some (Inr i') \<and>
    ingress_holds (w1 @ filter (\<lambda>v. v \<noteq> None \<and> typed (the v)) vs) r1 w2 r2
      (cnt + of_nat (length (filter (\<lambda>v. v \<noteq> None \<and> typed (the v)) vs))) i'"
  using assms
proof (induction vs arbitrary: w1 cnt i)
  case (Cons v vs)
  show ?case
  proof (cases "v = None \<or> \<not> typed (the v)")
    case True
    with Cons.IH [OF Cons.prems(1)] Cons.prems(2) show ?thesis by auto
  next
    case False
    from Cons.prems have "mto_holds w1 r1 (is_v1Buf i)" "Suc (length w1) < 2 ^ 63" by (simp_all add: ingress_holds_def)
    from mto_holds_set [OF this, of v 0] obtain d where
      d: "ManyToOneEnvelope_Set v (is_v1Buf i) = Some (Inr (d, 0))" "mto_holds (w1 @ [v]) r1 d"
      by (auto simp: ManyToOneEnvelope_Set_def)
    let ?i = "i\<lparr>is_v1Buf := d, is_ingressMetric := Counter_Increment 1 (is_ingressMetric i)\<rparr>"
    have "ingress_holds (w1 @ [v]) r1 w2 r2 (cnt + 1) ?i"
      using Cons.prems(1) d(2) by (simp add: ingress_holds_def Counter_Increment_def)
    from Cons.IH [OF this] Cons.prems(2) False d(1) show ?thesis by (auto simp: add.assoc)
  qed
qed simp

lemma ingress_envelope_spec:
  assumes "ingress_holds w1 r1 w2 r2 cnt i" and "length w1 + length (toV1 e) < 2 ^ 63" and "Suc (length w2) < 2 ^ 63"
  shows "\<exists>i'. ingress_envelope toV1 typed e i = Some (Inr i') \<and>
    ingress_holds (w1 @ v1_of toV1 typed e) r1 (w2 @ [Some e]) r2 (cnt + of_nat (length (v1_of toV1 typed e))) i'"
proof -
  from assms(1) have "mto_holds w2 r2 (is_v2Buf i)" by (simp add: ingress_holds_def)
  from mto_holds_set [OF this assms(3), of "Some e" 0] obtain d where
    d: "ManyToOneEnvelopeV2_Set (Some e) (is_v2Buf i) = Some (Inr (d, 0))" "mto_holds (w2 @ [Some e]) r2 d"
    by (auto simp: ManyToOneEnvelopeV2_Set_def)
  have "ingress_holds w1 r1 (w2 @ [Some e]) r2 cnt (i\<lparr>is_v2Buf := d\<rparr>)"
    using assms(1) d(2) by (simp add: ingress_holds_def)
  from ingress_v1_spec [OF this assms(2), of typed] d(1) show ?thesis
    by (simp add: ingress_envelope_def v1_of_def)
qed

lemma ingress_batch_spec:
  assumes "ingress_holds w1 r1 w2 r2 cnt i"
    and "length w1 + length (concat (map toV1 es)) < 2 ^ 63" and "length w2 + length es < 2 ^ 63"
  shows "\<exists>i'. ingress_batch toV1 typed es i = Some (Inr i') \<and>
    ingress_holds (w1 @ concat (map (v1_of toV1 typed) es)) r1 (w2 @ map Some es) r2
      (cnt + of_nat (length (concat (map (v1_of toV1 typed) es)))) i'"
  using assms
proof (induction es arbitrary: w1 w2 cnt i)
  case (Cons e es)
  have le: "length (v1_of toV1 typed e) \<le> length (toV1 e)" by (simp add: v1_of_def)
  obtain i1 where i1: "ingress_envelope toV1 typed e i = Some (Inr i1)"
    "ingress_holds (w1 @ v1_of toV1 typed e) r1 (w2 @ [Some e]) r2 (cnt + of_nat (length (v1_of toV1 typed e))) i1"
    using ingress_envelope_spec [OF Cons.prems(1), of toV1 e typed] Cons.prems(2,3) by auto
  from Cons.IH [OF i1(2)] Cons.prems(2,3) le i1(1) show ?case by (simp add: add.assoc)
qed simp

lemma BatchSender_spec:
  assumes "ingress_holds w1 r1 w2 r2 cnt i"
    and "length w1 + length (concat (map toV1 (concat bs))) < 2 ^ 63" and "length w2 + length (concat bs) < 2 ^ 63"
  shows "\<exists>i'. IngressServer_BatchSender toV1 typed (map Inr bs @ rs) i =
      IngressServer_BatchSender toV1 typed rs i' \<and>
    ingress_holds (w1 @ concat (map (v1_of toV1 typed) (concat bs))) r1 (w2 @ map Some (concat bs)) r2
      (cnt + of_nat (length (concat (map (v1_of toV1 typed) (concat bs))))) i'"
  using assms
proof (induction bs arbitrary: w1 w2 cnt i)
  case (Cons es bs)
  have le: "length (concat (map (v1_of toV1 typed) es)) \<le> length (concat (map toV1 es))"
    by (induction es) (auto simp: v1_of_def intro!: add_mono)
  obtain i1 where i1: "ingress_batch toV1 typed es i = Some (Inr i1)"
    "ingress_holds (w1 @ concat (map (v1_of toV1 typed) es)) r1 (w2 @ map Some es) r2
      (cnt + of_nat (length (concat (map (v1_of toV1 typed) es)))) i1"
    using ingress_batch_spec [OF Cons.prems(1), of toV1 es typed] Cons.prems(2,3) by auto
  from Cons.IH [OF i1(2)] Cons.prems(2,3) le i1(1) show ?case by (simp add: add.assoc)
qed auto

lemma BatchedReceiver_inv:
  assumes "BatchedReceiver_loop f one cs s = Some s'" and "stream_inv f one sz c0 g0 s"
  shows "stream_inv f one sz c0 g0 s'"
  using assms
proof (induction cs arbitrary: s)
  case (Cons c cs)
  from Cons.prems(1) obtain s1 where s1: "BatchedReceiver_select f one c s = Some s1"
    "BatchedReceiver_loop f one cs s1 = Some s'" by (auto split: option.splits)
  then have run: "st_status s = Running" by (auto simp: BatchedReceiver_select_def split: if_splits)
  have "stream_inv f one sz c0 g0 s1"
  proof (cases c)
    case SelErr
    with s1 run Cons.prems(2) show ?thesis
      by (auto simp: BatchedReceiver_select_def split: option.splits intro!: stream_inv_leave stream_inv_errStream)
  qed (use s1 run Cons.prems(2) in
        \<open>auto simp: BatchedReceiver_select_def V2EnvelopeBatcher_Write_def [abs_def]
          intro: stream_inv_leave stream_inv_flush stream_inv_Write\<close>)
  with Cons.IH s1(2) show ?case by blast
qed simp

section \<open>Properties\<close>

text \<open>
  Ingress: \<open>BatchSender\<close> puts every envelope of every batch it received into the v2 diode, and every v1
  envelope it converts to that is not nil and has a type into the v1 diode, in order; it counts the
  latter, never blocks in a diode, and ends with the error of \<open>Recv\<close>.
\<close>

theorem BatchSender_ingests:
  assumes "ingress_holds w1 r1 w2 r2 cnt i"
    and "length w1 + length (concat (map toV1 (concat bs))) < 2 ^ 63" and "length w2 + length (concat bs) < 2 ^ 63"
  shows "\<exists>i'. IngressServer_BatchSender toV1 typed (map Inr bs @ [Inl err]) i = Some (Inr (i', Some err)) \<and>
    ingress_holds (w1 @ concat (map (v1_of toV1 typed) (concat bs))) r1 (w2 @ map Some (concat bs)) r2
      (cnt + of_nat (length (concat (map (v1_of toV1 typed) (concat bs))))) i'"
  using BatchSender_spec [OF assms, of typed "[Inl err]"] by auto

lemma ingress_new:
  "0 < sz \<Longrightarrow> sz < 2 ^ 63 \<Longrightarrow> mc_delta c = 0 \<Longrightarrow>
   ingress_holds [] 0 [] 0 0 (NewIngressServer (NewManyToOneEnvelope sz) (NewManyToOneEnvelopeV2 sz) c)"
  by (simp add: ingress_holds_def NewIngressServer_def NewManyToOneEnvelope_def NewManyToOneEnvelopeV2_def
      mto_abs_new oto_inv_new)

theorem BatchSender_ingests_witness:
  "\<exists>i'. IngressServer_BatchSender (\<lambda>e. [Some (), None]) (\<lambda>_. True) [Inr [Envelope_empty, Envelope_empty], Inl (StreamError ''EOF'')]
      (NewIngressServer (NewManyToOneEnvelope 8) (NewManyToOneEnvelopeV2 8) (NewCounter ''ingress'' ''doppler'' [])) =
      Some (Inr (i', Some (StreamError ''EOF''))) \<and>
    ingress_holds [Some (), Some ()] 0 [Some Envelope_empty, Some Envelope_empty] 0 2 i'"
  using BatchSender_ingests [OF ingress_new [of 8 "NewCounter ''ingress'' ''doppler'' []"],
      of "\<lambda>e. [Some (), None]" "[[Envelope_empty, Envelope_empty]]" "\<lambda>_. True" "StreamError ''EOF''"]
  by (simp add: v1_of_def NewCounter_def)

text \<open>
  C24. Egress: in every run of \<open>BatchedReceiver\<close>, the batches passed to \<open>Send\<close> followed by the batch being
  filled are exactly the envelopes received, in order; no batch is empty or longer than the batch size;
  the egress counter counts exactly the envelopes of the batches sent without an error; and the
  gauge of subscriptions is back at its old value once the call has returned.
\<close>

theorem BatchedReceiver_conserves:
  assumes "BatchedReceiver_loop toUint64 one cs
      (BatchedReceiver_start toUint64 one sz interval now egress subs) = Some s"
  shows "concat (st_tried s) @ bt_batch (st_batcher s) = st_got s \<and>
    (\<forall>b \<in> set (st_tried s). b \<noteq> [] \<and> int (length b) \<le> max 1 sz) \<and> subseq (st_sent s) (st_tried s) \<and>
    mc_delta (st_egress s) = mc_delta egress + of_nat (length (concat (st_sent s))) \<and>
    (\<forall>err. st_status s = Returned err \<longrightarrow> mg_value (st_subscriptions s) = mg_value subs)"
proof -
  have "stream_inv toUint64 one sz egress subs (BatchedReceiver_start toUint64 one sz interval now egress subs)"
    unfolding BatchedReceiver_start_def NewV2EnvelopeBatcher_def by (rule stream_inv_enter)
  from BatchedReceiver_inv [OF assms this] show ?thesis by (auto simp: stream_inv_def)
qed

lemma receiver_example:
  "BatchedReceiver_loop (\<lambda>x. x) 100 [SelEnv Envelope_empty 0 0 None, SelEnv Envelope_empty 1 1 None, SelDone ''canceled'']
     (BatchedReceiver_start (\<lambda>x. x) 100 2 100 0 (NewCounter ''egress'' ''doppler'' []) (NewGauge ''subs'' ''n'' ''doppler'' [])) =
   Some \<lparr>st_batcher = \<lparr>bt_size = 2, bt_interval = 100, bt_batch = [], bt_lastSent = 1\<rparr>, st_errStream = None,
     st_egress = (NewCounter ''egress'' ''doppler'' [])\<lparr>mc_delta := 2\<rparr>, st_subscriptions = NewGauge ''subs'' ''n'' ''doppler'' [],
     st_status = Returned ''canceled'', st_got = [Envelope_empty, Envelope_empty],
     st_tried = [[Envelope_empty, Envelope_empty]], st_sent = [[Envelope_empty, Envelope_empty]]\<rparr>"
  by (simp add: BatchedReceiver_select_def BatchedReceiver_start_def NewV2EnvelopeBatcher_def NewBatcher_def
      enter_stream_def leave_stream_def batched_def V2EnvelopeBatcher_Write_def Batcher_Write_def writeBatch_def
      partialBatch_def partialInterval_def batchWriter_Write_def NewCounter_def NewGauge_def
      Counter_Increment_def Gauge_Increment_def Gauge_Decrement_def not_eq_complement)

theorem BatchedReceiver_conserves_witness:
  "\<exists>s. BatchedReceiver_loop (\<lambda>x. x) 100 [SelEnv Envelope_empty 0 0 None, SelEnv Envelope_empty 1 1 None, SelDone ''canceled'']
      (BatchedReceiver_start (\<lambda>x. x) 100 2 100 0 (NewCounter ''egress'' ''doppler'' []) (NewGauge ''subs'' ''n'' ''doppler'' [])) = Some s \<and>
    st_sent s = [[Envelope_empty, Envelope_empty]] \<and> concat (st_tried s) @ bt_batch (st_batcher s) = st_got s \<and>
    mc_delta (st_egress s) = mc_delta (NewCounter ''egress'' ''doppler'' []) + of_nat (length (concat (st_sent s))) \<and>
    mg_value (st_subscriptions s) = mg_value (NewGauge ''subs'' ''n'' ''doppler'' [])"
  using BatchedReceiver_conserves [OF receiver_example] receiver_example by auto

text \<open>
  C38. The channel of \<open>BatchedReceiver\<close> holds one error, and only the loop that fills it empties it. As its
  \<open>select\<close> may take an envelope although the error of an earlier batch waits in the channel, a second
  batch that fails blocks the loop for ever: it neither returns nor notices that the context is done.
\<close>

theorem BatchedReceiver_can_block:
  "\<exists>cs s. BatchedReceiver_loop toUint64 one cs (BatchedReceiver_start toUint64 one 1 interval now egress subs) = Some s \<and>
     st_status s = Blocked \<and> (\<forall>c. BatchedReceiver_select toUint64 one c s = None)"
proof -
  let ?c = "SelEnv Envelope_empty now now (Some ''unavailable'')"
  let ?s0 = "BatchedReceiver_start toUint64 one 1 interval now egress subs"
  have "\<exists>s. BatchedReceiver_loop toUint64 one [?c, ?c] ?s0 = Some s \<and> st_status s = Blocked"
    by (simp add: BatchedReceiver_select_def BatchedReceiver_start_def NewV2EnvelopeBatcher_def NewBatcher_def
        enter_stream_def batched_def V2EnvelopeBatcher_Write_def Batcher_Write_def writeBatch_def
        partialBatch_def batchWriter_Write_def)
  then obtain s where s: "BatchedReceiver_loop toUint64 one [?c, ?c] ?s0 = Some s" "st_status s = Blocked" by blast
  moreover have "\<forall>c. BatchedReceiver_select toUint64 one c s = None"
    using s(2) by (simp add: BatchedReceiver_select_def)
  ultimately show ?thesis by blast
qed

end
