(* ===== verification/RouterV1.thy ===== *)
theory RouterV1
  imports ServersV2
begin

text \<open>
  The v1 router: \<open>router.go\<close>, \<open>doppler_server.go\<close> and \<open>ingestor_server.go\<close> in \<open>router/internal/server/v1\<close>,
  and \<open>router/internal/sinks/message_router.go\<close>.

  A v1 envelope is reduced to the fields the router reads. Marshalling and unmarshalling of protocol
  buffers, the conversion to v2 and the random choice within a shard are parameters. A \<open>DataSetter\<close> is a
  value that can be compared, as the source compares its pointers.
\<close>

section \<open>v1 envelopes\<close>

datatype EventType = HttpStartStop | LogMessage | ValueMetric | CounterEvent | ErrorEvent | ContainerMetric

record UUID =
  UUID_Low :: "uint64 option"
  UUID_High :: "uint64 option"

record v1_Envelope =
  v1_EventType :: "EventType option"
  v1_LogAppId :: "string option"
  v1_ContainerAppId :: "string option"
  v1_HttpAppId :: "UUID option"

definition GetEventType :: "v1_Envelope \<Rightarrow> EventType" where
  "GetEventType e = (case v1_EventType e of None \<Rightarrow> HttpStartStop | Some t \<Rightarrow> t)"

section \<open>The message router\<close>

definition hex_digit :: "nat \<Rightarrow> char" where
  "hex_digit n = (''0123456789abcdef'' ! n)"

definition hex :: "bytes \<Rightarrow> string" where
  "hex bs = concat (map (\<lambda>b. [hex_digit (unat b div 16), hex_digit (unat b mod 16)]) bs)"

text \<open>\<open>binary.LittleEndian.PutUint64\<close>\<close>

definition put_uint64 :: "uint64 \<Rightarrow> bytes" where
  "put_uint64 v = map (\<lambda>i. ucast (drop_bit (8 * i) v)) [0..<8]"

definition formatUUID :: "UUID \<Rightarrow> string" where
  "formatUUID uuid =
     (let b = put_uint64 (case UUID_Low uuid of None \<Rightarrow> 0 | Some v \<Rightarrow> v) @
              put_uint64 (case UUID_High uuid of None \<Rightarrow> 0 | Some v \<Rightarrow> v)
      in hex (take 4 b) @ ''-'' @ hex (take 2 (drop 4 b)) @ ''-'' @ hex (take 2 (drop 6 b)) @ ''-'' @
         hex (take 2 (drop 8 b)) @ ''-'' @ hex (drop 10 b))"

definition systemAppId :: string where
  "systemAppId = ''system''"

definition getAppId :: "v1_Envelope \<Rightarrow> string" where
  "getAppId e =
     (if GetEventType e = LogMessage then (case v1_LogAppId e of None \<Rightarrow> [] | Some a \<Rightarrow> a)
      else if GetEventType e = ContainerMetric then (case v1_ContainerAppId e of None \<Rightarrow> [] | Some a \<Rightarrow> a)
      else if GetEventType e = HttpStartStop then
        (case v1_HttpAppId e of Some uuid \<Rightarrow> formatUUID uuid | None \<Rightarrow> systemAppId)
      else systemAppId)"

text \<open>One round of \<open>MessageRouter.Start\<close>: the envelope read from the diode goes to every sender.\<close>

definition MessageRouter_round ::
    "(string \<Rightarrow> v1_Envelope \<Rightarrow> 's \<Rightarrow> 's) list \<Rightarrow> v1_Envelope \<Rightarrow> 's \<Rightarrow> 's" where
  "MessageRouter_round senders envelope s =
     (let appId = getAppId envelope in foldl (\<lambda>s sm. sm appId envelope s) s senders)"

section \<open>The router\<close>

datatype filterType = noType | logType | metricType

record v1_filter =
  f_appID :: string
  f_envelopeType :: filterType

datatype Filter_Message = Filter_Log "unit option" | Filter_Metric "unit option"

record Filter =
  Filter_AppID :: string
  Filter_Message :: "Filter_Message option"

record SubscriptionRequest =
  sr_ShardID :: string
  sr_Filter :: "Filter option"

type_synonym 'w v1_router = "(v1_filter, (string, 'w list) gomap) gomap"

definition NewRouter :: "'w v1_router" where
  "NewRouter = []"

definition convertFilter :: "SubscriptionRequest \<Rightarrow> v1_filter" where
  "convertFilter req =
     (case sr_Filter req of
        None \<Rightarrow> \<lparr>f_appID = [], f_envelopeType = noType\<rparr>
      | Some flt \<Rightarrow>
          let f = \<lparr>f_appID = Filter_AppID flt, f_envelopeType = noType\<rparr>;
              f = (if \<exists>x. Filter_Message flt = Some (Filter_Log (Some x)) then f\<lparr>f_envelopeType := logType\<rparr> else f);
              f = (if \<exists>x. Filter_Message flt = Some (Filter_Metric (Some x)) then f\<lparr>f_envelopeType := metricType\<rparr> else f)
          in f)"

definition filterTypeFromEnvelope :: "v1_Envelope \<Rightarrow> filterType" where
  "filterTypeFromEnvelope e = (case GetEventType e of LogMessage \<Rightarrow> logType | _ \<Rightarrow> metricType)"

definition createTypedFilters :: "string \<Rightarrow> v1_Envelope \<Rightarrow> v1_filter list" where
  "createTypedFilters appID e =
     [\<lparr>f_appID = [], f_envelopeType = filterTypeFromEnvelope e\<rparr>, \<lparr>f_appID = [], f_envelopeType = noType\<rparr>] @
     (if appID \<noteq> []
      then [\<lparr>f_appID = appID, f_envelopeType = noType\<rparr>, \<lparr>f_appID = appID, f_envelopeType = filterTypeFromEnvelope e\<rparr>]
      else [])"

text \<open>A lookup in a nil or missing map finds nothing.\<close>

definition shards_of :: "v1_filter \<Rightarrow> 'w v1_router \<Rightarrow> (string, 'w list) gomap" where
  "shards_of f r = (case map_of r f of None \<Rightarrow> [] | Some m \<Rightarrow> m)"

definition setters_of :: "string \<Rightarrow> (string, 'w list) gomap \<Rightarrow> 'w list" where
  "setters_of sh m = (case map_of m sh of None \<Rightarrow> [] | Some ws \<Rightarrow> ws)"

definition registerSetter :: "SubscriptionRequest \<Rightarrow> 'w \<Rightarrow> 'w v1_router \<Rightarrow> 'w v1_router" where
  "registerSetter req dataSetter r =
     (let f = convertFilter req;
          m = shards_of f r;
          m = gomap_set (sr_ShardID req) (setters_of (sr_ShardID req) m @ [dataSetter]) m
      in gomap_set f m r)"

text \<open>The function built by \<open>buildCleanup\<close>.\<close>

definition buildCleanup :: "SubscriptionRequest \<Rightarrow> 'w \<Rightarrow> 'w v1_router \<Rightarrow> 'w v1_router" where
  "buildCleanup req dataSetter r =
     (let f = convertFilter req;
          sh = sr_ShardID req;
          setters = filter (\<lambda>s. s \<noteq> dataSetter) (setters_of sh (shards_of f r))
      in if length setters > 0 then gomap_set f (gomap_set sh setters (shards_of f r)) r
         else
           let r = (case map_of r f of None \<Rightarrow> r | Some m \<Rightarrow> gomap_set f (gomap_delete sh m) r)
           in if length (shards_of f r) = 0 then gomap_delete f r else r)"

definition Router_Register ::
    "SubscriptionRequest \<Rightarrow> 'w \<Rightarrow> 'w v1_router \<Rightarrow> 'w v1_router \<times> ('w v1_router \<Rightarrow> 'w v1_router)" where
  "Router_Register req dataSetter r = (registerSetter req dataSetter r, buildCleanup req dataSetter)"

text \<open>The calls of \<open>Set\<close>; \<open>rand.Intn(0)\<close> panics.\<close>

definition writeToShard :: "(nat \<Rightarrow> nat) \<Rightarrow> string \<Rightarrow> 'w list \<Rightarrow> bytes \<Rightarrow> ('w \<times> bytes) list go" where
  "writeToShard rnd sh setters data =
     (if sh = [] then Inr (map (\<lambda>w. (w, data)) setters)
      else if length setters = 0 then Inl (ExplicitPanic ''invalid argument to Intn'')
      else if rnd (length setters) < length setters then Inr [(setters ! rnd (length setters), data)]
      else Inl IndexOutOfRange)"

definition SendTo ::
    "(v1_Envelope \<Rightarrow> bytes option) \<Rightarrow> (v1_filter \<Rightarrow> string \<Rightarrow> nat \<Rightarrow> nat) \<Rightarrow> string \<Rightarrow> v1_Envelope \<Rightarrow> 'w v1_router \<Rightarrow>
     ('w \<times> bytes) list go" where
  "SendTo marshal rand appID envelope r =
     (case marshal envelope of
        None \<Rightarrow> Inr []
      | Some data \<Rightarrow>
          seq_calls (concat (map (\<lambda>f.
            map (\<lambda>(sh, setters). writeToShard (rand f sh) sh setters data) (shards_of f r))
            (createTypedFilters appID envelope))))"

section \<open>The doppler server\<close>

text \<open>The counter of dropped envelopes and the gauge of subscriptions are shared with the v2 server.\<close>

record DopplerServer =
  ds_egressMetric :: metric_Counter
  ds_batchInterval :: int
  ds_batchSize :: nat
  ds_bufferSize :: int

definition NewDopplerServer :: "metric_Client \<Rightarrow> int \<Rightarrow> nat \<Rightarrow> int \<Rightarrow> DopplerServer" where
  "NewDopplerServer metricClient batchInterval batchSize bufferSize =
     \<lparr>ds_egressMetric = Client_NewCounter ''egress'' [WithVersion 2 0] metricClient,
      ds_batchInterval = batchInterval, ds_batchSize = batchSize, ds_bufferSize = bufferSize\<rparr>"

definition DopplerServer_Alert :: "int \<Rightarrow> metric_Counter \<Rightarrow> metric_Counter" where
  "DopplerServer_Alert missed egressDropped = Counter_Increment (of_int missed) egressDropped"

text \<open>
  One round of the loop of \<open>sendData\<close>: whether the context is done when it is tested, what \<open>TryNext\<close>
  returns and what \<open>Send\<close> answers. The state has the payloads sent and the egress counter; the call
  returns the error of \<open>Send\<close>, or that of the context.
\<close>

record send_round =
  rd_done :: bool
  rd_data :: "bytes option"
  rd_err :: "string option"

fun sendData_loop ::
    "string \<Rightarrow> send_round list \<Rightarrow> bytes list \<times> metric_Counter \<Rightarrow> (bytes list \<times> metric_Counter) \<times> string option" where
  "sendData_loop ctxErr [] s = (s, None)"
| "sendData_loop ctxErr (rd # rds) (sent, egressMetric) =
     (if rd_done rd then ((sent, egressMetric), Some ctxErr)
      else
        case rd_data rd of
          None \<Rightarrow> sendData_loop ctxErr rds (sent, egressMetric)
        | Some data \<Rightarrow>
            (case rd_err rd of
               Some err \<Rightarrow> ((sent, egressMetric), Some err)
             | None \<Rightarrow> sendData_loop ctxErr rds (sent @ [data], Counter_Increment 1 egressMetric)))"

text \<open>\<open>Subscribe\<close>: the gauge, the registration of the diode \<open>d\<close> and the loop; both are undone on return.\<close>

definition DopplerServer_Subscribe ::
    "(float64 \<Rightarrow> uint64) \<Rightarrow> float64 \<Rightarrow> SubscriptionRequest \<Rightarrow> 'w \<Rightarrow> string \<Rightarrow> send_round list \<Rightarrow>
     'w v1_router \<times> metric_Counter \<times> metric_Gauge \<Rightarrow> ('w v1_router \<times> metric_Counter \<times> metric_Gauge) \<times> bytes list \<times> string option" where
  "DopplerServer_Subscribe toUint64 one req d ctxErr rds s =
     (let (r, egress, subs) = s;
          subs = Gauge_Increment toUint64 one subs;
          (r, cleanup) = Router_Register req d r;
          ((sent, egress), err) = sendData_loop ctxErr rds ([], egress)
      in case err of
           None \<Rightarrow> ((r, egress, subs), sent, None)
         | Some e \<Rightarrow> ((cleanup r, egress, Gauge_Decrement toUint64 one subs), sent, Some e))"

text \<open>
  One round of the loop of \<open>sendBatchData\<close>. Its \<open>select\<close> has a default: it takes one of the two other cases
  whenever one is ready (\<open>br_errFirst\<close> decides when both are).
\<close>

record batch_round =
  br_ctx :: "string option"
  br_errFirst :: bool
  br_data :: "bytes option"
  br_now :: int
  br_now' :: int
  br_err :: "string option"

definition sendBatchData_round ::
    "(float64 \<Rightarrow> uint64) \<Rightarrow> float64 \<Rightarrow> batch_round \<Rightarrow> (bytes, string) stream_state \<Rightarrow> (bytes, string) stream_state" where
  "sendBatchData_round toUint64 one rd s =
     (if st_status s \<noteq> Running then s
      else
        case (br_ctx rd, st_errStream s) of
          (Some c, None) \<Rightarrow> leave_stream toUint64 one c s
        | (None, Some e) \<Rightarrow> leave_stream toUint64 one e (s\<lparr>st_errStream := None\<rparr>)
        | (Some c, Some e) \<Rightarrow>
            if br_errFirst rd then leave_stream toUint64 one e (s\<lparr>st_errStream := None\<rparr>)
            else leave_stream toUint64 one c s
        | (None, None) \<Rightarrow>
            (case br_data rd of
               None \<Rightarrow> batched (br_err rd) (Batcher_Flush (br_now rd) (br_now' rd)) s
             | Some data \<Rightarrow>
                 batched (br_err rd) (Batcher_Write (br_now rd) (br_now' rd) data) (s\<lparr>st_got := st_got s @ [data]\<rparr>)))"

definition sendBatchData_loop ::
    "(float64 \<Rightarrow> uint64) \<Rightarrow> float64 \<Rightarrow> batch_round list \<Rightarrow> (bytes, string) stream_state \<Rightarrow> (bytes, string) stream_state" where
  "sendBatchData_loop toUint64 one rds s = foldl (\<lambda>s rd. sendBatchData_round toUint64 one rd s) s rds"

text \<open>\<open>BatchSubscribe\<close>, with the registration of the diode \<open>d\<close> and the cleanup when it returns.\<close>

definition DopplerServer_BatchSubscribe ::
    "(float64 \<Rightarrow> uint64) \<Rightarrow> float64 \<Rightarrow> int \<Rightarrow> int \<Rightarrow> int \<Rightarrow> SubscriptionRequest \<Rightarrow> 'w \<Rightarrow> batch_round list \<Rightarrow>
     'w v1_router \<times> metric_Counter \<times> metric_Gauge \<Rightarrow> 'w v1_router \<times> (bytes, string) stream_state" where
  "DopplerServer_BatchSubscribe toUint64 one batchSize batchInterval now req d rds srv =
     (let (r, egress, subs) = srv;
          (r, cleanup) = Router_Register req d r;
          s = sendBatchData_loop toUint64 one rds
                (enter_stream toUint64 one (NewBatcher batchSize batchInterval now) egress subs)
      in (case st_status s of Returned _ \<Rightarrow> cleanup r | _ \<Rightarrow> r, s))"

section \<open>The ingestor\<close>

datatype recv = RecvEOF | RecvError | RecvData bytes

text \<open>
  \<open>Pusher\<close>: each round tests whether the context is done and receives. Errors other than the end of the
  stream, and payloads that do not unmarshal, are skipped. The result is \<open>Some (Some e)\<close> for the error of
  the context, \<open>Some None\<close> for nil, and \<open>None\<close> while the call goes on.
\<close>

fun IngestorServer_Pusher ::
    "(bytes \<Rightarrow> v1_Envelope option) \<Rightarrow> (v1_Envelope \<Rightarrow> Envelope) \<Rightarrow> string \<Rightarrow> (bool \<times> recv) list \<Rightarrow> v1_Envelope IngressServer \<Rightarrow>
     (v1_Envelope IngressServer \<times> string option option) go option" where
  "IngestorServer_Pusher unmarshal toV2 ctxErr [] i = Some (Inr (i, None))"
| "IngestorServer_Pusher unmarshal toV2 ctxErr ((ended, rcv) # rest) i =
     (if ended then Some (Inr (i, Some (Some ctxErr)))
      else
        case rcv of
          RecvEOF \<Rightarrow> Some (Inr (i, Some None))
        | RecvError \<Rightarrow> IngestorServer_Pusher unmarshal toV2 ctxErr rest i
        | RecvData payload \<Rightarrow>
            (case unmarshal payload of
               None \<Rightarrow> IngestorServer_Pusher unmarshal toV2 ctxErr rest i
             | Some env \<Rightarrow>
                 (case ManyToOneEnvelope_Set (Some env) (is_v1Buf i) of
                    None \<Rightarrow> None
                  | Some (Inl p) \<Rightarrow> Some (Inl p)
                  | Some (Inr (d1, _)) \<Rightarrow>
                      (case ManyToOneEnvelopeV2_Set (Some (toV2 env)) (is_v2Buf i) of
                         None \<Rightarrow> None
                       | Some (Inl p) \<Rightarrow> Some (Inl p)
                       | Some (Inr (d2, _)) \<Rightarrow>
                           IngestorServer_Pusher unmarshal toV2 ctxErr rest
                             (i\<lparr>is_v1Buf := d1, is_v2Buf := d2,
                                is_ingressMetric := Counter_Increment 1 (is_ingressMetric i)\<rparr>)))))"

section \<open>Lemmas about the router\<close>

definition setters_at :: "v1_filter \<times> string \<Rightarrow> 'w v1_router \<Rightarrow> 'w list" where
  "setters_at k r = setters_of (snd k) (shards_of (fst k) r)"

definition router_ok :: "'w v1_router \<Rightarrow> bool" where
  "router_ok r \<longleftrightarrow>
     gomap_wf r \<and>
     (\<forall>f m. map_of r f = Some m \<longrightarrow> gomap_wf m \<and> m \<noteq> [] \<and> (\<forall>sh ws. map_of m sh = Some ws \<longrightarrow> ws \<noteq> []))"

lemma router_ok_new [simp]: "router_ok NewRouter"
  by (simp add: router_ok_def NewRouter_def)

lemma shards_of_wf: "router_ok r \<Longrightarrow> gomap_wf (shards_of f r)"
  by (cases "map_of r f") (auto simp: router_ok_def shards_of_def)

lemma shards_of_nonempty: "router_ok r \<Longrightarrow> map_of (shards_of f r) sh = Some ws \<Longrightarrow> ws \<noteq> []"
  by (cases "map_of r f") (auto simp: router_ok_def shards_of_def)

lemma router_ok_set:
  assumes "router_ok r" and "gomap_wf m" and "m \<noteq> []" and "\<And>sh ws. map_of m sh = Some ws \<Longrightarrow> ws \<noteq> []"
  shows "router_ok (gomap_set f m r)"
  using assms by (auto simp: router_ok_def update_conv' intro: gomap_wf_set split: if_splits)

lemma router_ok_delete: "router_ok r \<Longrightarrow> router_ok (gomap_delete f r)"
  by (auto simp: router_ok_def delete_conv' intro: gomap_wf_delete split: if_splits)

lemma gomap_set_nonempty: "gomap_set k v m \<noteq> []"
  by (induction m) auto

lemma shards_of_set: "shards_of f' (gomap_set f m r) = (if f' = f then m else shards_of f' r)"
  by (auto simp: shards_of_def update_conv')

lemma setters_of_set: "setters_of sh' (gomap_set sh ws m) = (if sh' = sh then ws else setters_of sh' m)"
  by (auto simp: setters_of_def update_conv')

lemma setters_of_delete: "setters_of sh' (gomap_delete sh m) = (if sh' = sh then [] else setters_of sh' m)"
  by (auto simp: setters_of_def delete_conv')

lemma register_spec:
  assumes "router_ok r"
  shows "router_ok (registerSetter req w r)"
    and "setters_at k (registerSetter req w r) =
      (if k = (convertFilter req, sr_ShardID req) then setters_at k r @ [w] else setters_at k r)"
proof -
  show "router_ok (registerSetter req w r)"
    unfolding registerSetter_def Let_def
    by (intro router_ok_set assms gomap_wf_set shards_of_wf gomap_set_nonempty)
      (auto simp: update_conv' split: if_splits dest: shards_of_nonempty [OF assms])
  show "setters_at k (registerSetter req w r) =
      (if k = (convertFilter req, sr_ShardID req) then setters_at k r @ [w] else setters_at k r)"
    by (cases k) (auto simp: registerSetter_def Let_def shards_of_set setters_of_set setters_at_def)
qed

lemma cleanup_router_spec:
  assumes "router_ok r"
  shows "router_ok (buildCleanup req w r)"
    and "setters_at k (buildCleanup req w r) =
      (if k = (convertFilter req, sr_ShardID req) then filter (\<lambda>s. s \<noteq> w) (setters_at k r) else setters_at k r)"
proof -
  let ?f = "convertFilter req" and ?sh = "sr_ShardID req"
  let ?ws = "filter (\<lambda>s. s \<noteq> w) (setters_of ?sh (shards_of ?f r))"
  let ?goal = "\<lambda>r'. router_ok r' \<and> setters_at k r' =
      (if k = (?f, ?sh) then filter (\<lambda>s. s \<noteq> w) (setters_at k r) else setters_at k r)"
  have "?goal (buildCleanup req w r)"
  proof (cases "?ws = []")
    case False
    then have "buildCleanup req w r = gomap_set ?f (gomap_set ?sh ?ws (shards_of ?f r)) r"
      by (simp add: buildCleanup_def Let_def)
    moreover have "router_ok (gomap_set ?f (gomap_set ?sh ?ws (shards_of ?f r)) r)"
      using False by (intro router_ok_set assms gomap_wf_set shards_of_wf gomap_set_nonempty)
        (auto simp: update_conv' split: if_splits dest: shards_of_nonempty [OF assms])
    ultimately show ?thesis
      by (cases k) (simp add: shards_of_set setters_of_set setters_at_def)
  next
    case ws: True
    show ?thesis
    proof (cases "map_of r ?f")
      case None
      then have "shards_of ?f r = []" by (simp add: shards_of_def)
      then have "buildCleanup req w r = gomap_delete ?f r" and "setters_at (?f, sh) r = []" for sh
        using None by (simp_all add: buildCleanup_def setters_at_def setters_of_def)
      moreover have "setters_at k (gomap_delete ?f r) = (if fst k = ?f then [] else setters_at k r)"
        by (simp add: setters_at_def shards_of_def delete_conv' setters_of_def)
      ultimately show ?thesis using assms by (cases k) (auto simp: router_ok_delete)
    next
      case (Some m)
      then have m: "shards_of ?f r = m" by (simp add: shards_of_def)
      let ?m = "gomap_delete ?sh m"
      have eq: "buildCleanup req w r = (if ?m = [] then gomap_delete ?f (gomap_set ?f ?m r) else gomap_set ?f ?m r)"
        using ws Some by (simp add: buildCleanup_def m Let_def) (simp add: shards_of_def update_conv')
      have at: "setters_at (?f, sh) r = setters_of sh m" for sh by (simp add: setters_at_def m)
      show ?thesis
      proof (cases "?m = []")
        case True
        then have none: "setters_of sh m = []" if "sh \<noteq> ?sh" for sh
          using setters_of_delete [of sh ?sh m] that by (simp add: setters_of_def)
        have "gomap_delete ?f (gomap_set ?f ?m r) = gomap_delete ?f r" by (simp add: delete_update_same)
        moreover have "setters_at k (gomap_delete ?f r) = (if fst k = ?f then [] else setters_at k r)"
          by (simp add: setters_at_def shards_of_def delete_conv' setters_of_def)
        ultimately show ?thesis
          using True eq at none ws assms by (cases k) (auto simp: router_ok_delete m)
      next
        case False
        have "router_ok (gomap_set ?f ?m r)"
        proof (intro router_ok_set assms gomap_wf_delete False)
          show "gomap_wf m" using shards_of_wf [OF assms, of ?f] m by simp
          show "ws \<noteq> []" if "map_of ?m sh = Some ws" for sh ws
            using that shards_of_nonempty [OF assms, of ?f sh ws] m by (auto simp: delete_conv' split: if_splits)
        qed
        then show ?thesis
          using False eq at ws by (cases k) (auto simp: setters_at_def shards_of_set setters_of_delete m)
      qed
    qed
  qed
  then show "router_ok (buildCleanup req w r)" "setters_at k (buildCleanup req w r) =
      (if k = (?f, ?sh) then filter (\<lambda>s. s \<noteq> w) (setters_at k r) else setters_at k r)" by blast+
qed

section \<open>The router as a subscription store\<close>

text \<open>
  Each subscriber registers a diode of its own, so a setter is registered at most once under a key; with
  that, the router keeps the contract of a subscription store, with the setter as its own handle.
\<close>

definition key_request :: "v1_filter \<times> string \<Rightarrow> SubscriptionRequest" where
  "key_request k =
     \<lparr>sr_ShardID = snd k, sr_Filter = Some \<lparr>Filter_AppID = f_appID (fst k), Filter_Message =
        (case f_envelopeType (fst k) of noType \<Rightarrow> None | logType \<Rightarrow> Some (Filter_Log (Some ()))
         | metricType \<Rightarrow> Some (Filter_Metric (Some ())))\<rparr>\<rparr>"

lemma key_request_key [simp]: "convertFilter (key_request k) = fst k" "sr_ShardID (key_request k) = snd k"
  by (cases "f_envelopeType (fst k)"; simp add: key_request_def convertFilter_def)+

definition v1_subscribe :: "unit \<Rightarrow> v1_filter \<times> string \<Rightarrow> 'w \<Rightarrow> 'w v1_router \<Rightarrow> ('w \<times> 'w v1_router) option" where
  "v1_subscribe _ k w r =
     (if w \<in> set (setters_at k r) then None else Some (w, fst (Router_Register (key_request k) w r)))"

definition v1_unsubscribe :: "'w \<Rightarrow> v1_filter \<times> string \<Rightarrow> 'w v1_router \<Rightarrow> 'w v1_router go" where
  "v1_unsubscribe w k r = Inr (snd (Router_Register (key_request k) w r) r)"

definition v1_held :: "v1_filter \<times> string \<Rightarrow> 'w v1_router \<Rightarrow> ('w \<times> 'w) multiset" where
  "v1_held k r = mset (map (\<lambda>w. (w, w)) (setters_at k r))"

definition v1_inv :: "'w v1_router \<Rightarrow> bool" where
  "v1_inv r \<longleftrightarrow> router_ok r \<and> (\<forall>k. distinct (setters_at k r))"

lemma filter_neq_mset:
  assumes "distinct ws" and "w \<in> set ws"
  shows "mset (filter (\<lambda>s. s \<noteq> w) ws) = mset ws - {#w#}"
proof -
  have "filter (\<lambda>s. s \<noteq> w) ws = remove1 w ws"
    using assms(1) by (induction ws) (auto simp: filter_id_conv)
  then show ?thesis by simp
qed

lemma setters_at_new: "setters_at k NewRouter = []"
  by (simp add: setters_at_def shards_of_def NewRouter_def setters_of_def)

interpretation v1r: subscription_store v1_inv v1_subscribe v1_unsubscribe v1_held NewRouter
proof
  fix k k' :: "v1_filter \<times> string" and r r' :: "'w v1_router" and u :: unit and w h f :: 'w
  show "v1_inv (NewRouter :: 'w v1_router)" by (simp add: v1_inv_def setters_at_new)
  show "v1_held k NewRouter = {#}" by (simp add: v1_held_def setters_at_new)
  {
    assume r: "v1_inv r" and sub: "v1_subscribe u k w r = Some (h, r')"
    then have h: "h = w" "w \<notin> set (setters_at k r)" "r' = registerSetter (key_request k) w r"
      by (auto simp: v1_subscribe_def Router_Register_def split: if_splits)
    have ok: "router_ok r" using r by (simp add: v1_inv_def)
    have at: "setters_at k' r' = (if k' = k then setters_at k r @ [w] else setters_at k' r)" for k'
      by (simp add: h register_spec(2) [OF ok])
    show "v1_inv r'" using r h register_spec(1) [OF ok] at by (auto simp: v1_inv_def)
    show "v1_held k' r' = (if k' = k then add_mset (h, w) (v1_held k r) else v1_held k' r)"
      by (simp add: v1_held_def at h(1))
  }
  {
    assume r: "v1_inv r" and "(h, f) \<in># v1_held k r"
    then have h: "f = h" "h \<in> set (setters_at k r)" by (auto simp: v1_held_def)
    have ok: "router_ok r" "distinct (setters_at k r)" using r unfolding v1_inv_def by blast+
    let ?r = "buildCleanup (key_request k) h r"
    have at: "setters_at k' ?r = (if k' = k then filter (\<lambda>s. s \<noteq> h) (setters_at k r) else setters_at k' r)" for k'
      by (simp add: cleanup_router_spec(2) [OF ok(1)])
    have "v1_inv ?r" using r cleanup_router_spec(1) [OF ok(1)] at by (auto simp: v1_inv_def)
    moreover have "v1_held k' ?r = (if k' = k then v1_held k r - {#(h, f)#} else v1_held k' r)" for k'
      using filter_neq_mset [OF ok(2) h(2)] h
      by (simp add: v1_held_def at image_mset_Diff)
    ultimately show "\<exists>r'. v1_unsubscribe h k r = Inr r' \<and> v1_inv r' \<and>
        (\<forall>k'. v1_held k' r' = (if k' = k then v1_held k r - {#(h, f)#} else v1_held k' r))"
      by (auto simp: v1_unsubscribe_def Router_Register_def)
  }
qed

section \<open>Sending\<close>

definition filter_matches :: "string \<Rightarrow> v1_Envelope \<Rightarrow> v1_filter \<Rightarrow> bool" where
  "filter_matches appID e f \<longleftrightarrow>
     (f_appID f = [] \<or> f_appID f = appID) \<and>
     (f_envelopeType f = noType \<or> f_envelopeType f = filterTypeFromEnvelope e)"

lemma typed_filters_set: "set (createTypedFilters appID e) = {f. filter_matches appID e f}"
proof (rule set_eqI)
  fix f :: v1_filter
  show "f \<in> set (createTypedFilters appID e) \<longleftrightarrow> f \<in> {f. filter_matches appID e f}"
    by (cases f) (auto simp: createTypedFilters_def filter_matches_def)
qed

lemma typed_filters_distinct: "distinct (createTypedFilters appID e)"
  by (auto simp: createTypedFilters_def filterTypeFromEnvelope_def split: EventType.splits)

lemma writeToShard_ok:
  assumes "ws \<noteq> []" and "\<And>l. 0 < l \<Longrightarrow> rnd l < l"
  shows "writeToShard rnd sh ws data = Inr (map (\<lambda>w. (w, data)) (if sh = [] then ws else [ws ! rnd (length ws)]))"
  using assms by (simp add: writeToShard_def)

text \<open>What is sent under one key, a filter and a shard.\<close>

definition v1_key_delivers ::
    "string \<Rightarrow> v1_Envelope \<Rightarrow> v1_filter \<times> string \<Rightarrow> 'w multiset \<Rightarrow> 'w multiset \<Rightarrow> bool" where
  "v1_key_delivers appID e k L D \<longleftrightarrow>
     (if \<not> filter_matches appID e (fst k) then D = {#}
      else if snd k = [] then D = L
      else D \<subseteq># L \<and> size D = (if L = {#} then 0 else 1))"

definition v1_pick :: "(v1_filter \<Rightarrow> string \<Rightarrow> nat \<Rightarrow> nat) \<Rightarrow> v1_filter \<times> string \<Rightarrow> 'w list \<Rightarrow> 'w list" where
  "v1_pick rand k ws = (if snd k = [] then ws else [ws ! rand (fst k) (snd k) (length ws)])"

lemma SendTo_calls:
  assumes "router_ok r" and "\<And>f sh l. 0 < l \<Longrightarrow> rand f sh l < l" and "marshal e = Some data"
  shows "SendTo marshal rand appID e r = Inr (concat (map (\<lambda>f. concat (map (\<lambda>(sh, ws).
      map (\<lambda>w. (w, data)) (v1_pick rand (f, sh) ws)) (shards_of f r))) (createTypedFilters appID e)))"
proof -
  have "map (\<lambda>(sh, ws). writeToShard (rand f sh) sh ws data) (shards_of f r) =
      map (\<lambda>x. Inr ((\<lambda>(sh, ws). map (\<lambda>w. (w, data)) (v1_pick rand (f, sh) ws)) x)) (shards_of f r)" for f
  proof (rule map_cong [OF refl], clarify)
    fix sh ws assume "(sh, ws) \<in> set (shards_of f r)"
    then have "ws \<noteq> []"
      using gomap_wf_map_of [OF shards_of_wf [OF assms(1)]] shards_of_nonempty [OF assms(1)] by blast
    then show "writeToShard (rand f sh) sh ws data = Inr (map (\<lambda>w. (w, data)) (v1_pick rand (f, sh) ws))"
      using assms(2) by (simp add: writeToShard_ok v1_pick_def)
  qed
  then show ?thesis
    by (simp only: SendTo_def assms(3) option.case seq_calls_concat map_map comp_def seq_calls_Inr)
qed

lemma mset_concat_map: "mset (concat (map g xs)) = sum_list (map (\<lambda>x. mset (g x)) xs)"
  by (simp add: mset_concat comp_def)

lemma SendTo_spec:
  fixes r :: "'w v1_router"
  assumes "router_ok r" and "\<And>f sh l. 0 < l \<Longrightarrow> rand f sh l < l" and "marshal e = Some data"
  shows "\<exists>calls D. SendTo marshal rand appID e r = Inr calls \<and>
    mset calls = image_mset (\<lambda>x. (snd x, data)) D \<and>
    (\<forall>k. v1_key_delivers appID e k (mset (setters_at k r)) (image_mset snd (filter_mset (\<lambda>x. fst x = k) D)))"
proof -
  let ?calls = "concat (map (\<lambda>f. concat (map (\<lambda>(sh, ws).
      map (\<lambda>w. (w, data)) (v1_pick rand (f, sh) ws)) (shards_of f r))) (createTypedFilters appID e))"
  define F where "F = set (createTypedFilters appID e)"
  define K where "K = Sigma F (\<lambda>f. fst ` set (shards_of f r))"
  define M where "M = (\<lambda>k. mset (v1_pick rand k (setters_at k r)))"
  define D where "D = (\<Sum>k\<in>K. image_mset (\<lambda>w. (k, w)) (M k))"
  have fin: "finite K" by (auto simp: K_def F_def)
  have ws: "setters_at (f, sh) r = ws" if "(sh, ws) \<in> set (shards_of f r)" for f sh ws
    using gomap_wf_map_of [OF shards_of_wf [OF assms(1)] that] by (simp add: setters_at_def setters_of_def)
  have shard: "mset (concat (map (\<lambda>(sh, ws). map (\<lambda>w. (w, data)) (v1_pick rand (f, sh) ws)) (shards_of f r))) =
      (\<Sum>sh\<in>fst ` set (shards_of f r). image_mset (\<lambda>w. (w, data)) (M (f, sh)))" for f
  proof -
    have "mset (concat (map (\<lambda>(sh, ws). map (\<lambda>w. (w, data)) (v1_pick rand (f, sh) ws)) (shards_of f r))) =
        sum_list (map (\<lambda>x. image_mset (\<lambda>w. (w, data)) (M (f, fst x))) (shards_of f r))"
      by (auto simp: mset_concat M_def ws intro!: arg_cong [where f = sum_list])
    also have "\<dots> = sum_list (map (\<lambda>sh. image_mset (\<lambda>w. (w, data)) (M (f, sh))) (map fst (shards_of f r)))"
      by (simp add: comp_def)
    also have "\<dots> = (\<Sum>sh\<in>set (map fst (shards_of f r)). image_mset (\<lambda>w. (w, data)) (M (f, sh)))"
      using shards_of_wf [OF assms(1), of f] by (intro sum_list_distinct_conv_sum_set) (simp add: gomap_wf_def)
    finally show ?thesis by simp
  qed
  have "mset ?calls = sum_list (map (\<lambda>f. \<Sum>sh\<in>fst ` set (shards_of f r). image_mset (\<lambda>w. (w, data)) (M (f, sh)))
      (createTypedFilters appID e))"
    by (subst mset_concat_map) (simp only: shard)
  also have "\<dots> = (\<Sum>f\<in>F. \<Sum>sh\<in>fst ` set (shards_of f r). image_mset (\<lambda>w. (w, data)) (M (f, sh)))"
    unfolding F_def by (rule sum_list_distinct_conv_sum_set [OF typed_filters_distinct])
  also have "\<dots> = (\<Sum>(f, sh)\<in>K. image_mset (\<lambda>w. (w, data)) (M (f, sh)))"
    unfolding K_def by (rule sum.Sigma) (auto simp: F_def)
  also have "\<dots> = image_mset (\<lambda>x. (snd x, data)) D"
    unfolding D_def using fin by (induction rule: finite_induct) (auto simp: multiset.map_comp comp_def)
  finally have calls: "mset ?calls = image_mset (\<lambda>x. (snd x, data)) D" .
  have "v1_key_delivers appID e k (mset (setters_at k r)) (image_mset snd (filter_mset (\<lambda>x. fst x = k) D))" for k
  proof -
    have Dk: "image_mset snd (filter_mset (\<lambda>x. fst x = k) D) = (if k \<in> K then M k else {#})"
      unfolding D_def filter_key_sum [OF fin, of k "\<lambda>w. w"] by (simp add: multiset.map_comp comp_def)
    have none: "setters_at k r = []" if "snd k \<notin> fst ` set (shards_of (fst k) r)"
      using that by (simp add: setters_at_def setters_of_def map_of_eq_None_iff [THEN iffD2])
    have some: "setters_at k r \<noteq> []" if "snd k \<in> fst ` set (shards_of (fst k) r)"
    proof -
      from that obtain ws' where "(snd k, ws') \<in> set (shards_of (fst k) r)" by force
      then have "map_of (shards_of (fst k) r) (snd k) = Some ws'"
        using gomap_wf_map_of [OF shards_of_wf [OF assms(1)]] by blast
      with shards_of_nonempty [OF assms(1)] show ?thesis by (auto simp: setters_at_def setters_of_def)
    qed
    have inK: "k \<in> K \<longleftrightarrow> filter_matches appID e (fst k) \<and> snd k \<in> fst ` set (shards_of (fst k) r)"
      by (cases k) (simp add: K_def F_def typed_filters_set)
    show ?thesis
    proof (cases "snd k \<in> fst ` set (shards_of (fst k) r)")
      case False
      with none show ?thesis by (auto simp: v1_key_delivers_def Dk inK)
    next
      case True
      have "M k \<subseteq># mset (setters_at k r)" if "snd k \<noteq> []"
        using that some [OF True] assms(2) by (auto simp: M_def v1_pick_def intro: nth_mem)
      moreover have "size (M k) = 1" if "snd k \<noteq> []" using that by (simp add: M_def v1_pick_def)
      moreover have "M k = mset (setters_at k r)" if "snd k = []" using that by (simp add: M_def v1_pick_def)
      ultimately show ?thesis using True some [OF True] by (auto simp: v1_key_delivers_def Dk inK)
    qed
  qed
  with calls SendTo_calls [where rand = rand and marshal = marshal and appID = appID, OF assms(1) _ assms(3)] assms(2)
  show ?thesis by blast
qed

section \<open>Lemmas about the servers\<close>

lemma sendBatchData_inv:
  assumes "stream_inv f one sz c0 g0 s" and "st_status s \<noteq> Blocked"
  shows "stream_inv f one sz c0 g0 (sendBatchData_round f one rd s) \<and>
    st_status (sendBatchData_round f one rd s) \<noteq> Blocked"
proof (cases "st_status s = Running \<and> br_ctx rd = None \<and> st_errStream s = None")
  case True
  have "st_status (batched err g s') \<noteq> Blocked"
    if "st_status s' = Running" "st_errStream s' = None" "\<And>b. snd (g b) = [] \<or> (\<exists>x. snd (g b) = [x])" for err g and s' :: "(bytes, string) stream_state"
    using that(1,2) that(3) [of "st_batcher s'"]
    by (auto simp: batched_def batchWriter_Write_status split: prod.splits)
  moreover have "snd (Batcher_Write n n' x b) = [] \<or> (\<exists>y. snd (Batcher_Write n n' x b) = [y])"
    "snd (Batcher_Flush n n' b) = [] \<or> (\<exists>y. snd (Batcher_Flush n n' b) = [y])" for n n' and x :: bytes and b
    by (auto simp: Batcher_Write_def Batcher_Flush_def writeBatch_def Let_def)
  ultimately show ?thesis using True stream_inv_Write [OF assms(1)] stream_inv_flush [OF assms(1)]
    by (cases "br_data rd") (simp_all add: sendBatchData_round_def)
next
  case False
  have "stream_inv f one sz c0 g0 (leave_stream f one e s)"
    "stream_inv f one sz c0 g0 (leave_stream f one e (s\<lparr>st_errStream := None\<rparr>))" if "st_status s = Running" for e
    using that assms(1) by (simp_all add: stream_inv_leave stream_inv_errStream)
  with False assms show ?thesis
    by (auto simp: sendBatchData_round_def split: option.splits)
qed

lemma BatchSubscribe_inv:
  "stream_inv f one sz c0 g0 s \<Longrightarrow> st_status s \<noteq> Blocked \<Longrightarrow>
   stream_inv f one sz c0 g0 (foldl (\<lambda>s rd. sendBatchData_round f one rd s) s rds) \<and>
   st_status (foldl (\<lambda>s rd. sendBatchData_round f one rd s) s rds) \<noteq> Blocked"
  by (induction rds arbitrary: s) (use sendBatchData_inv in auto)

lemma put_uint64_inj: "put_uint64 v = put_uint64 v' \<Longrightarrow> v = v'"
proof (rule bit_word_eqI)
  fix n assume eq: "put_uint64 v = put_uint64 v'" and n: "n < LENGTH(64)"
  then have "put_uint64 v ! (n div 8) = put_uint64 v' ! (n div 8)" by simp
  moreover have "n div 8 < 8" using n by simp
  ultimately have "(ucast (drop_bit (8 * (n div 8)) v) :: byte) = ucast (drop_bit (8 * (n div 8)) v')"
    by (simp add: put_uint64_def)
  then have "bit (ucast (drop_bit (8 * (n div 8)) v) :: byte) (n mod 8) = bit (ucast (drop_bit (8 * (n div 8)) v') :: byte) (n mod 8)"
    by simp
  moreover have "8 * (n div 8) + n mod 8 = n" by simp
  ultimately show "bit v n = bit v' n" by (simp add: bit_simps)
qed

lemma hex_digit_inj: "a < 16 \<Longrightarrow> b < 16 \<Longrightarrow> hex_digit a = hex_digit b \<Longrightarrow> a = b"
proof -
  assume "a < 16" "b < 16" "hex_digit a = hex_digit b"
  moreover have "distinct ''0123456789abcdef''" by simp
  ultimately show "a = b" using nth_eq_iff_index_eq [of "''0123456789abcdef''" a b] by (simp add: hex_digit_def)
qed

lemma length_hex [simp]: "length (hex bs) = 2 * length bs"
  by (induction bs) (auto simp: hex_def)

lemma hex_inj: "length bs = length cs \<Longrightarrow> hex bs = hex cs \<Longrightarrow> bs = cs"
proof (induction bs cs rule: list_induct2)
  case (Cons b bs c cs)
  have "unat x div 16 < 16" for x :: byte using unsigned_less [of x, where 'a = nat] by (simp add: less_mult_imp_div_less)
  with Cons.prems have "unat b div 16 = unat c div 16" "unat b mod 16 = unat c mod 16" "hex bs = hex cs"
    by (auto simp: hex_def intro!: hex_digit_inj)
  then have "unat b = unat c" by (metis div_mult_mod_eq)
  then have "b = c" by (simp add: word_unat_eq_iff)
  with Cons.IH \<open>hex bs = hex cs\<close> show ?case by simp
qed simp

lemma length_put_uint64 [simp]: "length (put_uint64 v) = 8"
  by (simp add: put_uint64_def)

definition uuid_low :: "UUID \<Rightarrow> uint64" where
  "uuid_low u = (case UUID_Low u of None \<Rightarrow> 0 | Some v \<Rightarrow> v)"

definition uuid_high :: "UUID \<Rightarrow> uint64" where
  "uuid_high u = (case UUID_High u of None \<Rightarrow> 0 | Some v \<Rightarrow> v)"

lemma uuid_segments_inj:
  assumes "length b = 16" and "length c = 16"
    and "hex (take 4 b) @ ''-'' @ hex (take 2 (drop 4 b)) @ ''-'' @ hex (take 2 (drop 6 b)) @ ''-'' @
         hex (take 2 (drop 8 b)) @ ''-'' @ hex (drop 10 b) =
        hex (take 4 c) @ ''-'' @ hex (take 2 (drop 4 c)) @ ''-'' @ hex (take 2 (drop 6 c)) @ ''-'' @
         hex (take 2 (drop 8 c)) @ ''-'' @ hex (drop 10 c)"
  shows "b = c"
proof -
  have seg: "take 4 xs @ take 2 (drop 4 xs) @ take 2 (drop 6 xs) @ take 2 (drop 8 xs) @ drop 10 xs = xs" for xs :: bytes
    using append_take_drop_id [of 2 "drop 8 xs"] append_take_drop_id [of 2 "drop 6 xs"]
      append_take_drop_id [of 2 "drop 4 xs"] append_take_drop_id [of 4 xs] by simp
  have "hex (take 4 b) = hex (take 4 c) \<and> hex (take 2 (drop 4 b)) = hex (take 2 (drop 4 c)) \<and>
      hex (take 2 (drop 6 b)) = hex (take 2 (drop 6 c)) \<and> hex (take 2 (drop 8 b)) = hex (take 2 (drop 8 c)) \<and>
      hex (drop 10 b) = hex (drop 10 c)"
    using assms(3) by (simp add: append_eq_append_conv assms(1,2))
  then have "take 4 b = take 4 c" "take 2 (drop 4 b) = take 2 (drop 4 c)" "take 2 (drop 6 b) = take 2 (drop 6 c)"
    "take 2 (drop 8 b) = take 2 (drop 8 c)" "drop 10 b = drop 10 c"
    using hex_inj assms(1,2) by simp_all
  then show ?thesis using seg [of b] seg [of c] by metis
qed

lemma formatUUID_inj:
  assumes "formatUUID u = formatUUID u'"
  shows "uuid_low u = uuid_low u' \<and> uuid_high u = uuid_high u'"
proof -
  let ?b = "put_uint64 (uuid_low u) @ put_uint64 (uuid_high u)" and ?c = "put_uint64 (uuid_low u') @ put_uint64 (uuid_high u')"
  have "hex (take 4 ?b) @ ''-'' @ hex (take 2 (drop 4 ?b)) @ ''-'' @ hex (take 2 (drop 6 ?b)) @ ''-'' @
         hex (take 2 (drop 8 ?b)) @ ''-'' @ hex (drop 10 ?b) =
        hex (take 4 ?c) @ ''-'' @ hex (take 2 (drop 4 ?c)) @ ''-'' @ hex (take 2 (drop 6 ?c)) @ ''-'' @
         hex (take 2 (drop 8 ?c)) @ ''-'' @ hex (drop 10 ?c)"
    using assms by (simp only: formatUUID_def uuid_low_def uuid_high_def Let_def)
  from uuid_segments_inj [OF _ _ this] have "?b = ?c" by simp
  then show ?thesis using put_uint64_inj by simp
qed

lemma push_spec:
  assumes "ingress_holds w1 r1 w2 r2 cnt i" and "unmarshal p = Some env"
    and "Suc (length w1) < 2 ^ 63" and "Suc (length w2) < 2 ^ 63"
  shows "\<exists>i'. (\<forall>rest. IngestorServer_Pusher unmarshal toV2 ctxErr ((False, RecvData p) # rest) i =
      IngestorServer_Pusher unmarshal toV2 ctxErr rest i') \<and>
    ingress_holds (w1 @ [Some env]) r1 (w2 @ [Some (toV2 env)]) r2 (cnt + 1) i'"
proof -
  from assms have "mto_holds w1 r1 (is_v1Buf i)" "mto_holds w2 r2 (is_v2Buf i)" by (simp_all add: ingress_holds_def)
  with assms(3,4) mto_holds_set [of w1 r1 "is_v1Buf i" "Some env" 0] mto_holds_set [of w2 r2 "is_v2Buf i" "Some (toV2 env)" 0]
  obtain d1 d2 where
    d1: "ManyToOneEnvelope_Set (Some env) (is_v1Buf i) = Some (Inr (d1, 0))" "mto_holds (w1 @ [Some env]) r1 d1" and
    d2: "ManyToOneEnvelopeV2_Set (Some (toV2 env)) (is_v2Buf i) = Some (Inr (d2, 0))"
      "mto_holds (w2 @ [Some (toV2 env)]) r2 d2"
    by (auto simp: ManyToOneEnvelope_Set_def ManyToOneEnvelopeV2_Set_def)
  let ?i = "i\<lparr>is_v1Buf := d1, is_v2Buf := d2, is_ingressMetric := Counter_Increment 1 (is_ingressMetric i)\<rparr>"
  have "ingress_holds (w1 @ [Some env]) r1 (w2 @ [Some (toV2 env)]) r2 (cnt + 1) ?i"
    using assms(1) d1(2) d2(2) by (simp add: ingress_holds_def Counter_Increment_def)
  with d1(1) d2(1) assms(2) show ?thesis by (intro exI [of _ ?i]) simp
qed

lemma Pusher_spec:
  assumes "ingress_holds w1 r1 w2 r2 cnt i"
    and "length w1 + length ps < 2 ^ 63" and "length w2 + length ps < 2 ^ 63"
  shows "\<exists>i'. IngestorServer_Pusher unmarshal toV2 ctxErr (map (\<lambda>p. (False, RecvData p)) ps @ [(False, RecvEOF)]) i =
      Some (Inr (i', Some None)) \<and>
    ingress_holds (w1 @ map Some (List.map_filter unmarshal ps)) r1 (w2 @ map (Some \<circ> toV2) (List.map_filter unmarshal ps)) r2
      (cnt + of_nat (length (List.map_filter unmarshal ps))) i'"
  using assms
proof (induction ps arbitrary: w1 w2 cnt i)
  case (Cons p ps)
  show ?case
  proof (cases "unmarshal p")
    case None
    with Cons.IH [OF Cons.prems(1)] Cons.prems(2,3) show ?thesis by (simp add: map_filter_simps)
  next
    case (Some env)
    with push_spec [OF Cons.prems(1), of unmarshal p env toV2 ctxErr] Cons.prems(2,3) obtain i' where
      i': "\<And>rest. IngestorServer_Pusher unmarshal toV2 ctxErr ((False, RecvData p) # rest) i =
          IngestorServer_Pusher unmarshal toV2 ctxErr rest i'"
        "ingress_holds (w1 @ [Some env]) r1 (w2 @ [Some (toV2 env)]) r2 (cnt + 1) i'" by auto
    from Cons.IH [OF i'(2)] Cons.prems(2,3) i'(1) Some show ?thesis
      by (simp add: map_filter_simps add.assoc del: IngestorServer_Pusher.simps(2))
  qed
qed (simp add: map_filter_simps)

section \<open>Properties\<close>

text \<open>
  C23. Routing of v1 envelopes: after any sequence of registrations of new setters and cleanups, \<open>SendTo\<close>
  does not panic and sends the marshalled envelope, for each filter that matches the envelope (any or
  the same application, any or the same kind), to all setters registered without a shard and to exactly
  one setter of every other shard registered with that filter; no setter of another filter gets it.
\<close>

theorem v1_SendTo_routes:
  assumes "store_run v1_subscribe v1_unsubscribe NewRouter L r"
    and "\<And>f sh l. 0 < l \<Longrightarrow> rand f sh l < l" and "marshal e = Some data"
  shows "\<exists>calls D. SendTo marshal rand appID e r = Inr calls \<and>
    mset calls = image_mset (\<lambda>x. (snd x, data)) D \<and>
    (\<forall>k. v1_key_delivers appID e k (image_mset (\<lambda>x. snd (snd x)) (filter_mset (\<lambda>x. fst x = k) L))
       (image_mset snd (filter_mset (\<lambda>x. fst x = k) D)))"
proof -
  have inv: "v1_inv r" and held: "v1_held k r = image_mset snd (filter_mset (\<lambda>x. fst x = k) L)" for k
    using v1r.run_held [OF assms(1)] by blast+
  have "mset (setters_at k r) = image_mset snd (v1_held k r)" for k
    by (simp add: v1_held_def multiset.map_comp comp_def)
  then have "mset (setters_at k r) = image_mset (\<lambda>x. snd (snd x)) (filter_mset (\<lambda>x. fst x = k) L)" for k
    by (simp add: held multiset.map_comp comp_def)
  then show ?thesis
    using SendTo_spec [where rand = rand and marshal = marshal and appID = appID and r = r, OF _ _ assms(3)]
      inv assms(2) by (simp add: v1_inv_def)
qed

theorem v1_SendTo_routes_witness:
  "\<exists>calls (D :: ((v1_filter \<times> string) \<times> nat) multiset). SendTo (\<lambda>_. Some [1]) (\<lambda>_ _ _. 0) ''app''
      \<lparr>v1_EventType = Some LogMessage, v1_LogAppId = Some ''app'', v1_ContainerAppId = None, v1_HttpAppId = None\<rparr>
      (fst (Router_Register (key_request (\<lparr>f_appID = [], f_envelopeType = logType\<rparr>, ''s'')) (7 :: nat) NewRouter)) = Inr calls \<and>
    mset calls = image_mset (\<lambda>x. (snd x, [1])) D"
proof -
  let ?k = "(\<lparr>f_appID = [], f_envelopeType = logType\<rparr>, ''s'')"
  have "store_run v1_subscribe v1_unsubscribe NewRouter {#(?k, 7 :: nat, 7)#} (fst (Router_Register (key_request ?k) 7 NewRouter))"
    using store_run.sub [OF store_run.start, of v1_subscribe "()" ?k "7 :: nat" NewRouter 7 "fst (Router_Register (key_request ?k) 7 NewRouter)"]
    by (simp add: v1_subscribe_def setters_at_new)
  from v1_SendTo_routes [OF this, of "\<lambda>_ _ _. 0" "\<lambda>_. Some [1]"
      "\<lparr>v1_EventType = Some LogMessage, v1_LogAppId = Some ''app'', v1_ContainerAppId = None, v1_HttpAppId = None\<rparr>" "[1]" "''app''"]
  show ?thesis by blast
qed

text \<open>
  The batched v1 stream never blocks on its error channel, whatever \<open>Send\<close> answers: the default of its
  \<open>select\<close> is only taken when no error waits. Its batches, in order, and the pending batch are exactly the
  data read; the egress counter counts the payloads of the batches sent without an error; the gauge of
  subscriptions is restored on return.
\<close>

theorem v1_BatchSubscribe_never_blocks:
  "let s = snd (DopplerServer_BatchSubscribe toUint64 one sz interval now req d rds (r, egress, subs)) in
     st_status s \<noteq> Blocked \<and> concat (st_tried s) @ bt_batch (st_batcher s) = st_got s \<and>
     mc_delta (st_egress s) = mc_delta egress + of_nat (length (concat (st_sent s))) \<and>
     mg_value (st_subscriptions s) = mg_value subs + (case st_status s of Returned _ \<Rightarrow> 0 | _ \<Rightarrow> toUint64 one)"
proof -
  let ?s0 = "enter_stream toUint64 one (NewBatcher sz interval now) egress subs :: (bytes, string) stream_state"
  have "st_status ?s0 \<noteq> Blocked" by (simp add: enter_stream_def)
  from BatchSubscribe_inv [OF stream_inv_enter this, of rds] show ?thesis
    by (simp add: DopplerServer_BatchSubscribe_def sendBatchData_loop_def Router_Register_def stream_inv_def Let_def)
qed

text \<open>The textual form of an application's UUID determines both 64-bit halves: two applications with
  different identifiers never share the key under which their HTTP envelopes are sent.\<close>

theorem formatUUID_injective:
  assumes "formatUUID u = formatUUID u'"
  shows "uuid_low u = uuid_low u' \<and> uuid_high u = uuid_high u'"
  by (rule formatUUID_inj [OF assms])

theorem formatUUID_injective_witness:
  "uuid_low \<lparr>UUID_Low = Some 1, UUID_High = Some 2\<rparr> = 1 \<and>
   uuid_high \<lparr>UUID_Low = None, UUID_High = Some 2\<rparr> = uuid_high \<lparr>UUID_Low = Some 0, UUID_High = Some 2\<rparr>"
  using formatUUID_injective [of "\<lparr>UUID_Low = None, UUID_High = Some 2\<rparr>" "\<lparr>UUID_Low = Some 0, UUID_High = Some 2\<rparr>"]
  by (simp add: formatUUID_def uuid_low_def)

end
