(* ===== verification/Fanout.thy ===== *)
theory Fanout
  imports Diodes
begin

text \<open>
  One consumer behind its own diode, as in every subscription of the router: what it is meant to get, what is
  still on its way to the diode, and what it has read. A diode holds \<open>f e\<close> for an element \<open>e\<close> (an envelope is
  stored as a pointer, marshalled data as it is).
\<close>

section \<open>Lists\<close>

lemma subseq_take_next:
  assumes "subseq xs (take r ys)" and "es = take 1 (drop (r + k) ys)"
  shows "subseq (xs @ es) (take (r + k + length es) ys)"
proof -
  have "take r ys = take r (take (r + k) ys)" by (simp add: min_def)
  then have "subseq xs (take (r + k) ys)" using assms(1) by (metis subseq_order.trans prefix_imp_subseq take_is_prefix)
  moreover have "take (r + k + length es) ys = take (r + k) ys @ es"
    unfolding assms(2) take_add by (auto simp: min_def)
  ultimately show ?thesis by (simp add: list_emb_append_mono)
qed

lemma take_1_cases: "take 1 xs = [] \<or> (\<exists>x. take 1 xs = [x])"
  by (cases xs) auto

lemma subseq_replicate: "n \<le> m \<Longrightarrow> subseq (replicate n x) (replicate m x)"
  by (metis le_add_diff_inverse replicate_add subseq_append_iff list_emb_Nil append_Nil2 subseq_order.order_refl)

section \<open>A consumer\<close>

text \<open>
  \<open>wd\<close> is wanted, \<open>p\<close> is on its way, \<open>g\<close> was read and \<open>k\<close> values were reported as dropped; \<open>ex\<close> says that all that is
  wanted is set, and not only a part of it.
\<close>

definition feeds :: "('e \<Rightarrow> 'd) \<Rightarrow> 'e list \<Rightarrow> bool \<Rightarrow> 'e list \<Rightarrow> 'e list \<Rightarrow> int \<Rightarrow> 'd OneToOne \<Rightarrow> bool" where
  "feeds f wd ex p g k d \<longleftrightarrow>
     (\<exists>ws r. oto_inv (map f ws) r d \<and> subseq (ws @ p) wd \<and> (ex \<longrightarrow> ws @ p = wd) \<and>
        subseq g (take r ws) \<and> int (length g) + k = int r)"

lemma feeds_new: "0 < sz \<Longrightarrow> sz < 2 ^ 63 \<Longrightarrow> feeds f [] ex [] [] 0 (NewOneToOne sz)"
  unfolding feeds_def using oto_inv_new by (intro exI [of _ "[]"] exI [of _ 0]) simp

lemma feeds_publish:
  assumes "feeds f wd ex [] g k d" and "n \<le> m" and "ex \<Longrightarrow> n = m"
  shows "feeds f (wd @ replicate m e) ex (replicate n e) g k d"
proof -
  from assms(1) obtain ws r where "oto_inv (map f ws) r d" "subseq ws wd" "ex \<longrightarrow> ws = wd" "subseq g (take r ws)"
    "int (length g) + k = int r" by (auto simp: feeds_def)
  with assms(3) list_emb_append_mono [OF \<open>subseq ws wd\<close> subseq_replicate [OF assms(2), of e]] show ?thesis
    unfolding feeds_def by (intro exI [of _ ws] exI [of _ r]) auto
qed

lemma feeds_set:
  assumes "feeds f wd ex (e # p) g k d" and "length wd < 2 ^ 63"
  shows "\<exists>d'. OneToOne_Set (f e) d = Inr d' \<and> feeds f wd ex p g k d'"
proof -
  from assms(1) obtain ws r where ws: "oto_inv (map f ws) r d" "subseq (ws @ e # p) wd" "ex \<longrightarrow> ws @ e # p = wd"
    "subseq g (take r ws)" "int (length g) + k = int r" by (auto simp: feeds_def)
  have "Suc (length (map f ws)) < 2 ^ 63" using list_emb_length [OF ws(2)] assms(2) by simp
  from oto.set_inv [OF ws(1) this, of "f e"] obtain d' where
    d: "OneToOne_Set (f e) d = Inr d'" "oto_inv (map f (ws @ [e])) r d'" by auto
  have "r \<le> length ws" using oto.inv_bound [OF ws(1)] by simp
  with d ws show ?thesis unfolding feeds_def by (intro exI [of _ d']) (auto intro!: exI [of _ "ws @ [e]"] exI [of _ r])
qed

lemma feeds_next:
  assumes "feeds f wd ex p g k d"
  shows "\<exists>d' es j. OneToOne_TryNext d =
      Inr (d', case es of [] \<Rightarrow> None | e # _ \<Rightarrow> Some (f e), if j = 0 then [] else [int j]) \<and>
    (es = [] \<or> (\<exists>e. es = [e])) \<and> feeds f wd ex p (g @ es) (k + int j) d'"
proof -
  from assms obtain ws r where ws: "oto_inv (map f ws) r d" "subseq (ws @ p) wd" "ex \<longrightarrow> ws @ p = wd"
    "subseq g (take r ws)" "int (length g) + k = int r" by (auto simp: feeds_def)
  from oto.next_account [OF ws(1)] obtain d' j vs where d: "OneToOne_TryNext d =
      Inr (d', case vs of [] \<Rightarrow> None | v # _ \<Rightarrow> Some v, if j = 0 then [] else [int j])"
    and vs: "vs = take 1 (drop (r + j) (map f ws))" and d2: "oto_inv (map f ws) (r + j + length vs) d'" by blast
  define es where "es = take 1 (drop (r + j) ws)"
  have vs: "vs = map f es" by (simp add: vs es_def take_map drop_map)
  have es: "es = [] \<or> (\<exists>e. es = [e])" unfolding es_def by (rule take_1_cases)
  have "feeds f wd ex p (g @ es) (k + int j) d'"
    unfolding feeds_def using d2 [unfolded vs] ws(2,3,5) subseq_take_next [OF ws(4) es_def]
    by (intro exI [of _ ws] exI [of _ "r + j + length es"]) auto
  with d es show ?thesis by (intro exI [of _ d'] exI [of _ es] exI [of _ j]) (auto simp: vs)
qed

lemma feeds_result:
  assumes "feeds f wd ex p g k d"
  shows "subseq g wd" and "int (length g) + k \<le> int (length wd)" and "ex \<Longrightarrow> k = 0 \<Longrightarrow> prefix g wd"
proof -
  from assms obtain ws r where ws: "oto_inv (map f ws) r d" "subseq (ws @ p) wd" "ex \<longrightarrow> ws @ p = wd"
    "subseq g (take r ws)" "int (length g) + k = int r" by (auto simp: feeds_def)
  have r: "r \<le> length ws" using oto.inv_bound [OF ws(1)] by simp
  have "subseq (take r ws) (ws @ p)" by (meson prefix_imp_subseq prefix_order.trans take_is_prefix prefixI)
  with ws(2,4) show "subseq g wd" by (meson subseq_order.trans)
  show "int (length g) + k \<le> int (length wd)" using ws(5) r list_emb_length [OF ws(2)] by simp
  show "prefix g wd" if "ex" "k = 0"
  proof -
    have "g = take r ws" using ws(4,5) r that(2) by (intro subseq_same_length) simp_all
    with ws(3) that(1) show ?thesis by (metis prefixI prefix_order.trans take_is_prefix)
  qed
qed

lemma feeds_drained:
  assumes "feeds f wd True [] g k d" and "OneToOne_TryNext d = Inr (d', None, al)"
  shows "int (length g) + k = int (length wd)" and "k = 0 \<Longrightarrow> g = wd"
proof -
  from assms(1) obtain r where r: "oto_inv (map f wd) r d" "subseq g (take r wd)" "int (length g) + k = int r"
    by (auto simp: feeds_def)
  have "r = length wd" using oto.next_none [OF r(1) assms(2)] by simp
  with r(2,3) subseq_same_length [OF r(2)] show "int (length g) + k = int (length wd)" "k = 0 \<Longrightarrow> g = wd" by simp_all
qed

section \<open>The reader of a shared diode\<close>

text \<open>What one reader took from a many-writer diode that was given \<open>ws\<close>, with \<open>k\<close> values reported as dropped.\<close>

definition taken_from :: "'e list \<Rightarrow> 'e list \<Rightarrow> int \<Rightarrow> nat \<Rightarrow> bool" where
  "taken_from ws g k r \<longleftrightarrow> subseq g (take r ws) \<and> int (length g) + k = int r"

lemma taken_from_more: "taken_from ws g k r \<Longrightarrow> r \<le> length ws \<Longrightarrow> taken_from (ws @ xs) g k r"
  by (simp add: taken_from_def)

lemma taken_from_next:
  assumes "oto_inv (map f ws) r (mto_abs d)" and "taken_from ws g k r"
  shows "\<exists>d' es j r'. ManyToOne_TryNext d =
      Inr (d', case es of [] \<Rightarrow> None | e # _ \<Rightarrow> Some (f e), if j = 0 then [] else [int j]) \<and>
    (es = [] \<or> (\<exists>e. es = [e])) \<and> oto_inv (map f ws) r' (mto_abs d') \<and> taken_from ws (g @ es) (k + int j) r'"
proof -
  from mto.next_account [OF assms(1)] obtain d' j vs where d: "ManyToOne_TryNext d =
      Inr (d', case vs of [] \<Rightarrow> None | v # _ \<Rightarrow> Some v, if j = 0 then [] else [int j])"
    and vs: "vs = take 1 (drop (r + j) (map f ws))"
    and d2: "oto_inv (map f ws) (r + j + length vs) (mto_abs d')" by blast
  define es where "es = take 1 (drop (r + j) ws)"
  have vs: "vs = map f es" by (simp add: vs es_def take_map drop_map)
  have es: "es = [] \<or> (\<exists>e. es = [e])" unfolding es_def by (rule take_1_cases)
  have "taken_from ws (g @ es) (k + int j) (r + j + length es)"
    using assms(2) subseq_take_next [OF _ es_def] by (auto simp: taken_from_def)
  with d d2 es show ?thesis
    by (intro exI [of _ d'] exI [of _ es] exI [of _ j] exI [of _ "r + j + length es"]) (auto simp: vs)
qed

lemma taken_from_result:
  assumes "oto_inv (map f ws) r (mto_abs d)" and "taken_from ws g k r"
  shows "subseq g ws" and "k = 0 \<Longrightarrow> prefix g ws"
    and "ManyToOne_TryNext d = Inr (d', None, al) \<Longrightarrow> int (length g) + k = int (length ws)"
    and "ManyToOne_TryNext d = Inr (d', None, al) \<Longrightarrow> k = 0 \<Longrightarrow> g = ws"
proof -
  have r: "r \<le> length ws" using mto.inv_bound [OF assms(1)] by simp
  have g: "subseq g (take r ws)" "int (length g) + k = int r" using assms(2) by (simp_all add: taken_from_def)
  show "subseq g ws" using g(1) by (meson prefix_imp_subseq subseq_order.trans take_is_prefix)
  have eq: "g = take r ws" if "k = 0" using g r that by (intro subseq_same_length) simp_all
  then show "k = 0 \<Longrightarrow> prefix g ws" by (simp add: take_is_prefix)
  assume "ManyToOne_TryNext d = Inr (d', None, al)"
  from mto.next_none [OF assms(1) this] have "r = length ws" by simp
  with g(2) eq show "int (length g) + k = int (length ws)" "k = 0 \<Longrightarrow> g = ws" by simp_all
qed

end
