(* ===== verification/RouterApp.thy ===== *)
theory RouterApp
  imports RouterV1
begin

text \<open>
  The router program (\<open>router/app/router.go\<close>, \<open>router/app/config.go\<close>, \<open>router/main.go\<close>): its configuration, what
  \<open>Start\<close> builds, and the running router with both of its paths. The ingress servers of both versions fill
  the two diodes; the repeater moves v2 envelopes to the subscription tree and from there to the diode of
  every v2 stream; the message router moves v1 envelopes to the v1 router and from there to the diode of
  every v1 stream.

  The running router is a state with one operation per atomic access of its goroutines: the repeater reads
  the diode, publishes under the read lock of the tree, and sets one diode after the other; a stream
  subscribes and unsubscribes selector by selector, each under the write lock; its reader polls its diode.
  The message router, the registration of a v1 stream, its cleanup and its reader are taken apart in the same way.
  A run is a list of events in any order; an event whose goroutine cannot move (the lock is held, there is
  no such stream) changes nothing. Every operation also returns what can be observed of it.

  Parameters: the environment (\<open>envstruct.Load\<close>), the metric client, the random draws, and the codec: the
  conversions between the two versions and (un)marshalling.
\<close>

section \<open>Configuration\<close>

record GRPC =
  gc_Port :: "16 word"
  gc_CertFile :: string
  gc_KeyFile :: string
  gc_CAFile :: string
  gc_CipherSuites :: "string list"

record router_Agent =
  ag_GRPCAddress :: string

record router_Config =
  rc_GRPC :: GRPC
  rc_IngressBufferSize :: int
  rc_EgressBufferSize :: int
  rc_UseRFC339 :: bool
  rc_PProfPort :: "32 word"
  rc_Agent :: router_Agent
  rc_MetricBatchIntervalMilliseconds :: uint64
  rc_MetricSourceID :: string

definition Config_zero :: router_Config where
  "Config_zero =
     \<lparr>rc_GRPC = \<lparr>gc_Port = 0, gc_CertFile = [], gc_KeyFile = [], gc_CAFile = [], gc_CipherSuites = []\<rparr>,
      rc_IngressBufferSize = 0, rc_EgressBufferSize = 0, rc_UseRFC339 = False, rc_PProfPort = 0,
      rc_Agent = \<lparr>ag_GRPCAddress = []\<rparr>, rc_MetricBatchIntervalMilliseconds = 0, rc_MetricSourceID = []\<rparr>"

definition Config_validate :: "router_Config \<Rightarrow> string option" where
  "Config_validate c =
     (if length (gc_CAFile (rc_GRPC c)) = 0 then Some ''invalid router config, no GRPC.CAFile provided''
      else if length (gc_CertFile (rc_GRPC c)) = 0 then Some ''invalid router config, no GRPC.CertFile provided''
      else if length (gc_KeyFile (rc_GRPC c)) = 0 then Some ''invalid router config, no GRPC.KeyFile provided''
      else None)"

text \<open>\<open>load\<close> is \<open>envstruct.Load\<close>: it overwrites the fields whose variables are set, or fails.\<close>

definition LoadConfig :: "(router_Config \<Rightarrow> string + router_Config) \<Rightarrow> string + router_Config" where
  "LoadConfig load =
     (let config = Config_zero\<lparr>rc_MetricBatchIntervalMilliseconds := 5000, rc_MetricSourceID := ''doppler''\<rparr>
      in case load config of
           Inl err \<Rightarrow> Inl err
         | Inr config \<Rightarrow>
             (case Config_validate config of Some err \<Rightarrow> Inl err | None \<Rightarrow> Inr config))"

type_synonym RouterOption = "router_Config \<Rightarrow> router_Config"

definition WithMetricReporting :: "router_Agent \<Rightarrow> uint64 \<Rightarrow> string \<Rightarrow> RouterOption" where
  "WithMetricReporting agent metricBatchIntervalMilliseconds sourceID c =
     c\<lparr>rc_Agent := agent, rc_MetricBatchIntervalMilliseconds := metricBatchIntervalMilliseconds,
       rc_MetricSourceID := sourceID\<rparr>"

definition WithBufferSizes :: "int \<Rightarrow> int \<Rightarrow> RouterOption" where
  "WithBufferSizes ingressBufferSize egressBufferSize c =
     c\<lparr>rc_IngressBufferSize := ingressBufferSize, rc_EgressBufferSize := egressBufferSize\<rparr>"

definition app_NewRouter :: "GRPC \<Rightarrow> RouterOption list \<Rightarrow> router_Config" where
  "app_NewRouter grpc opts =
     foldl (\<lambda>r opt. opt r)
       (Config_zero\<lparr>rc_GRPC := grpc, rc_Agent := \<lparr>ag_GRPCAddress = ''127.0.0.1:3458''\<rparr>,
          rc_MetricBatchIntervalMilliseconds := 5000\<rparr>) opts"

text \<open>The router that \<open>main\<close> starts, or the error it dies with.\<close>

definition router_main :: "(router_Config \<Rightarrow> string + router_Config) \<Rightarrow> string + router_Config" where
  "router_main load =
     (case LoadConfig load of
        Inl err \<Rightarrow> Inl err
      | Inr conf \<Rightarrow> Inr (app_NewRouter (rc_GRPC conf)
          [WithBufferSizes (rc_IngressBufferSize conf) (rc_EgressBufferSize conf),
           WithMetricReporting (rc_Agent conf) (rc_MetricBatchIntervalMilliseconds conf) (rc_MetricSourceID conf)]))"

section \<open>The router\<close>

text \<open>The repeater: about to read, about to publish an envelope, or setting it under the read lock.\<close>

datatype repeater_pc = RPoll | RPublish Envelope | RSet "(nat \<times> Envelope) list"

text \<open>A call of \<open>BatchedReceiver\<close>: the selectors not yet subscribed, the unsubscribe functions, the diode.\<close>

record router_stream =
  sm_req :: EgressBatchRequest
  sm_todo :: "Selector list"
  sm_handles :: "handle list"
  sm_diode :: "Envelope option OneToOne"

text \<open>The message router: about to read, about to call \<open>SendTo\<close>, or setting the data under the read lock.\<close>

datatype message_router_pc = MPoll | MSend v1_Envelope | MSet "(nat \<times> bytes) list"

text \<open>A call of \<open>Subscribe\<close> or \<open>BatchSubscribe\<close>: before, during and after its registration.\<close>

datatype registration = Unregistered | Registered | Cleaned

record v1_stream =
  vt_req :: SubscriptionRequest
  vt_phase :: registration
  vt_diode :: "bytes OneToOne"

record router_sys =
  rs_ingress :: "v1_Envelope IngressServer"
  rs_ingressDropped :: metric_Counter
  rs_droppedEgress :: metric_Counter
  rs_pubsub :: "nat sub_closure Node"
  rs_repeater :: repeater_pc
  rs_streams :: "router_stream list"
  rs_v2Egress :: EgressServer
  rs_v1Router :: "nat v1_router"
  rs_messageRouter :: message_router_pc
  rs_v1Egress :: DopplerServer
  rs_v1Streams :: "v1_stream list"

record codec =
  cd_toV1 :: "Envelope \<Rightarrow> v1_Envelope option list"
  cd_toV2 :: "v1_Envelope \<Rightarrow> Envelope"
  cd_unmarshal :: "bytes \<Rightarrow> v1_Envelope option"
  cd_marshal :: "v1_Envelope \<Rightarrow> bytes option"

text \<open>\<open>make([]T, n)\<close>\<close>

definition make_len :: "int \<Rightarrow> nat go" where
  "make_len n = (if n < 0 then Inl (ExplicitPanic ''makeslice: len out of range'') else Inr (nat n))"

definition Router_Start :: "metric_Client \<Rightarrow> router_Config \<Rightarrow> router_sys go" where
  "Router_Start metricClient c =
     (let ingressDropped = Client_NewCounter ''dropped'' [WithVersion 2 0, WithTags [(''direction'', ''ingress'')]] metricClient;
          droppedEgress = Client_NewCounter ''dropped'' [WithVersion 2 0, WithTags [(''direction'', ''egress'')]] metricClient;
          ingress = Client_NewCounter ''ingress'' [WithVersion 2 0] metricClient
      in case make_len (rc_IngressBufferSize c) of
           Inl p \<Rightarrow> Inl p
         | Inr sz \<Rightarrow> Inr
             \<lparr>rs_ingress = NewIngressServer (NewManyToOneEnvelope sz) (NewManyToOneEnvelopeV2 sz) ingress,
              rs_ingressDropped = ingressDropped, rs_droppedEgress = droppedEgress,
              rs_pubsub = Node_New, rs_repeater = RPoll, rs_streams = [], rs_v2Egress = NewEgressServer metricClient 100000000 100,
              rs_v1Router = NewRouter, rs_messageRouter = MPoll,
              rs_v1Egress = NewDopplerServer metricClient 100000000 100 (rc_EgressBufferSize c), rs_v1Streams = []\<rparr>)"

datatype router_obs =
    OIngested "Envelope list"
  | OIngressDropped int
  | OTaken Envelope
  | OPublished Envelope
  | OSubscribed nat Selector
  | OUnsubscribed nat
  | OGot nat Envelope
  | OEgressDropped nat int
  | V1Ingested "v1_Envelope list"
  | V1IngressDropped int
  | V1Taken v1_Envelope
  | V1Sent v1_Envelope
  | V1Registered nat SubscriptionRequest
  | V1Cleaned nat
  | V1Got nat bytes
  | V1EgressDropped nat int

text \<open>The alert function of a diode.\<close>

definition alerted :: "int list \<Rightarrow> metric_Counter \<Rightarrow> metric_Counter" where
  "alerted al c = foldl (\<lambda>c missed. Counter_Increment (of_int missed) c) c al"

subsection \<open>Ingress\<close>

definition has_event_type :: "v1_Envelope \<Rightarrow> bool" where
  "has_event_type e \<longleftrightarrow> v1_EventType e \<noteq> None"

definition router_ingest :: "codec \<Rightarrow> Envelope list \<Rightarrow> router_sys \<Rightarrow> (router_sys \<times> router_obs list) go option" where
  "router_ingest cd es s =
     map_option (map_sum id (\<lambda>i. (s\<lparr>rs_ingress := i\<rparr>,
         [OIngested es, V1Ingested (map the (concat (map (v1_of (cd_toV1 cd) has_event_type) es)))])))
       (ingress_batch (cd_toV1 cd) has_event_type es (rs_ingress s))"

text \<open>One round of \<open>Pusher\<close> that receives a payload.\<close>

definition router_push :: "codec \<Rightarrow> bytes \<Rightarrow> router_sys \<Rightarrow> (router_sys \<times> router_obs list) go option" where
  "router_push cd payload s =
     map_option (map_sum id (\<lambda>(i, _). (s\<lparr>rs_ingress := i\<rparr>,
         case cd_unmarshal cd payload of None \<Rightarrow> [] | Some env \<Rightarrow> [OIngested [cd_toV2 cd env], V1Ingested [env]])))
       (IngestorServer_Pusher (cd_unmarshal cd) (cd_toV2 cd) [] [(False, RecvData payload)] (rs_ingress s))"

subsection \<open>The v2 path\<close>

text \<open>One step of \<open>repeater.Start\<close>, that is of \<open>v2PubSub.Publish(v2Buf.Next())\<close>.\<close>

definition repeater_poll :: "router_sys \<Rightarrow> (router_sys \<times> router_obs list) go" where
  "repeater_poll s =
     (case ManyToOne_TryNext (is_v2Buf (rs_ingress s)) of
        Inl p \<Rightarrow> Inl p
      | Inr (d, data, al) \<Rightarrow>
          (let s = s\<lparr>rs_ingress := (rs_ingress s)\<lparr>is_v2Buf := d\<rparr>, rs_ingressDropped := alerted al (rs_ingressDropped s)\<rparr>;
               os = map OIngressDropped al
           in case data of
                None \<Rightarrow> Inr (s, os)
              | Some None \<Rightarrow> Inl NilDereference
              | Some (Some e) \<Rightarrow> Inr (s\<lparr>rs_repeater := RPublish e\<rparr>, os @ [OTaken e])))"

definition repeater_set :: "nat \<Rightarrow> Envelope \<Rightarrow> (nat \<times> Envelope) list \<Rightarrow> router_sys \<Rightarrow> router_sys go" where
  "repeater_set w e cs s =
     (if w < length (rs_streams s) then
        case OneToOne_Set (Some e) (sm_diode (rs_streams s ! w)) of
          Inl p \<Rightarrow> Inl p
        | Inr d \<Rightarrow> Inr (s\<lparr>rs_repeater := RSet cs, rs_streams := (rs_streams s)[w := (rs_streams s ! w)\<lparr>sm_diode := d\<rparr>]\<rparr>)
      else Inl NilDereference)"

definition router_repeat ::
    "uint64 \<Rightarrow> (uint64 list \<Rightarrow> string \<Rightarrow> nat \<Rightarrow> nat) \<Rightarrow> router_sys \<Rightarrow> (router_sys \<times> router_obs list) go option" where
  "router_repeat r rand s =
     (case rs_repeater s of
        RPoll \<Rightarrow> Some (repeater_poll s)
      | RPublish e \<Rightarrow>
          map_option (map_sum id (\<lambda>calls. (s\<lparr>rs_repeater := RSet calls\<rparr>, [OPublished e])))
            (v2_Publish r rand e (rs_pubsub s))
      | RSet [] \<Rightarrow> Some (Inr (s\<lparr>rs_repeater := RPoll\<rparr>, []))
      | RSet ((w, e) # cs) \<Rightarrow> Some (map_sum id (\<lambda>s. (s, [])) (repeater_set w e cs s)))"

definition locked :: "router_sys \<Rightarrow> bool" where
  "locked s = (case rs_repeater s of RSet _ \<Rightarrow> True | _ \<Rightarrow> False)"

text \<open>The beginning of \<open>BatchedReceiver\<close>.\<close>

definition router_open :: "EgressBatchRequest \<Rightarrow> router_sys \<Rightarrow> router_sys" where
  "router_open req s =
     s\<lparr>rs_streams := rs_streams s @
        [\<lparr>sm_req = req, sm_todo = ebr_Selectors req, sm_handles = [], sm_diode = w_diode (NewOneToOneWaiterEnvelopeV2 1000)\<rparr>]\<rparr>"

text \<open>One round of the loop of \<open>Subscribe\<close>; \<open>r\<close> is the draw for the identifier.\<close>

definition router_subscribe :: "nat \<Rightarrow> uint64 \<Rightarrow> router_sys \<Rightarrow> (router_sys \<times> router_obs list) go option" where
  "router_subscribe w r s =
     (if \<not> w < length (rs_streams s) \<or> locked s then Some (Inr (s, []))
      else let st = rs_streams s ! w in
        case sm_todo st of
          [] \<Rightarrow> Some (Inr (s, []))
        | sel # todo \<Rightarrow>
            map_option (map_sum id (\<lambda>(hs, n).
                (s\<lparr>rs_pubsub := n,
                   rs_streams := (rs_streams s)[w := st\<lparr>sm_todo := todo, sm_handles := sm_handles st @ hs\<rparr>]\<rparr>,
                 if Selector_Message sel = None then [] else [OSubscribed w sel])))
              (v2_Subscribe_loop (\<lambda>_. r) 0 (sm_req st) w [sel] (rs_pubsub s)))"

text \<open>One round of the loop of the returned function, which is deferred until \<open>Subscribe\<close> has returned.\<close>

definition router_unsubscribe :: "nat \<Rightarrow> router_sys \<Rightarrow> (router_sys \<times> router_obs list) go" where
  "router_unsubscribe w s =
     (if \<not> w < length (rs_streams s) \<or> locked s then Inr (s, [])
      else let st = rs_streams s ! w in
        if sm_todo st \<noteq> [] then Inr (s, [])
        else case sm_handles st of
          [] \<Rightarrow> Inr (s, [])
        | h # hs \<Rightarrow>
            map_sum id (\<lambda>n. (s\<lparr>rs_pubsub := n, rs_streams := (rs_streams s)[w := st\<lparr>sm_handles := hs\<rparr>]\<rparr>, [OUnsubscribed w]))
              (v2_unsubscribe [h] (rs_pubsub s)))"

text \<open>One poll of \<open>d.Next()\<close> by the goroutine of a stream.\<close>

definition router_read :: "nat \<Rightarrow> router_sys \<Rightarrow> (router_sys \<times> router_obs list) go" where
  "router_read w s =
     (if \<not> w < length (rs_streams s) then Inr (s, [])
      else let st = rs_streams s ! w in
        case OneToOne_TryNext (sm_diode st) of
          Inl p \<Rightarrow> Inl p
        | Inr (d, data, al) \<Rightarrow>
            Inr (s\<lparr>rs_streams := (rs_streams s)[w := st\<lparr>sm_diode := d\<rparr>], rs_droppedEgress := alerted al (rs_droppedEgress s)\<rparr>,
              map (OEgressDropped w) al @ (case data of Some (Some e) \<Rightarrow> [OGot w e] | _ \<Rightarrow> [])))"

subsection \<open>The v1 path\<close>

text \<open>
  One step of \<open>MessageRouter.Start\<close>, whose only sender is the v1 router. A nil envelope marshals to nil, so
  \<open>SendTo\<close> returns at once for it.
\<close>

definition message_router_poll :: "router_sys \<Rightarrow> (router_sys \<times> router_obs list) go" where
  "message_router_poll s =
     (case ManyToOne_TryNext (is_v1Buf (rs_ingress s)) of
        Inl p \<Rightarrow> Inl p
      | Inr (d, data, al) \<Rightarrow>
          (let s = s\<lparr>rs_ingress := (rs_ingress s)\<lparr>is_v1Buf := d\<rparr>, rs_ingressDropped := alerted al (rs_ingressDropped s)\<rparr>;
               os = map V1IngressDropped al
           in case data of
                None \<Rightarrow> Inr (s, os)
              | Some None \<Rightarrow> Inr (s, os)
              | Some (Some e) \<Rightarrow> Inr (s\<lparr>rs_messageRouter := MSend e\<rparr>, os @ [V1Taken e])))"

definition message_router_set :: "nat \<Rightarrow> bytes \<Rightarrow> (nat \<times> bytes) list \<Rightarrow> router_sys \<Rightarrow> router_sys go" where
  "message_router_set w data cs s =
     (if w < length (rs_v1Streams s) then
        case diodes_OneToOne_Set data (vt_diode (rs_v1Streams s ! w)) of
          Inl p \<Rightarrow> Inl p
        | Inr d \<Rightarrow> Inr (s\<lparr>rs_messageRouter := MSet cs,
            rs_v1Streams := (rs_v1Streams s)[w := (rs_v1Streams s ! w)\<lparr>vt_diode := d\<rparr>]\<rparr>)
      else Inl NilDereference)"

definition router_route ::
    "codec \<Rightarrow> (v1_filter \<Rightarrow> string \<Rightarrow> nat \<Rightarrow> nat) \<Rightarrow> router_sys \<Rightarrow> (router_sys \<times> router_obs list) go" where
  "router_route cd rand s =
     (case rs_messageRouter s of
        MPoll \<Rightarrow> message_router_poll s
      | MSend e \<Rightarrow>
          map_sum id (\<lambda>calls. (s\<lparr>rs_messageRouter := (if cd_marshal cd e = None then MPoll else MSet calls)\<rparr>, [V1Sent e]))
            (SendTo (cd_marshal cd) rand (getAppId e) e (rs_v1Router s))
      | MSet [] \<Rightarrow> Inr (s\<lparr>rs_messageRouter := MPoll\<rparr>, [])
      | MSet ((w, data) # cs) \<Rightarrow> map_sum id (\<lambda>s. (s, [])) (message_router_set w data cs s))"

definition v1_locked :: "router_sys \<Rightarrow> bool" where
  "v1_locked s = (case rs_messageRouter s of MSet _ \<Rightarrow> True | _ \<Rightarrow> False)"

text \<open>The beginning of \<open>sendData\<close> and of \<open>sendBatchData\<close>.\<close>

definition v1_open :: "SubscriptionRequest \<Rightarrow> router_sys \<Rightarrow> router_sys go" where
  "v1_open req s =
     (case make_len (ds_bufferSize (rs_v1Egress s)) of
        Inl p \<Rightarrow> Inl p
      | Inr sz \<Rightarrow> Inr (s\<lparr>rs_v1Streams := rs_v1Streams s @
          [\<lparr>vt_req = req, vt_phase = Unregistered, vt_diode = diodes_NewOneToOne sz\<rparr>]\<rparr>))"

definition v1_register :: "nat \<Rightarrow> router_sys \<Rightarrow> router_sys \<times> router_obs list" where
  "v1_register w s =
     (if \<not> w < length (rs_v1Streams s) \<or> v1_locked s then (s, [])
      else let st = rs_v1Streams s ! w in
        if vt_phase st = Unregistered then
          (s\<lparr>rs_v1Router := fst (Router_Register (vt_req st) w (rs_v1Router s)),
             rs_v1Streams := (rs_v1Streams s)[w := st\<lparr>vt_phase := Registered\<rparr>]\<rparr>, [V1Registered w (vt_req st)])
        else (s, []))"

text \<open>The deferred call of the function that \<open>Register\<close> returned.\<close>

definition v1_cleanup :: "nat \<Rightarrow> router_sys \<Rightarrow> router_sys \<times> router_obs list" where
  "v1_cleanup w s =
     (if \<not> w < length (rs_v1Streams s) \<or> v1_locked s then (s, [])
      else let st = rs_v1Streams s ! w in
        if vt_phase st = Registered then
          (s\<lparr>rs_v1Router := snd (Router_Register (vt_req st) w (rs_v1Router s)) (rs_v1Router s),
             rs_v1Streams := (rs_v1Streams s)[w := st\<lparr>vt_phase := Cleaned\<rparr>]\<rparr>, [V1Cleaned w])
        else (s, []))"

text \<open>One \<open>TryNext\<close> of the loop of a stream, which runs between its registration and its cleanup.\<close>

definition v1_read :: "nat \<Rightarrow> router_sys \<Rightarrow> (router_sys \<times> router_obs list) go" where
  "v1_read w s =
     (if \<not> w < length (rs_v1Streams s) then Inr (s, [])
      else let st = rs_v1Streams s ! w in
        if vt_phase st \<noteq> Registered then Inr (s, [])
        else case diodes_OneToOne_TryNext (vt_diode st) of
          Inl p \<Rightarrow> Inl p
        | Inr (d, (data, ok), al) \<Rightarrow>
            Inr (s\<lparr>rs_v1Streams := (rs_v1Streams s)[w := st\<lparr>vt_diode := d\<rparr>],
                   rs_droppedEgress := foldl (\<lambda>c missed. DopplerServer_Alert missed c) (rs_droppedEgress s) al\<rparr>,
              map (V1EgressDropped w) al @ (case data of Some x \<Rightarrow> if ok then [V1Got w x] else [] | None \<Rightarrow> [])))"

subsection \<open>The running router\<close>

datatype router_event =
    Ingest "Envelope list"
  | Repeat uint64 "uint64 list \<Rightarrow> string \<Rightarrow> nat \<Rightarrow> nat"
  | Open EgressBatchRequest
  | Subscribe nat uint64
  | Unsubscribe nat
  | Read nat
  | Push bytes
  | Route "v1_filter \<Rightarrow> string \<Rightarrow> nat \<Rightarrow> nat"
  | V1Open SubscriptionRequest
  | V1Register nat
  | V1Cleanup nat
  | V1Read nat

definition router_step :: "codec \<Rightarrow> router_event \<Rightarrow> router_sys \<Rightarrow> (router_sys \<times> router_obs list) go option" where
  "router_step cd ev s =
     (case ev of
        Ingest es \<Rightarrow> router_ingest cd es s
      | Repeat r rand \<Rightarrow> router_repeat r rand s
      | Open req \<Rightarrow> Some (Inr (router_open req s, []))
      | Subscribe w r \<Rightarrow> router_subscribe w r s
      | Unsubscribe w \<Rightarrow> Some (router_unsubscribe w s)
      | Read w \<Rightarrow> Some (router_read w s)
      | Push payload \<Rightarrow> router_push cd payload s
      | Route rand \<Rightarrow> Some (router_route cd rand s)
      | V1Open req \<Rightarrow> Some (map_sum id (\<lambda>s. (s, [])) (v1_open req s))
      | V1Register w \<Rightarrow> Some (Inr (v1_register w s))
      | V1Cleanup w \<Rightarrow> Some (Inr (v1_cleanup w s))
      | V1Read w \<Rightarrow> Some (v1_read w s))"

fun router_run :: "codec \<Rightarrow> router_event list \<Rightarrow> router_sys \<Rightarrow> (router_sys \<times> router_obs list) go option" where
  "router_run cd [] s = Some (Inr (s, []))"
| "router_run cd (ev # evs) s =
     (case router_step cd ev s of
        None \<Rightarrow> None
      | Some (Inl p) \<Rightarrow> Some (Inl p)
      | Some (Inr (s, os)) \<Rightarrow> map_option (map_sum id (\<lambda>(s', os'). (s', os @ os'))) (router_run cd evs s))"

end
