(* ===== verification/RouterRun.thy ===== *)
theory RouterRun
  imports RouterApp Fanout
begin

text \<open>
  The runs of the router, the part shared by both paths and the v2 path: what is observed, the invariant that
  relates the observations to the state, and that every step of the ingress servers, the repeater and the
  v2 streams keeps it.
\<close>

section \<open>What is observed\<close>

definition ingested :: "router_obs list \<Rightarrow> Envelope list" where
  "ingested os = concat (map (\<lambda>x. case x of OIngested es \<Rightarrow> es | _ \<Rightarrow> []) os)"

definition taken :: "router_obs list \<Rightarrow> Envelope list" where
  "taken os = concat (map (\<lambda>x. case x of OTaken e \<Rightarrow> [e] | _ \<Rightarrow> []) os)"

definition published :: "router_obs list \<Rightarrow> Envelope list" where
  "published os = concat (map (\<lambda>x. case x of OPublished e \<Rightarrow> [e] | _ \<Rightarrow> []) os)"

definition ingress_dropped :: "router_obs list \<Rightarrow> int" where
  "ingress_dropped os = sum_list (map (\<lambda>x. case x of OIngressDropped k \<Rightarrow> k | _ \<Rightarrow> 0) os)"

definition got :: "nat \<Rightarrow> router_obs list \<Rightarrow> Envelope list" where
  "got w os = concat (map (\<lambda>x. case x of OGot w' e \<Rightarrow> if w' = w then [e] else [] | _ \<Rightarrow> []) os)"

definition egress_dropped :: "nat \<Rightarrow> router_obs list \<Rightarrow> int" where
  "egress_dropped w os = sum_list (map (\<lambda>x. case x of OEgressDropped w' k \<Rightarrow> if w' = w then k else 0 | _ \<Rightarrow> 0) os)"

definition v1_ingested :: "router_obs list \<Rightarrow> v1_Envelope list" where
  "v1_ingested os = concat (map (\<lambda>x. case x of V1Ingested es \<Rightarrow> es | _ \<Rightarrow> []) os)"

definition v1_taken :: "router_obs list \<Rightarrow> v1_Envelope list" where
  "v1_taken os = concat (map (\<lambda>x. case x of V1Taken e \<Rightarrow> [e] | _ \<Rightarrow> []) os)"

definition v1_sent :: "router_obs list \<Rightarrow> v1_Envelope list" where
  "v1_sent os = concat (map (\<lambda>x. case x of V1Sent e \<Rightarrow> [e] | _ \<Rightarrow> []) os)"

definition v1_ingress_dropped :: "router_obs list \<Rightarrow> int" where
  "v1_ingress_dropped os = sum_list (map (\<lambda>x. case x of V1IngressDropped k \<Rightarrow> k | _ \<Rightarrow> 0) os)"

text \<open>What the diodes of all streams of both versions reported.\<close>

definition egress_reported :: "router_obs list \<Rightarrow> int" where
  "egress_reported os = sum_list (map (\<lambda>x. case x of OEgressDropped _ k \<Rightarrow> k | V1EgressDropped _ k \<Rightarrow> k | _ \<Rightarrow> 0) os)"

text \<open>The selectors that a stream is subscribed with, and how many of them ask for an envelope.\<close>

definition selectors_step :: "nat \<Rightarrow> Selector list \<Rightarrow> router_obs \<Rightarrow> Selector list" where
  "selectors_step w ss x =
     (case x of
        OSubscribed w' s \<Rightarrow> if w' = w then ss @ [s] else ss
      | OUnsubscribed w' \<Rightarrow> if w' = w then tl ss else ss
      | _ \<Rightarrow> ss)"

definition selectors_of :: "nat \<Rightarrow> router_obs list \<Rightarrow> Selector list" where
  "selectors_of w os = foldl (selectors_step w) [] os"

definition selector_asks :: "Envelope \<Rightarrow> Selector \<Rightarrow> bool" where
  "selector_asks e s \<longleftrightarrow> source_matches (Selector_SourceId s) e \<and>
     (case Selector_Message s of None \<Rightarrow> False | Some m \<Rightarrow> message_matches m (Message e))"

definition asked :: "Selector list \<Rightarrow> Envelope \<Rightarrow> nat" where
  "asked ss e = length (filter (selector_asks e) ss)"

text \<open>
  The envelopes that a stream asks for: each envelope that is published while it is subscribed, once for
  every selector that asks for it.
\<close>

fun wanted_from :: "nat \<Rightarrow> Selector list \<Rightarrow> router_obs list \<Rightarrow> Envelope list" where
  "wanted_from w ss [] = []"
| "wanted_from w ss (x # os) =
     (case x of OPublished e \<Rightarrow> replicate (asked ss e) e | _ \<Rightarrow> []) @ wanted_from w (selectors_step w ss x) os"

definition wanted :: "nat \<Rightarrow> router_obs list \<Rightarrow> Envelope list" where
  "wanted w os = wanted_from w [] os"

definition subscribed_count :: "router_obs list \<Rightarrow> nat" where
  "subscribed_count os = length (filter (\<lambda>x. case x of OSubscribed _ _ \<Rightarrow> True | _ \<Rightarrow> False) os)"

lemmas obs_defs = ingested_def taken_def published_def got_def ingress_dropped_def egress_dropped_def
  v1_ingested_def v1_taken_def v1_sent_def v1_ingress_dropped_def egress_reported_def

lemma obs_append:
  "ingested (xs @ ys) = ingested xs @ ingested ys" "taken (xs @ ys) = taken xs @ taken ys"
  "published (xs @ ys) = published xs @ published ys" "got w (xs @ ys) = got w xs @ got w ys"
  "ingress_dropped (xs @ ys) = ingress_dropped xs + ingress_dropped ys"
  "egress_dropped w (xs @ ys) = egress_dropped w xs + egress_dropped w ys"
  "selectors_of w (xs @ ys) = foldl (selectors_step w) (selectors_of w xs) ys"
  "subscribed_count (xs @ ys) = subscribed_count xs + subscribed_count ys"
  "v1_ingested (xs @ ys) = v1_ingested xs @ v1_ingested ys" "v1_taken (xs @ ys) = v1_taken xs @ v1_taken ys"
  "v1_sent (xs @ ys) = v1_sent xs @ v1_sent ys"
  "v1_ingress_dropped (xs @ ys) = v1_ingress_dropped xs + v1_ingress_dropped ys"
  "egress_reported (xs @ ys) = egress_reported xs + egress_reported ys"
  by (simp_all add: obs_defs selectors_of_def subscribed_count_def)

lemma wanted_from_append:
  "wanted_from w ss (xs @ ys) = wanted_from w ss xs @ wanted_from w (foldl (selectors_step w) ss xs) ys"
  by (induction xs arbitrary: ss) simp_all

lemma wanted_append: "wanted w (xs @ ys) = wanted w xs @ wanted_from w (selectors_of w xs) ys"
  by (simp add: wanted_def wanted_from_append selectors_of_def)

lemma obs_Nil:
  "ingested [] = []" "taken [] = []" "published [] = []" "got w [] = []" "ingress_dropped [] = 0"
  "egress_dropped w [] = 0" "selectors_of w [] = []" "subscribed_count [] = 0" "wanted w [] = []"
  "v1_ingested [] = []" "v1_taken [] = []" "v1_sent [] = []" "v1_ingress_dropped [] = 0" "egress_reported [] = 0"
  by (simp_all add: obs_defs selectors_of_def subscribed_count_def wanted_def)

lemma obs_Cons:
  "ingested (x # os) = (case x of OIngested es \<Rightarrow> es | _ \<Rightarrow> []) @ ingested os"
  "taken (x # os) = (case x of OTaken e \<Rightarrow> [e] | _ \<Rightarrow> []) @ taken os"
  "published (x # os) = (case x of OPublished e \<Rightarrow> [e] | _ \<Rightarrow> []) @ published os"
  "got w (x # os) = (case x of OGot w' e \<Rightarrow> if w' = w then [e] else [] | _ \<Rightarrow> []) @ got w os"
  "ingress_dropped (x # os) = (case x of OIngressDropped k \<Rightarrow> k | _ \<Rightarrow> 0) + ingress_dropped os"
  "egress_dropped w (x # os) = (case x of OEgressDropped w' k \<Rightarrow> if w' = w then k else 0 | _ \<Rightarrow> 0) + egress_dropped w os"
  "subscribed_count (x # os) = (case x of OSubscribed _ _ \<Rightarrow> 1 | _ \<Rightarrow> 0) + subscribed_count os"
  "v1_ingested (x # os) = (case x of V1Ingested es \<Rightarrow> es | _ \<Rightarrow> []) @ v1_ingested os"
  "v1_taken (x # os) = (case x of V1Taken e \<Rightarrow> [e] | _ \<Rightarrow> []) @ v1_taken os"
  "v1_sent (x # os) = (case x of V1Sent e \<Rightarrow> [e] | _ \<Rightarrow> []) @ v1_sent os"
  "v1_ingress_dropped (x # os) = (case x of V1IngressDropped k \<Rightarrow> k | _ \<Rightarrow> 0) + v1_ingress_dropped os"
  "egress_reported (x # os) = (case x of OEgressDropped _ k \<Rightarrow> k | V1EgressDropped _ k \<Rightarrow> k | _ \<Rightarrow> 0) + egress_reported os"
  by (simp_all add: obs_defs subscribed_count_def split: router_obs.split)

lemmas obs_simps = obs_append wanted_append obs_Nil obs_Cons selectors_step_def

lemma selectors_of_length: "length (selectors_of w os) \<le> subscribed_count os"
proof (induction os rule: rev_induct)
  case (snoc x os)
  then show ?case by (cases x) (auto simp: obs_simps)
qed (simp add: obs_simps)

lemma wanted_length: "length (wanted w os) \<le> length (published os) * subscribed_count os"
proof (induction os rule: rev_induct)
  case (snoc x os)
  have "asked (selectors_of w os) e \<le> subscribed_count os" for e
    using selectors_of_length [of w os] length_filter_le [of "selector_asks e" "selectors_of w os"]
    unfolding asked_def by linarith
  with snoc show ?case by (cases x) (auto simp: obs_simps intro: add_mono order_trans)
qed (simp add: obs_simps)

section \<open>Publishing to one setter\<close>

abbreviation setter :: "'w live \<Rightarrow> 'w" where
  "setter x \<equiv> sc_setter (fst (snd (snd x)))"

abbreviation guard :: "Envelope \<Rightarrow> 'w live \<Rightarrow> bool" where
  "guard e x \<equiv> source_matches (sc_sourceID (fst (snd (snd x)))) e"

lemma key_deliversD:
  assumes "key_delivers e k L D"
  shows "fst k \<notin> set (envelope_paths e) \<Longrightarrow> D = {#}" and "D \<subseteq># L"
    and "fst k \<in> set (envelope_paths e) \<Longrightarrow> snd k = [] \<Longrightarrow> D = L"
  using assms by (simp_all add: key_delivers_def split: if_splits)

lemma key_delivers_count:
  assumes "\<And>k. key_delivers e k (filter_mset (\<lambda>x. fst x = k) L) (filter_mset (\<lambda>x. fst x = k) D)"
  shows "fst (fst x) \<notin> set (envelope_paths e) \<Longrightarrow> count D x = 0"
    and "count D x \<le> count L x"
    and "fst (fst x) \<in> set (envelope_paths e) \<Longrightarrow> snd (fst x) = [] \<Longrightarrow> count D x = count L x"
proof -
  have c: "count M x = count (filter_mset (\<lambda>y. fst y = fst x) M) x" for M by simp
  note k = key_deliversD [OF assms [of "fst x"]]
  show "count D x = 0" if "fst (fst x) \<notin> set (envelope_paths e)" by (simp only: c [of D] k(1) [OF that] count_empty)
  show "count D x \<le> count L x" unfolding c [of D] c [of L] by (rule mset_subset_eq_count [OF k(2)])
  show "count D x = count L x" if "fst (fst x) \<in> set (envelope_paths e)" "snd (fst x) = []"
    by (simp only: c [of D] c [of L] k(3) [OF that])
qed

lemma publish_to:
  fixes n :: "'w sub_closure Node"
  assumes run: "v2_run L n" and rand: "\<And>\<pi> sh l. 0 < l \<Longrightarrow> rand \<pi> sh l < l" and size: "size L < 2 ^ 64"
  shows "\<exists>calls. v2_Publish r rand e n = Some (Inr calls) \<and> (\<forall>c \<in> set calls. snd c = e) \<and>
    (\<forall>w. let Lw = filter_mset (\<lambda>x. setter x = w \<and> fst (fst x) \<in> set (envelope_paths e) \<and> guard e x) L;
             k = length (filter (\<lambda>c. fst c = w) calls)
         in k \<le> size Lw \<and> ((\<forall>x \<in># L. setter x = w \<longrightarrow> snd (fst x) = []) \<longrightarrow> k = size Lw))"
proof -
  obtain calls D where calls: "v2_Publish r rand e n = Some (Inr calls)"
    "mset calls = image_mset (\<lambda>x. (setter x, e)) (filter_mset (guard e) D)"
    and key: "\<And>k. key_delivers e k (filter_mset (\<lambda>x. fst x = k) L) (filter_mset (\<lambda>x. fst x = k) D)"
    using v2_publish_spec [OF run _ size, of rand r e] rand by blast
  have snd: "\<forall>c \<in> set calls. snd c = e" using calls(2) [THEN arg_cong, of set_mset] by auto
  have k: "length (filter (\<lambda>c. fst c = w) calls) = size (filter_mset (\<lambda>x. setter x = w \<and> guard e x) D)" for w
  proof -
    have "length (filter (\<lambda>c. fst c = w) calls) = size (filter_mset (\<lambda>c. fst c = w) (mset calls))"
      by (simp flip: size_mset)
    also have "\<dots> = size (filter_mset (\<lambda>x. setter x = w \<and> guard e x) D)"
      unfolding calls(2) by (simp add: filter_mset_image_mset filter_filter_mset conj_commute)
    finally show ?thesis .
  qed
  let ?Lw = "\<lambda>w. filter_mset (\<lambda>x. setter x = w \<and> fst (fst x) \<in> set (envelope_paths e) \<and> guard e x) L"
  have le: "filter_mset (\<lambda>x. setter x = w \<and> guard e x) D \<subseteq># ?Lw w" for w
  proof (rule mset_subset_eqI)
    fix x
    show "count (filter_mset (\<lambda>x. setter x = w \<and> guard e x) D) x \<le> count (?Lw w) x"
      using key_delivers_count(1,2) [OF key, of x] by simp
  qed
  have eq: "filter_mset (\<lambda>x. setter x = w \<and> guard e x) D = ?Lw w"
    if "\<forall>x \<in># L. setter x = w \<longrightarrow> snd (fst x) = []" for w
  proof (rule multiset_eqI)
    fix x
    show "count (filter_mset (\<lambda>x. setter x = w \<and> guard e x) D) x = count (?Lw w) x"
      using key_delivers_count [OF key, of x] that by (cases "x \<in># L") (auto simp: not_in_iff)
  qed
  from calls(1) snd k le eq show ?thesis by (auto simp: Let_def intro: size_mset_mono)
qed

lemma asked_size:
  fixes L :: "'w live multiset"
  assumes L: "filter_mset (\<lambda>x. setter x = w) L = mset (map2 (live_of req w) ss hs)"
    and hs: "map fst hs = map (\<lambda>s. (selector_path s, ebr_ShardId req)) ss"
    and msg: "\<forall>s \<in> set ss. Selector_Message s \<noteq> None"
  shows "size (filter_mset (\<lambda>x. setter x = w \<and> fst (fst x) \<in> set (envelope_paths e) \<and> guard e x) L) = asked ss e"
proof -
  let ?P = "\<lambda>x. fst (fst x) \<in> set (envelope_paths e) \<and> guard e x"
  have "size (filter_mset (\<lambda>x. setter x = w \<and> ?P x) L) = size (filter_mset ?P (filter_mset (\<lambda>x. setter x = w) L))"
    by (simp add: filter_filter_mset conj_commute)
  also have "\<dots> = length (filter ?P (map2 (live_of req w) ss hs))"
    unfolding L mset_filter [symmetric] size_mset ..
  also have "\<dots> = asked ss e"
    using map_eq_imp_length_eq [OF hs] hs msg unfolding asked_def
  proof (induction hs ss rule: list_induct2)
    case (Cons h hs s ss)
    then obtain m where m: "Selector_Message s = Some m" by auto
    have "?P (live_of req w s h) \<longleftrightarrow> selector_asks e s"
      using Cons.prems(1) selector_path_visited [OF m, of e]
      by (auto simp: live_of_def selector_asks_def m source_matches_def)
    with Cons show ?case by simp
  qed simp
  finally show ?thesis .
qed

section \<open>The invariant\<close>

definition pending :: "router_sys \<Rightarrow> (nat \<times> Envelope) list" where
  "pending s = (case rs_repeater s of RSet cs \<Rightarrow> cs | _ \<Rightarrow> [])"

definition pending_for :: "nat \<Rightarrow> (nat \<times> 'a) list \<Rightarrow> 'a list" where
  "pending_for w cs = map snd (filter (\<lambda>c. fst c = w) cs)"

definition publishing :: "router_sys \<Rightarrow> Envelope list" where
  "publishing s = (case rs_repeater s of RPublish e \<Rightarrow> [e] | _ \<Rightarrow> [])"

definition sending :: "router_sys \<Rightarrow> v1_Envelope list" where
  "sending s = (case rs_messageRouter s of MSend e \<Rightarrow> [e] | _ \<Rightarrow> [])"

definition ingress_inv :: "router_obs list \<Rightarrow> router_sys \<Rightarrow> bool" where
  "ingress_inv os s \<longleftrightarrow>
     (\<exists>r1 r2 cnt. ingress_holds (map Some (v1_ingested os)) r1 (map Some (ingested os)) r2 cnt (rs_ingress s) \<and>
        taken_from (v1_ingested os) (v1_taken os) (v1_ingress_dropped os) r1 \<and>
        taken_from (ingested os) (taken os) (ingress_dropped os) r2) \<and>
     mc_delta (rs_ingressDropped s) = of_int (ingress_dropped os + v1_ingress_dropped os) \<and>
     taken os = published os @ publishing s \<and> v1_taken os = v1_sent os @ sending s"

definition subs_inv :: "router_obs list \<Rightarrow> router_sys \<Rightarrow> bool" where
  "subs_inv os s \<longleftrightarrow>
     (\<exists>L. v2_run L (rs_pubsub s) \<and> size L \<le> subscribed_count os \<and>
        (\<forall>x \<in># L. setter x < length (rs_streams s)) \<and>
        (\<forall>w < length (rs_streams s). filter_mset (\<lambda>x. setter x = w) L =
           mset (map2 (live_of (sm_req (rs_streams s ! w)) w) (selectors_of w os) (sm_handles (rs_streams s ! w)))))"

definition stream_ok :: "nat \<Rightarrow> router_obs list \<Rightarrow> Envelope list \<Rightarrow> router_stream \<Rightarrow> bool" where
  "stream_ok w os pend st \<longleftrightarrow>
     feeds Some (wanted w os) (ebr_ShardId (sm_req st) = []) pend (got w os) (egress_dropped w os) (sm_diode st) \<and>
     map fst (sm_handles st) = map (\<lambda>s. (selector_path s, ebr_ShardId (sm_req st))) (selectors_of w os) \<and>
     (\<forall>s \<in> set (selectors_of w os). Selector_Message s \<noteq> None)"

definition unborn :: "nat \<Rightarrow> router_obs list \<Rightarrow> bool" where
  "unborn w os \<longleftrightarrow> selectors_of w os = [] \<and> wanted w os = [] \<and> got w os = [] \<and> egress_dropped w os = 0"

definition streams_inv :: "router_obs list \<Rightarrow> router_sys \<Rightarrow> bool" where
  "streams_inv os s \<longleftrightarrow>
     (\<forall>w < length (rs_streams s). stream_ok w os (pending_for w (pending s)) (rs_streams s ! w)) \<and>
     (\<forall>w \<ge> length (rs_streams s). unborn w os) \<and> (\<forall>c \<in> set (pending s). fst c < length (rs_streams s))"

definition egress_count :: "router_obs list \<Rightarrow> router_sys \<Rightarrow> bool" where
  "egress_count os s \<longleftrightarrow> mc_delta (rs_droppedEgress s) = of_int (egress_reported os)"

definition router_inv :: "router_obs list \<Rightarrow> router_sys \<Rightarrow> bool" where
  "router_inv os s \<longleftrightarrow> ingress_inv os s \<and> egress_count os s \<and> subs_inv os s \<and> streams_inv os s"

lemma router_inv_published:
  assumes "ingress_inv os s"
  shows "length (published os) \<le> length (ingested os)" "length (v1_sent os) \<le> length (v1_ingested os)"
proof -
  from assms obtain r1 r2 where "subseq (taken os) (take r2 (ingested os))" "length (published os) \<le> length (taken os)"
    "subseq (v1_taken os) (take r1 (v1_ingested os))" "length (v1_sent os) \<le> length (v1_taken os)"
    by (auto simp: ingress_inv_def taken_from_def)
  then show "length (published os) \<le> length (ingested os)" "length (v1_sent os) \<le> length (v1_ingested os)"
    using list_emb_length by fastforce+
qed

lemma router_inv_start:
  assumes "0 < rc_IngressBufferSize c" and "rc_IngressBufferSize c < 2 ^ 63"
  shows "\<exists>s. Router_Start metricClient c = Inr s \<and> router_inv [] s \<and> rs_v1Router s = NewRouter \<and>
    rs_messageRouter s = MPoll \<and> rs_v1Streams s = [] \<and> ds_bufferSize (rs_v1Egress s) = rc_EgressBufferSize c"
proof -
  obtain s where s: "Router_Start metricClient c = Inr s" using assms by (auto simp: Router_Start_def make_len_def)
  let ?sz = "nat (rc_IngressBufferSize c)"
  have sz: "0 < ?sz" "?sz < 2 ^ 63" using assms by auto
  from s have f: "rs_ingress s = NewIngressServer (NewManyToOneEnvelope ?sz) (NewManyToOneEnvelopeV2 ?sz)
      (Client_NewCounter ''ingress'' [WithVersion 2 0] metricClient)"
    "rs_pubsub s = Node_New" "rs_repeater s = RPoll" "rs_streams s = []"
    "mc_delta (rs_ingressDropped s) = 0" "mc_delta (rs_droppedEgress s) = 0"
    and v1: "rs_v1Router s = NewRouter" "rs_messageRouter s = MPoll" "rs_v1Streams s = []"
      "ds_bufferSize (rs_v1Egress s) = rc_EgressBufferSize c"
    using assms by (auto simp: Router_Start_def make_len_def Client_NewCounter_def NewCounter_def NewDopplerServer_def Let_def)
  have "ingress_inv [] s"
    unfolding ingress_inv_def f obs_simps publishing_def sending_def v1
    by (rule conjI, rule exI [of _ 0], rule exI [of _ 0], rule exI [of _ 0])
      (use sz in \<open>auto simp: f(5) taken_from_def Client_NewCounter_def NewCounter_def intro!: ingress_new [unfolded NewCounter_def]\<close>)
  moreover have "subs_inv [] s"
    unfolding subs_inv_def f by (rule exI [of _ "{#}"]) (simp add: v2_run_start)
  moreover have "streams_inv [] s" "egress_count [] s"
    by (simp_all add: streams_inv_def egress_count_def f unborn_def obs_simps pending_def)
  ultimately show ?thesis using s v1 by (auto simp: router_inv_def)
qed

section \<open>Every step keeps the invariant\<close>

text \<open>Observations that do not concern the v2 streams.\<close>

definition silent :: "router_obs list \<Rightarrow> bool" where
  "silent os \<longleftrightarrow> (\<forall>x \<in> set os. case x of OPublished _ \<Rightarrow> False | OSubscribed _ _ \<Rightarrow> False | OUnsubscribed _ \<Rightarrow> False
     | OGot _ _ \<Rightarrow> False | OEgressDropped _ _ \<Rightarrow> False | _ \<Rightarrow> True)"

lemma silent_obs:
  assumes "silent os"
  shows "got w os = []" "egress_dropped w os = 0" "published os = []" "subscribed_count os = 0"
    "foldl (selectors_step w) ss os = ss" "wanted_from w ss os = []"
  using assms by (induction os arbitrary: ss) (auto simp: obs_simps silent_def split: router_obs.splits)

lemma silent_streams:
  assumes "silent os'" and "streams_inv os s" and "pending s' = pending s" and "rs_streams s' = rs_streams s"
  shows "streams_inv (os @ os') s'"
  using assms by (simp add: streams_inv_def stream_ok_def unborn_def obs_append wanted_append silent_obs)

lemma silent_subs:
  assumes "silent os'" and "subs_inv os s" and "rs_pubsub s' = rs_pubsub s" and "rs_streams s' = rs_streams s"
  shows "subs_inv (os @ os') s'"
  using assms by (simp add: subs_inv_def obs_append silent_obs)

lemma ingress_inv_frame:
  assumes "ingress_inv os s" and "ingested os' = []" and "taken os' = []" and "ingress_dropped os' = 0"
    and "v1_ingested os' = []" and "v1_taken os' = []" and "v1_ingress_dropped os' = 0"
    and "rs_ingress s' = rs_ingress s" and "rs_ingressDropped s' = rs_ingressDropped s"
    and "published os' @ publishing s' = publishing s" and "v1_sent os' @ sending s' = sending s"
  shows "ingress_inv (os @ os') s'"
  using assms(1) unfolding ingress_inv_def obs_append append_assoc assms(2-11) append_Nil2 add_0_right .

lemmas ingress_inv_same = ingress_inv_frame [where os' = "[]", simplified append_Nil2 append_Nil, OF _ obs_Nil(1,2,5,10,11,13)]

lemma egress_count_frame:
  "egress_count os s \<Longrightarrow> rs_droppedEgress s' = rs_droppedEgress s \<Longrightarrow> egress_reported os' = 0 \<Longrightarrow> egress_count (os @ os') s'"
  by (simp add: egress_count_def obs_append)

text \<open>Envelopes that arrive at both diodes.\<close>

lemma ingress_arrives:
  assumes inv: "router_inv os s"
    and i: "\<And>r1 r2 cnt. ingress_holds (map Some (v1_ingested os)) r1 (map Some (ingested os)) r2 cnt (rs_ingress s) \<Longrightarrow>
      \<exists>cnt'. ingress_holds (map Some (v1_ingested os @ vs)) r1 (map Some (ingested os @ es)) r2 cnt' i"
  shows "router_inv (os @ [OIngested es, V1Ingested vs]) (s\<lparr>rs_ingress := i\<rparr>)"
proof -
  let ?s = "s\<lparr>rs_ingress := i\<rparr>" and ?os = "[OIngested es, V1Ingested vs]"
  from inv obtain r1 r2 cnt where h: "ingress_holds (map Some (v1_ingested os)) r1 (map Some (ingested os)) r2 cnt (rs_ingress s)"
    and t: "taken_from (v1_ingested os) (v1_taken os) (v1_ingress_dropped os) r1"
      "taken_from (ingested os) (taken os) (ingress_dropped os) r2"
    by (auto simp: router_inv_def ingress_inv_def)
  have "r1 \<le> length (v1_ingested os)" "r2 \<le> length (ingested os)"
    using h mto.inv_bound by (fastforce simp: ingress_holds_def)+
  note t' = taken_from_more [OF t(1) this(1), of vs] taken_from_more [OF t(2) this(2), of es]
  have "ingress_inv (os @ ?os) ?s"
    using i [OF h] t' inv unfolding ingress_inv_def router_inv_def by (auto simp: obs_simps publishing_def sending_def)
  moreover have "subs_inv (os @ ?os) ?s" "streams_inv (os @ ?os) ?s" "egress_count (os @ ?os) ?s"
    using inv by (auto simp: router_inv_def silent_def pending_def obs_simps intro: silent_subs silent_streams egress_count_frame)
  ultimately show ?thesis by (simp add: router_inv_def)
qed

lemma v1_of_Some: "map Some (map the (concat (map (v1_of toV1 typed) es))) = concat (map (v1_of toV1 typed) es)"
  by (induction es) (auto simp: v1_of_def intro!: map_idI)

lemma router_ingest_ok:
  assumes inv: "router_inv os s" and n: "length (ingested os) + length es < 2 ^ 63"
    and v: "length (v1_ingested os) + length (concat (map (cd_toV1 cd) es)) < 2 ^ 63"
  shows "\<exists>s'. router_ingest cd es s =
      Some (Inr (s', [OIngested es, V1Ingested (map the (concat (map (v1_of (cd_toV1 cd) has_event_type) es)))])) \<and>
    router_inv (os @ [OIngested es, V1Ingested (map the (concat (map (v1_of (cd_toV1 cd) has_event_type) es)))]) s'"
proof -
  let ?vs = "map the (concat (map (v1_of (cd_toV1 cd) has_event_type) es))"
  have spec: "\<exists>i. ingress_batch (cd_toV1 cd) has_event_type es (rs_ingress s) = Some (Inr i) \<and>
      (\<exists>cnt'. ingress_holds (map Some (v1_ingested os @ ?vs)) r1 (map Some (ingested os @ es)) r2 cnt' i)"
    if "ingress_holds (map Some (v1_ingested os)) r1 (map Some (ingested os)) r2 cnt (rs_ingress s)" for r1 r2 cnt
    using ingress_batch_spec [OF that, of "cd_toV1 cd" es has_event_type] n v unfolding map_append v1_of_Some by auto
  from inv obtain i where i: "ingress_batch (cd_toV1 cd) has_event_type es (rs_ingress s) = Some (Inr i)"
    using spec unfolding router_inv_def ingress_inv_def by blast
  have "router_inv (os @ [OIngested es, V1Ingested ?vs]) (s\<lparr>rs_ingress := i\<rparr>)"
    by (rule ingress_arrives [OF inv]) (use spec i in fastforce)
  with i show ?thesis by (simp add: router_ingest_def)
qed

lemma router_push_ok:
  assumes inv: "router_inv os s" and n: "Suc (length (ingested os)) < 2 ^ 63" and v: "Suc (length (v1_ingested os)) < 2 ^ 63"
  shows "\<exists>s' os'. router_push cd payload s = Some (Inr (s', os')) \<and> router_inv (os @ os') s' \<and>
    os' = (case cd_unmarshal cd payload of None \<Rightarrow> [] | Some env \<Rightarrow> [OIngested [cd_toV2 cd env], V1Ingested [env]])"
proof (cases "cd_unmarshal cd payload")
  case None
  with inv show ?thesis by (simp add: router_push_def)
next
  case (Some env)
  have spec: "\<exists>i. IngestorServer_Pusher (cd_unmarshal cd) (cd_toV2 cd) [] [(False, RecvData payload)] (rs_ingress s) =
        Some (Inr (i, None)) \<and>
      (\<exists>cnt'. ingress_holds (map Some (v1_ingested os @ [env])) r1 (map Some (ingested os @ [cd_toV2 cd env])) r2 cnt' i)"
    if h: "ingress_holds (map Some (v1_ingested os)) r1 (map Some (ingested os)) r2 cnt (rs_ingress s)" for r1 r2 cnt
    using push_spec [OF h, of "cd_unmarshal cd" payload env "cd_toV2 cd" "[]"] Some n v by auto
  from inv obtain i where
    i: "IngestorServer_Pusher (cd_unmarshal cd) (cd_toV2 cd) [] [(False, RecvData payload)] (rs_ingress s) = Some (Inr (i, None))"
    using spec unfolding router_inv_def ingress_inv_def by blast
  have "router_inv (os @ [OIngested [cd_toV2 cd env], V1Ingested [env]]) (s\<lparr>rs_ingress := i\<rparr>)"
    by (rule ingress_arrives [OF inv]) (use spec i in fastforce)
  with i Some show ?thesis by (simp add: router_push_def del: IngestorServer_Pusher.simps)
qed

lemma alerted_delta: "mc_delta (alerted al c) = mc_delta c + of_int (sum_list al)"
  unfolding alerted_def by (induction al arbitrary: c) (simp_all add: Counter_Increment_def)

lemma repeater_poll_ok:
  assumes inv: "router_inv os s" and pc: "rs_repeater s = RPoll"
  shows "\<exists>s' os'. repeater_poll s = Inr (s', os') \<and> ingested os' = [] \<and> subscribed_count os' = 0 \<and>
    router_inv (os @ os') s'"
proof -
  from inv pc obtain r1 r2 cnt where
    h: "ingress_holds (map Some (v1_ingested os)) r1 (map Some (ingested os)) r2 cnt (rs_ingress s)"
    and t: "taken_from (v1_ingested os) (v1_taken os) (v1_ingress_dropped os) r1"
      "taken_from (ingested os) (taken os) (ingress_dropped os) r2"
    and m: "mc_delta (rs_ingressDropped s) = of_int (ingress_dropped os + v1_ingress_dropped os)"
      "taken os = published os" "v1_taken os = v1_sent os @ sending s"
    by (auto simp: router_inv_def ingress_inv_def publishing_def)
  from h have "mto_holds (map Some (ingested os)) r2 (is_v2Buf (rs_ingress s))" by (simp add: ingress_holds_def)
  from taken_from_next [OF this t(2)] obtain d es k r' where d: "ManyToOne_TryNext (is_v2Buf (rs_ingress s)) =
      Inr (d, case es of [] \<Rightarrow> None | e # _ \<Rightarrow> Some (Some e), if k = 0 then [] else [int k])"
    and es: "es = [] \<or> (\<exists>e. es = [e])" and d2: "mto_holds (map Some (ingested os)) r' d"
    and t': "taken_from (ingested os) (taken os @ es) (ingress_dropped os + int k) r'" by blast
  define al where "al = (if k = 0 then [] else [int k])"
  define os' where "os' = map OIngressDropped al @ map OTaken es"
  have o: "ingested os' = []" "taken os' = es" "published os' = []" "ingress_dropped os' = int k"
    "subscribed_count os' = 0" "v1_ingested os' = []" "v1_taken os' = []" "v1_sent os' = []" "v1_ingress_dropped os' = 0"
    "egress_reported os' = 0" and sil: "silent os'"
    using es by (auto simp: os'_def al_def obs_simps silent_def)
  define s' where "s' = s\<lparr>rs_ingress := (rs_ingress s)\<lparr>is_v2Buf := d\<rparr>, rs_ingressDropped := alerted al (rs_ingressDropped s),
      rs_repeater := (case es of [] \<Rightarrow> RPoll | e # _ \<Rightarrow> RPublish e)\<rparr>"
  have "ingress_holds (map Some (v1_ingested os)) r1 (map Some (ingested os)) r' cnt (rs_ingress s')"
    using h d2 by (simp add: ingress_holds_def s'_def)
  then have "ingress_inv (os @ os') s'"
    unfolding ingress_inv_def obs_append o append_Nil2
    by (intro conjI exI) (use t(1) t' m es in \<open>auto simp: s'_def al_def alerted_delta publishing_def sending_def\<close>)
  moreover have "subs_inv (os @ os') s'" "streams_inv (os @ os') s'" "egress_count (os @ os') s'"
    using inv pc sil es o by (auto simp: router_inv_def pending_def s'_def intro: silent_subs silent_streams egress_count_frame)
  moreover have "repeater_poll s = Inr (s', os')"
    using es pc by (auto simp: repeater_poll_def d Let_def os'_def s'_def al_def)
  ultimately show ?thesis using o by (auto simp: router_inv_def)
qed

text \<open>Publishing sets an envelope on a stream as often as its selectors ask for it, or less often in a shard.\<close>

lemma stream_ok_publish:
  assumes "stream_ok w os [] st" and "n \<le> asked (selectors_of w os) e"
    and "ebr_ShardId (sm_req st) = [] \<Longrightarrow> n = asked (selectors_of w os) e"
  shows "stream_ok w (os @ [OPublished e]) (replicate n e) st"
  using assms feeds_publish [OF _ assms(2,3)] by (auto simp: stream_ok_def obs_simps)

lemma live_unsharded:
  assumes L: "filter_mset (\<lambda>x. setter x = w) L = mset (map2 (live_of req w) ss hs)"
    and hs: "map fst hs = map (\<lambda>s. (selector_path s, ebr_ShardId req)) ss" and sh: "ebr_ShardId req = []"
  shows "\<forall>x \<in># L. setter x = w \<longrightarrow> snd (fst x) = []"
proof (intro ballI impI)
  fix x assume "x \<in># L" "setter x = w"
  then have "x \<in># filter_mset (\<lambda>x. setter x = w) L" by simp
  then have "fst x \<in> set (map fst hs)" unfolding L by (force simp: live_of_def dest!: set_zip_rightD)
  then show "snd (fst x) = []" unfolding hs using sh by auto
qed

lemma repeater_publish_ok:
  assumes inv: "router_inv os s" and pc: "rs_repeater s = RPublish e"
    and rand: "\<And>\<pi> sh l. 0 < l \<Longrightarrow> rand \<pi> sh l < l" and size: "subscribed_count os < 2 ^ 64"
  shows "\<exists>s'. router_repeat r rand s = Some (Inr (s', [OPublished e])) \<and> router_inv (os @ [OPublished e]) s'"
proof -
  let ?n = "length (rs_streams s)" and ?os = "[OPublished e]"
  from inv obtain L where run: "v2_run L (rs_pubsub s)" and L: "size L \<le> subscribed_count os"
    "\<forall>x \<in># L. setter x < ?n"
    "\<And>w. w < ?n \<Longrightarrow> filter_mset (\<lambda>x. setter x = w) L =
       mset (map2 (live_of (sm_req (rs_streams s ! w)) w) (selectors_of w os) (sm_handles (rs_streams s ! w)))"
    by (auto simp: router_inv_def subs_inv_def)
  from L(1) size have "size L < 2 ^ 64" by simp
  from publish_to [OF run _ this, of rand r e] rand obtain calls where
    calls: "v2_Publish r rand e (rs_pubsub s) = Some (Inr calls)" "\<forall>c \<in> set calls. snd c = e"
    and cnt: "\<And>w. length (filter (\<lambda>c. fst c = w) calls) \<le>
        size (filter_mset (\<lambda>x. setter x = w \<and> fst (fst x) \<in> set (envelope_paths e) \<and> guard e x) L)"
      "\<And>w. \<forall>x \<in># L. setter x = w \<longrightarrow> snd (fst x) = [] \<Longrightarrow> length (filter (\<lambda>c. fst c = w) calls) =
        size (filter_mset (\<lambda>x. setter x = w \<and> fst (fst x) \<in> set (envelope_paths e) \<and> guard e x) L)"
    by (auto simp: Let_def)
  let ?s = "s\<lparr>rs_repeater := RSet calls\<rparr>"
  have pend: "pending_for w calls = replicate (length (filter (\<lambda>c. fst c = w) calls)) e" for w
    using calls(2) unfolding pending_for_def by (induction calls) auto
  have ok: "stream_ok w (os @ ?os) (pending_for w calls) (rs_streams s ! w)" if w: "w < ?n" for w
  proof -
    from inv w pc have st: "stream_ok w os [] (rs_streams s ! w)"
      by (simp add: router_inv_def streams_inv_def pending_def pending_for_def)
    then have hs: "map fst (sm_handles (rs_streams s ! w)) =
        map (\<lambda>x. (selector_path x, ebr_ShardId (sm_req (rs_streams s ! w)))) (selectors_of w os)"
      "\<forall>x \<in> set (selectors_of w os). Selector_Message x \<noteq> None" by (simp_all add: stream_ok_def)
    note size = asked_size [OF L(3) [OF w] hs, of e]
    show ?thesis
      unfolding pend using cnt [of w] live_unsharded [OF L(3) [OF w] hs(1)] size by (intro stream_ok_publish [OF st]) auto
  qed
  have "fst c < ?n" if "c \<in> set calls" for c
  proof -
    have "0 < length (filter (\<lambda>c'. fst c' = fst c) calls)" using that by (auto simp: filter_empty_conv)
    with cnt(1) [of "fst c"] have
      "0 < size (filter_mset (\<lambda>x. setter x = fst c \<and> fst (fst x) \<in> set (envelope_paths e) \<and> guard e x) L)"
      by linarith
    then obtain x where "x \<in># filter_mset (\<lambda>x. setter x = fst c \<and> fst (fst x) \<in> set (envelope_paths e) \<and> guard e x) L"
      unfolding nonempty_has_size [symmetric] by (rule multiset_nonemptyE)
    then have "x \<in># L" "setter x = fst c" by simp_all
    with L(2) show ?thesis by auto
  qed
  with ok inv have "streams_inv (os @ ?os) ?s"
    by (auto simp: router_inv_def streams_inv_def pending_def unborn_def obs_simps asked_def)
  moreover have "subs_inv (os @ ?os) ?s" using inv by (simp add: router_inv_def subs_inv_def obs_simps)
  moreover have "ingress_inv (os @ ?os) ?s" "egress_count (os @ ?os) ?s"
    using inv pc by (auto simp: router_inv_def obs_simps publishing_def sending_def elim!: ingress_inv_frame egress_count_frame)
  ultimately show ?thesis using calls(1) pc by (simp add: router_repeat_def router_inv_def)
qed

lemma repeater_set_ok:
  assumes inv: "router_inv os s" and pc: "rs_repeater s = RSet ((w, e) # cs)"
    and n: "length (ingested os) * subscribed_count os < 2 ^ 63"
  shows "\<exists>s'. repeater_set w e cs s = Inr s' \<and> router_inv os s'"
proof -
  let ?st = "rs_streams s ! w"
  have pend: "pending s = (w, e) # cs" using pc by (simp add: pending_def)
  from inv pend have w: "w < length (rs_streams s)" by (simp add: router_inv_def streams_inv_def)
  with inv pend have "stream_ok w os (e # pending_for w cs) ?st"
    by (auto simp: router_inv_def streams_inv_def pending_for_def)
  then have st: "feeds Some (wanted w os) (ebr_ShardId (sm_req ?st) = []) (e # pending_for w cs) (got w os) (egress_dropped w os) (sm_diode ?st)"
    "\<And>d. feeds Some (wanted w os) (ebr_ShardId (sm_req ?st) = []) (pending_for w cs) (got w os) (egress_dropped w os) d \<Longrightarrow>
      stream_ok w os (pending_for w cs) (?st\<lparr>sm_diode := d\<rparr>)"
    by (simp_all add: stream_ok_def)
  have "length (wanted w os) \<le> length (ingested os) * subscribed_count os"
    using wanted_length [of w os] mult_le_mono1 [OF router_inv_published(1)] inv unfolding router_inv_def
    by (meson le_trans)
  with feeds_set [OF st(1)] n st(2) obtain d where d: "OneToOne_Set (Some e) (sm_diode ?st) = Inr d"
    "stream_ok w os (pending_for w cs) (?st\<lparr>sm_diode := d\<rparr>)" by fastforce
  let ?s = "s\<lparr>rs_repeater := RSet cs, rs_streams := (rs_streams s)[w := ?st\<lparr>sm_diode := d\<rparr>]\<rparr>"
  note d(2)
  moreover have "pending_for v ((w, e) # cs) = pending_for v cs" if "v \<noteq> w" for v
    using that by (simp add: pending_for_def)
  moreover have "pending ?s = cs" by (simp add: pending_def)
  ultimately have "streams_inv os ?s"
    using inv pend w by (auto simp: router_inv_def streams_inv_def nth_list_update)
  moreover have "subs_inv os ?s" using inv w by (auto simp: router_inv_def subs_inv_def nth_list_update cong: if_cong)
  moreover have "ingress_inv os ?s" "egress_count os ?s"
    using inv pc by (auto simp: router_inv_def obs_Nil publishing_def sending_def egress_count_def elim!: ingress_inv_same)
  ultimately show ?thesis using d(1) w by (simp add: repeater_set_def router_inv_def)
qed

lemma router_repeat_ok:
  assumes inv: "router_inv os s" and rand: "\<And>\<pi> sh l. 0 < l \<Longrightarrow> rand \<pi> sh l < l"
    and n: "length (ingested os) * subscribed_count os < 2 ^ 63" and size: "subscribed_count os < 2 ^ 64"
  shows "\<exists>s' os'. router_repeat r rand s = Some (Inr (s', os')) \<and> ingested os' = [] \<and> subscribed_count os' = 0 \<and>
    router_inv (os @ os') s'"
proof (cases "rs_repeater s")
  case RPoll
  with repeater_poll_ok [OF inv] show ?thesis by (auto simp: router_repeat_def)
next
  case (RPublish e)
  from repeater_publish_ok [OF inv RPublish, of rand r] rand size show ?thesis by (auto simp: obs_simps)
next
  case (RSet cs)
  show ?thesis
  proof (cases cs)
    case Nil
    let ?s = "s\<lparr>rs_repeater := RPoll\<rparr>"
    have "ingress_inv os ?s" "egress_count os ?s"
      using inv RSet by (auto simp: router_inv_def obs_Nil publishing_def sending_def egress_count_def elim!: ingress_inv_same)
    moreover have "subs_inv os ?s" using inv by (simp add: router_inv_def subs_inv_def)
    moreover have "streams_inv os ?s" using inv RSet Nil by (simp add: router_inv_def streams_inv_def pending_def)
    ultimately show ?thesis using RSet Nil by (auto simp: router_repeat_def router_inv_def obs_simps intro!: exI [of _ "[]"])
  next
    case (Cons c cs')
    obtain w e where "c = (w, e)" by fastforce
    with RSet Cons repeater_set_ok [OF inv, of w e cs'] n show ?thesis
      by (auto simp: router_repeat_def obs_simps intro!: exI [of _ "[]"])
  qed
qed

lemma router_open_ok:
  assumes inv: "router_inv os s"
  shows "router_inv os (router_open req s)"
proof -
  let ?n = "length (rs_streams s)" and ?s = "router_open req s"
  let ?st = "\<lparr>sm_req = req, sm_todo = ebr_Selectors req, sm_handles = [], sm_diode = NewOneToOne 1000\<rparr>"
  have s: "rs_streams ?s = rs_streams s @ [?st]" "rs_pubsub ?s = rs_pubsub s" "pending ?s = pending s"
    by (simp_all add: router_open_def pending_def NewOneToOneWaiterEnvelopeV2_def NewWaiter_def)
  from inv have un: "unborn ?n os" and lt: "\<forall>c \<in> set (pending s). fst c < ?n" by (auto simp: router_inv_def streams_inv_def)
  have "pending_for ?n (pending s) = []" using lt by (auto simp: pending_for_def filter_empty_conv)
  then have "stream_ok ?n os (pending_for ?n (pending s)) ?st"
    using un unfolding stream_ok_def by (auto simp: unborn_def intro!: feeds_new)
  with inv un have "streams_inv os ?s"
    unfolding router_inv_def streams_inv_def s
    by (auto simp: nth_append less_Suc_eq router_open_def unborn_def dest: Suc_leD)
  moreover have "subs_inv os ?s"
  proof -
    from inv obtain L where L: "v2_run L (rs_pubsub s)" "size L \<le> subscribed_count os" "\<forall>x \<in># L. setter x < ?n"
      "\<forall>w < ?n. filter_mset (\<lambda>x. setter x = w) L =
         mset (map2 (live_of (sm_req (rs_streams s ! w)) w) (selectors_of w os) (sm_handles (rs_streams s ! w)))"
      by (auto simp: router_inv_def subs_inv_def)
    moreover have "filter_mset (\<lambda>x. setter x = ?n) L = {#}" using filter_mset_cong [of L L "\<lambda>x. setter x = ?n" "\<lambda>_. False"] L(3) by auto
    ultimately show ?thesis
      unfolding subs_inv_def s using un by (intro exI [of _ L]) (auto simp: nth_append less_Suc_eq unborn_def)
  qed
  moreover have "ingress_inv os ?s" "egress_count os ?s"
    using inv by (auto simp: router_inv_def router_open_def obs_Nil publishing_def sending_def egress_count_def elim!: ingress_inv_same)
  ultimately show ?thesis by (simp add: router_inv_def)
qed

lemma router_read_ok:
  assumes inv: "router_inv os s"
  shows "\<exists>s' os'. router_read w s = Inr (s', os') \<and> ingested os' = [] \<and> subscribed_count os' = 0 \<and>
    router_inv (os @ os') s'"
proof (cases "w < length (rs_streams s)")
  case w: True
  let ?st = "rs_streams s ! w" and ?p = "pending_for w (pending s)"
  from inv w have st: "feeds Some (wanted w os) (ebr_ShardId (sm_req ?st) = []) ?p (got w os) (egress_dropped w os) (sm_diode ?st)"
    "stream_ok w os ?p ?st" by (auto simp: router_inv_def streams_inv_def stream_ok_def)
  from feeds_next [OF st(1)] obtain d es k where d: "OneToOne_TryNext (sm_diode ?st) =
      Inr (d, case es of [] \<Rightarrow> None | e # _ \<Rightarrow> Some (Some e), if k = 0 then [] else [int k])"
    and es: "es = [] \<or> (\<exists>e. es = [e])"
    and d2: "feeds Some (wanted w os) (ebr_ShardId (sm_req ?st) = []) ?p (got w os @ es) (egress_dropped w os + int k) d"
    by blast
  define os' where "os' = map (OEgressDropped w) (if k = 0 then [] else [int k]) @ map (OGot w) es"
  let ?s = "s\<lparr>rs_streams := (rs_streams s)[w := ?st\<lparr>sm_diode := d\<rparr>],
    rs_droppedEgress := alerted (if k = 0 then [] else [int k]) (rs_droppedEgress s)\<rparr>"
  have o: "got v os' = (if v = w then es else [])" "egress_dropped v os' = (if v = w then int k else 0)"
    "foldl (selectors_step v) ss os' = ss" "wanted_from v ss os' = []" "ingested os' = []" "subscribed_count os' = 0"
    "taken os' = []" "published os' = []" "ingress_dropped os' = 0" "egress_reported os' = int k"
    "v1_ingested os' = []" "v1_taken os' = []" "v1_sent os' = []" "v1_ingress_dropped os' = 0" for v ss
    using es by (auto simp: os'_def obs_simps)
  have "router_read w s = Inr (?s, os')" using w d es by (auto simp: router_read_def os'_def)
  moreover have "stream_ok w (os @ os') ?p (?st\<lparr>sm_diode := d\<rparr>)"
    using d2 st(2) by (simp add: stream_ok_def obs_append wanted_append o)
  moreover have "streams_inv (os @ os') ?s" if "stream_ok w (os @ os') ?p (?st\<lparr>sm_diode := d\<rparr>)"
  proof -
    have "pending ?s = pending s" by (simp add: pending_def)
    moreover have "stream_ok v (os @ os') p st = stream_ok v os p st" "unborn v (os @ os') = unborn v os" if "v \<noteq> w" for v p st
      using that by (simp_all add: stream_ok_def unborn_def obs_append wanted_append o)
    ultimately show ?thesis
      using inv that w by (auto simp: router_inv_def streams_inv_def nth_list_update)
  qed
  moreover have "subs_inv (os @ os') ?s"
    using inv w by (auto simp: router_inv_def subs_inv_def obs_append o nth_list_update cong: if_cong)
  moreover have "ingress_inv (os @ os') ?s"
    using inv o by (auto simp: router_inv_def publishing_def sending_def elim!: ingress_inv_frame)
  moreover have "egress_count (os @ os') ?s"
    using inv by (auto simp: router_inv_def egress_count_def obs_append o alerted_delta)
  ultimately show ?thesis using o(5,6) by (auto simp: router_inv_def)
qed (use inv in \<open>auto simp: router_read_def obs_simps\<close>)

lemma unlocked_pending: "\<not> locked s \<Longrightarrow> pending s = []"
  by (cases "rs_repeater s") (simp_all add: locked_def pending_def)

lemma live_setter: "filter_mset (\<lambda>x. setter x = v) (mset (map2 (live_of req w) ss hs)) =
    (if v = w then mset (map2 (live_of req w) ss hs) else {#})"
proof -
  have "\<forall>x \<in> set (map2 (live_of req w) ss hs). setter x = w" by (auto simp: live_of_def)
  then have "filter (\<lambda>x. setter x = v) (map2 (live_of req w) ss hs) = (if v = w then map2 (live_of req w) ss hs else [])"
    by (auto simp: filter_id_conv filter_empty_conv)
  then show ?thesis unfolding mset_filter [symmetric] by (simp del: mset_map)
qed

text \<open>A step that changes the subscriptions of one stream, while no envelope is being set.\<close>

lemma resubscribe_ok:
  assumes inv: "router_inv os s" and w: "w < length (rs_streams s)" and lock: "\<not> locked s"
    and os': "ingested os' = []" "taken os' = []" "published os' = []" "ingress_dropped os' = 0"
      "v1_ingested os' = []" "v1_taken os' = []" "v1_sent os' = []" "v1_ingress_dropped os' = 0" "egress_reported os' = 0"
      "\<And>v ss. wanted_from v ss os' = []" "\<And>v. got v os' = []" "\<And>v. egress_dropped v os' = 0"
      "\<And>v ss. v \<noteq> w \<Longrightarrow> foldl (selectors_step v) ss os' = ss"
    and sel: "selectors_of w (os @ os') = ss" "\<forall>x \<in> set ss. Selector_Message x \<noteq> None"
      "map fst hs = map (\<lambda>x. (selector_path x, ebr_ShardId (sm_req (rs_streams s ! w)))) ss"
    and L: "v2_run L n" "size L \<le> subscribed_count (os @ os')" "\<forall>x \<in># L. setter x < length (rs_streams s)"
      "\<And>v. v < length (rs_streams s) \<Longrightarrow> v \<noteq> w \<Longrightarrow> filter_mset (\<lambda>x. setter x = v) L =
         mset (map2 (live_of (sm_req (rs_streams s ! v)) v) (selectors_of v os) (sm_handles (rs_streams s ! v)))"
      "filter_mset (\<lambda>x. setter x = w) L = mset (map2 (live_of (sm_req (rs_streams s ! w)) w) ss hs)"
  shows "router_inv (os @ os') (s\<lparr>rs_pubsub := n,
    rs_streams := (rs_streams s)[w := (rs_streams s ! w)\<lparr>sm_todo := todo, sm_handles := hs\<rparr>]\<rparr>)" (is "router_inv _ ?s")
proof -
  have other: "selectors_of v (os @ os') = selectors_of v os" if "v \<noteq> w" for v using that by (simp add: obs_append os')
  have "subs_inv (os @ os') ?s"
    unfolding subs_inv_def
    by (rule exI [of _ L]) (use L sel(1) w in \<open>auto simp: nth_list_update other\<close>)
  moreover have "streams_inv (os @ os') ?s"
  proof -
    have "pending ?s = []" "pending s = []" using unlocked_pending [OF lock] by (simp_all add: pending_def)
    moreover have "stream_ok v (os @ os') p (rs_streams s ! v) = stream_ok v os p (rs_streams s ! v)"
      "unborn v (os @ os') = unborn v os" if "v \<noteq> w" for v p
      using that unfolding stream_ok_def unborn_def other [OF that] by (simp_all add: obs_append wanted_append os')
    moreover have "stream_ok w (os @ os') p ((rs_streams s ! w)\<lparr>sm_todo := todo, sm_handles := hs\<rparr>)"
      if "stream_ok w os p (rs_streams s ! w)" for p
      using that sel unfolding stream_ok_def sel(1) by (simp add: obs_append wanted_append os')
    ultimately show ?thesis
      using inv w by (auto simp: router_inv_def streams_inv_def nth_list_update obs_append os')
  qed
  moreover have "ingress_inv (os @ os') ?s" "egress_count (os @ os') ?s"
    using inv os' by (auto simp: router_inv_def publishing_def sending_def elim!: ingress_inv_frame egress_count_frame)
  ultimately show ?thesis by (simp add: router_inv_def)
qed

lemma router_subscribe_ok:
  assumes inv: "router_inv os s" and size: "subscribed_count os + 1 < 2 ^ 64"
  shows "\<exists>s' os'. router_subscribe w r s = Some (Inr (s', os')) \<and> ingested os' = [] \<and> subscribed_count os' \<le> 1 \<and>
    router_inv (os @ os') s'"
proof (cases "w < length (rs_streams s) \<and> \<not> locked s \<and> sm_todo (rs_streams s ! w) \<noteq> []")
  case True
  let ?st = "rs_streams s ! w"
  from True obtain sel todo where todo: "sm_todo ?st = sel # todo" by (cases "sm_todo ?st") auto
  from inv obtain L where L: "v2_run L (rs_pubsub s)" "size L \<le> subscribed_count os"
    "\<forall>x \<in># L. setter x < length (rs_streams s)"
    "\<And>v. v < length (rs_streams s) \<Longrightarrow> filter_mset (\<lambda>x. setter x = v) L =
       mset (map2 (live_of (sm_req (rs_streams s ! v)) v) (selectors_of v os) (sm_handles (rs_streams s ! v)))"
    by (auto simp: router_inv_def subs_inv_def)
  define ss where "ss = with_message [sel]"
  from v2_Subscribe_loop_spec [OF L(1), of "[sel]" "\<lambda>_. r" 0 "sm_req ?st" w] L(2) size obtain hs n where
    sub: "v2_Subscribe_loop (\<lambda>_. r) 0 (sm_req ?st) w [sel] (rs_pubsub s) = Some (Inr (hs, n))"
    and hs: "map fst hs = map (\<lambda>s. (selector_path s, ebr_ShardId (sm_req ?st))) ss"
    and run: "v2_run (mset (map2 (live_of (sm_req ?st) w) ss hs) + L) n"
    unfolding ss_def by auto
  define os' where "os' = (if Selector_Message sel = None then [] else [OSubscribed w sel])"
  have o: "ingested os' = []" "taken os' = []" "published os' = []" "ingress_dropped os' = 0"
    "v1_ingested os' = []" "v1_taken os' = []" "v1_sent os' = []" "v1_ingress_dropped os' = 0" "egress_reported os' = 0"
    "wanted_from v cs os' = []" "got v os' = []" "egress_dropped v os' = 0"
    "foldl (selectors_step v) cs os' = (if v = w then cs @ ss else cs)" "subscribed_count os' = length ss" for v cs
    by (simp_all add: os'_def ss_def obs_simps)
  from inv True have st: "map fst (sm_handles ?st) = map (\<lambda>s. (selector_path s, ebr_ShardId (sm_req ?st))) (selectors_of w os)"
    "\<forall>s \<in> set (selectors_of w os). Selector_Message s \<noteq> None"
    by (auto simp: router_inv_def streams_inv_def stream_ok_def)
  have len: "length (selectors_of w os) = length (sm_handles ?st)" "length hs = length ss"
    using arg_cong [OF st(1), of length] arg_cong [OF hs, of length] by simp_all
  have "router_inv (os @ os') (s\<lparr>rs_pubsub := n, rs_streams := (rs_streams s)[w :=
      ?st\<lparr>sm_todo := todo, sm_handles := sm_handles ?st @ hs\<rparr>]\<rparr>)"
  proof (rule resubscribe_ok [OF inv _ _ o(1-12) _ _ _ _ run])
    show "selectors_of w (os @ os') = selectors_of w os @ ss" by (simp add: obs_append o)
    show "\<forall>x \<in> set (selectors_of w os @ ss). Selector_Message x \<noteq> None" using st(2) by (auto simp: ss_def)
    show "size (mset (map2 (live_of (sm_req ?st) w) ss hs) + L) \<le> subscribed_count (os @ os')"
      using L(2) len(2) by (simp add: obs_append o)
    show "\<forall>x \<in># mset (map2 (live_of (sm_req ?st) w) ss hs) + L. setter x < length (rs_streams s)"
      using L(3) True by (auto simp: live_of_def)
    show "filter_mset (\<lambda>x. setter x = w) (mset (map2 (live_of (sm_req ?st) w) ss hs) + L) =
        mset (map2 (live_of (sm_req ?st) w) (selectors_of w os @ ss) (sm_handles ?st @ hs))"
      using L(4) [of w] True len by (simp add: live_setter del: mset_map)
  qed (use True L(4) st(1) hs in \<open>simp_all add: o live_setter del: mset_map\<close>)
  with True todo sub o(1,14) show ?thesis by (auto simp: router_subscribe_def os'_def ss_def Let_def)
next
  case False
  then have "router_subscribe w r s = Some (Inr (s, []))" by (auto simp: router_subscribe_def Let_def)
  with inv show ?thesis by (auto simp: obs_simps)
qed

lemma router_unsubscribe_ok:
  assumes inv: "router_inv os s"
  shows "\<exists>s' os'. router_unsubscribe w s = Inr (s', os') \<and> ingested os' = [] \<and> subscribed_count os' = 0 \<and>
    router_inv (os @ os') s'"
proof (cases "w < length (rs_streams s) \<and> \<not> locked s \<and> sm_todo (rs_streams s ! w) = [] \<and> sm_handles (rs_streams s ! w) \<noteq> []")
  case True
  let ?st = "rs_streams s ! w" and ?os = "[OUnsubscribed w]"
  from True obtain h hs where hs: "sm_handles ?st = h # hs" by (cases "sm_handles ?st") auto
  from inv True have st: "map fst (sm_handles ?st) = map (\<lambda>s. (selector_path s, ebr_ShardId (sm_req ?st))) (selectors_of w os)"
    "\<forall>s \<in> set (selectors_of w os). Selector_Message s \<noteq> None"
    by (auto simp: router_inv_def streams_inv_def stream_ok_def)
  with hs obtain sel ss where ss: "selectors_of w os = sel # ss" by (cases "selectors_of w os") auto
  from inv obtain L where L: "v2_run L (rs_pubsub s)" "size L \<le> subscribed_count os"
    "\<forall>x \<in># L. setter x < length (rs_streams s)"
    "\<And>v. v < length (rs_streams s) \<Longrightarrow> filter_mset (\<lambda>x. setter x = v) L =
       mset (map2 (live_of (sm_req (rs_streams s ! v)) v) (selectors_of v os) (sm_handles (rs_streams s ! v)))"
    by (auto simp: router_inv_def subs_inv_def)
  define L' where "L' = mset (map2 (live_of (sm_req ?st) w) ss hs) + filter_mset (\<lambda>x. setter x \<noteq> w) L"
  have "L = filter_mset (\<lambda>x. setter x = w) L + filter_mset (\<lambda>x. setter x \<noteq> w) L" by (rule multiset_partition)
  also have "filter_mset (\<lambda>x. setter x = w) L = mset (map2 (live_of (sm_req ?st) w) [sel] [h]) + mset (map2 (live_of (sm_req ?st) w) ss hs)"
    using L(4) [of w] True ss hs by simp
  finally have eq: "L = mset (map2 (live_of (sm_req ?st) w) [sel] [h]) + L'" by (simp add: L'_def)
  from v2_unsubscribe_spec [OF L(1) [unfolded eq]] obtain n where n: "v2_unsubscribe [h] (rs_pubsub s) = Inr n" "v2_run L' n"
    by auto
  have "router_inv (os @ ?os) (s\<lparr>rs_pubsub := n, rs_streams := (rs_streams s)[w := ?st\<lparr>sm_todo := [], sm_handles := hs\<rparr>]\<rparr>)"
  proof (rule resubscribe_ok [OF inv _ _ _ _ _ _ _ _ _ _ _ _ _ _ _ _ _ _ n(2)])
    show "selectors_of w (os @ ?os) = ss" by (simp add: obs_simps ss)
    show "size L' \<le> subscribed_count (os @ ?os)" using L(2) arg_cong [OF eq, of size] by (simp add: obs_simps)
    show "\<forall>x \<in># L'. setter x < length (rs_streams s)" using L(3) True by (auto simp: L'_def live_of_def)
    show "filter_mset (\<lambda>x. setter x = w) L' = mset (map2 (live_of (sm_req ?st) w) ss hs)"
      by (simp add: L'_def live_setter filter_filter_mset del: mset_map)
    show "filter_mset (\<lambda>x. setter x = v) L' =
        mset (map2 (live_of (sm_req (rs_streams s ! v)) v) (selectors_of v os) (sm_handles (rs_streams s ! v)))"
      if "v < length (rs_streams s)" "v \<noteq> w" for v
    proof -
      have "(\<lambda>x :: nat live. setter x \<noteq> w \<and> setter x = v) = (\<lambda>x. setter x = v)" using that(2) by auto
      then show ?thesis using that L(4) [OF that(1)] by (simp add: L'_def live_setter filter_filter_mset del: mset_map)
    qed
  qed (use True st hs ss in \<open>auto simp: obs_simps\<close>)
  moreover have "?st\<lparr>sm_todo := [], sm_handles := hs\<rparr> = ?st\<lparr>sm_handles := hs\<rparr>" using True by simp
  ultimately show ?thesis using True hs n(1) by (auto simp: router_unsubscribe_def Let_def obs_simps)
next
  case False
  then have "router_unsubscribe w s = Inr (s, [])" by (auto simp: router_unsubscribe_def Let_def split: list.split)
  with inv show ?thesis by (auto simp: obs_simps)
qed

lemma stream_ok_read:
  assumes "stream_ok w os pend st"
  shows "subseq (got w os) (wanted w os)" "int (length (got w os)) + egress_dropped w os \<le> int (length (wanted w os))"
    "ebr_ShardId (sm_req st) = [] \<Longrightarrow> egress_dropped w os = 0 \<Longrightarrow> prefix (got w os) (wanted w os)"
  using assms feeds_result(1,2) feeds_result(3) [of Some "wanted w os" True] unfolding stream_ok_def by auto

end
