(* ===== verification/RouterRunV1.thy ===== *)
theory RouterRunV1
  imports RouterRun
begin

text \<open>
  The runs of the router, the v1 path: what a v1 stream is meant to get, the invariant of the v1 router and
  its streams, and that every step of the router keeps both invariants.
\<close>

section \<open>What is observed\<close>

definition v1_got :: "nat \<Rightarrow> router_obs list \<Rightarrow> bytes list" where
  "v1_got w os = concat (map (\<lambda>x. case x of V1Got w' d \<Rightarrow> if w' = w then [d] else [] | _ \<Rightarrow> []) os)"

definition v1_egress_dropped :: "nat \<Rightarrow> router_obs list \<Rightarrow> int" where
  "v1_egress_dropped w os = sum_list (map (\<lambda>x. case x of V1EgressDropped w' k \<Rightarrow> if w' = w then k else 0 | _ \<Rightarrow> 0) os)"

definition registered_step :: "nat \<Rightarrow> SubscriptionRequest option \<Rightarrow> router_obs \<Rightarrow> SubscriptionRequest option" where
  "registered_step w st x =
     (case x of
        V1Registered w' req \<Rightarrow> if w' = w then Some req else st
      | V1Cleaned w' \<Rightarrow> if w' = w then None else st
      | _ \<Rightarrow> st)"

definition registered :: "nat \<Rightarrow> router_obs list \<Rightarrow> SubscriptionRequest option" where
  "registered w os = foldl (registered_step w) None os"

text \<open>
  The data that a stream asks for: each envelope that is sent while it is registered and that its filter
  matches, in its marshalled form.
\<close>

definition v1_asked :: "codec \<Rightarrow> SubscriptionRequest option \<Rightarrow> v1_Envelope \<Rightarrow> bytes list" where
  "v1_asked cd st e =
     (case st of
        None \<Rightarrow> []
      | Some req \<Rightarrow>
          if filter_matches (getAppId e) e (convertFilter req)
          then (case cd_marshal cd e of None \<Rightarrow> [] | Some data \<Rightarrow> [data]) else [])"

fun v1_wanted_from :: "codec \<Rightarrow> nat \<Rightarrow> SubscriptionRequest option \<Rightarrow> router_obs list \<Rightarrow> bytes list" where
  "v1_wanted_from cd w st [] = []"
| "v1_wanted_from cd w st (x # os) =
     (case x of V1Sent e \<Rightarrow> v1_asked cd st e | _ \<Rightarrow> []) @ v1_wanted_from cd w (registered_step w st x) os"

definition v1_wanted :: "codec \<Rightarrow> nat \<Rightarrow> router_obs list \<Rightarrow> bytes list" where
  "v1_wanted cd w os = v1_wanted_from cd w None os"

lemma v1_wanted_from_append:
  "v1_wanted_from cd w st (xs @ ys) = v1_wanted_from cd w st xs @ v1_wanted_from cd w (foldl (registered_step w) st xs) ys"
  by (induction xs arbitrary: st) simp_all

lemma v1_obs_append:
  "v1_got w (xs @ ys) = v1_got w xs @ v1_got w ys"
  "v1_egress_dropped w (xs @ ys) = v1_egress_dropped w xs + v1_egress_dropped w ys"
  "registered w (xs @ ys) = foldl (registered_step w) (registered w xs) ys"
  "v1_wanted cd w (xs @ ys) = v1_wanted cd w xs @ v1_wanted_from cd w (registered w xs) ys"
  by (simp_all add: v1_got_def v1_egress_dropped_def registered_def v1_wanted_def v1_wanted_from_append)

lemma v1_obs_Nil: "v1_got w [] = []" "v1_egress_dropped w [] = 0" "registered w [] = None" "v1_wanted cd w [] = []"
  by (simp_all add: v1_got_def v1_egress_dropped_def registered_def v1_wanted_def)

lemma v1_obs_Cons:
  "v1_got w (x # os) = (case x of V1Got w' d \<Rightarrow> if w' = w then [d] else [] | _ \<Rightarrow> []) @ v1_got w os"
  "v1_egress_dropped w (x # os) = (case x of V1EgressDropped w' k \<Rightarrow> if w' = w then k else 0 | _ \<Rightarrow> 0) + v1_egress_dropped w os"
  by (simp_all add: v1_got_def v1_egress_dropped_def)

lemmas v1_obs_simps = obs_simps v1_obs_append v1_obs_Nil v1_obs_Cons registered_step_def

lemma v1_wanted_length: "length (v1_wanted cd w os) \<le> length (v1_sent os)"
proof -
  have "length (v1_wanted_from cd w st os) \<le> length (v1_sent os)" for st
    by (induction os arbitrary: st)
      (auto simp: obs_simps v1_asked_def split: router_obs.split option.split intro: le_SucI order_trans)
  then show ?thesis by (simp add: v1_wanted_def)
qed

section \<open>Sending to one stream\<close>

lemma size_filter_snd: "size (filter_mset (\<lambda>x. snd x = w) M) = count (image_mset snd M) w"
  by (induction M) auto

definition stream_key :: "v1_stream \<Rightarrow> v1_filter \<times> string" where
  "stream_key st = (convertFilter (vt_req st), sr_ShardID (vt_req st))"

text \<open>Under each key the v1 router has the streams that are registered with it, each once.\<close>

definition v1_subs_inv :: "nat v1_router \<Rightarrow> v1_stream list \<Rightarrow> bool" where
  "v1_subs_inv r sts \<longleftrightarrow> router_ok r \<and> (\<forall>k. distinct (setters_at k r) \<and>
     set (setters_at k r) = {w. w < length sts \<and> vt_phase (sts ! w) = Registered \<and> stream_key (sts ! w) = k})"

lemma v1_subsD:
  assumes "v1_subs_inv r sts"
  shows "router_ok r" and "distinct (setters_at k r)"
    and "set (setters_at k r) = {w. w < length sts \<and> vt_phase (sts ! w) = Registered \<and> stream_key (sts ! w) = k}"
  using assms unfolding v1_subs_inv_def by blast+

lemma v1_key_deliversD:
  assumes "v1_key_delivers appID e k L D"
  shows "D \<subseteq># L" and "\<not> filter_matches appID e (fst k) \<Longrightarrow> D = {#}"
    and "filter_matches appID e (fst k) \<Longrightarrow> snd k = [] \<Longrightarrow> D = L"
  using assms by (simp_all add: v1_key_delivers_def split: if_splits)

lemma send_to_stream:
  fixes sts :: "v1_stream list"
  assumes inv: "v1_subs_inv r sts" and rand: "\<And>f sh l. 0 < l \<Longrightarrow> rand f sh l < l" and data: "marshal e = Some data"
  shows "\<exists>calls. SendTo marshal rand (getAppId e) e r = Inr calls \<and>
    (\<forall>c \<in> set calls. snd c = data \<and> fst c < length sts) \<and>
    (\<forall>w < length sts. let m = (if vt_phase (sts ! w) = Registered \<and> filter_matches (getAppId e) e (convertFilter (vt_req (sts ! w))) then 1 else 0);
          k = length (filter (\<lambda>c. fst c = w) calls)
       in k \<le> m \<and> (sr_ShardID (vt_req (sts ! w)) = [] \<longrightarrow> k = m))"
proof -
  note ok = v1_subsD(1) [OF inv] and dist = v1_subsD(2) [OF inv] and set = v1_subsD(3) [OF inv]
  from SendTo_spec [where rand = rand and marshal = marshal and appID = "getAppId e", OF ok _ data] rand
  obtain calls D where calls: "SendTo marshal rand (getAppId e) e r = Inr calls" "mset calls = image_mset (\<lambda>x. (snd x, data)) D"
    and key: "\<And>k. v1_key_delivers (getAppId e) e k (mset (setters_at k r)) (image_mset snd (filter_mset (\<lambda>x. fst x = k) D))"
    by blast
  note keyD = v1_key_deliversD [OF key]
  have reg: "w \<in> set (setters_at k r)" if "(k, w) \<in># D" for k w
  proof -
    have "w \<in># image_mset snd (filter_mset (\<lambda>x. fst x = k) D)" using that by force
    with keyD(1) [of k] show ?thesis by (metis mset_subset_eqD set_mset_mset)
  qed
  have "snd c = data \<and> fst c < length sts" if "c \<in> set calls" for c
  proof -
    have "c \<in># image_mset (\<lambda>x. (snd x, data)) D" using that calls(2) by (metis set_mset_mset)
    then obtain k w where "(k, w) \<in># D" "c = (w, data)" by auto
    with reg [of k w] set [of k] show ?thesis by simp
  qed
  moreover have "let m = (if vt_phase (sts ! w) = Registered \<and> filter_matches (getAppId e) e (convertFilter (vt_req (sts ! w))) then 1 else 0);
        k = length (filter (\<lambda>c. fst c = w) calls)
      in k \<le> m \<and> (sr_ShardID (vt_req (sts ! w)) = [] \<longrightarrow> k = m)" if w: "w < length sts" for w
  proof -
    define k where "k = stream_key (sts ! w)"
    define Dk where "Dk = image_mset snd (filter_mset (\<lambda>x. fst x = k) D)"
    have "length (filter (\<lambda>c. fst c = w) calls) = size (filter_mset (\<lambda>c. fst c = w) (mset calls))" by (simp flip: size_mset)
    also have "\<dots> = size (filter_mset (\<lambda>x. snd x = w) D)" unfolding calls(2) by (simp add: filter_mset_image_mset)
    also have "filter_mset (\<lambda>x. snd x = w) D = filter_mset (\<lambda>x. snd x = w) (filter_mset (\<lambda>x. fst x = k) D)"
      unfolding filter_filter_mset k_def by (rule filter_mset_cong0) (use reg set in auto)
    finally have n: "length (filter (\<lambda>c. fst c = w) calls) = count Dk w" by (simp only: size_filter_snd Dk_def)
    have L: "count (mset (setters_at k r)) w = (if vt_phase (sts ! w) = Registered then 1 else 0)"
      using w set [of k] dist [of k] by (auto simp: distinct_count_atmost_1 k_def)
    have k: "fst k = convertFilter (vt_req (sts ! w))" "snd k = sr_ShardID (vt_req (sts ! w))" by (simp_all add: k_def stream_key_def)
    show ?thesis
    proof (cases "filter_matches (getAppId e) e (fst k)")
      case True
      then show ?thesis
        using n L mset_subset_eq_count [OF keyD(1) [of k, folded Dk_def], of w] keyD(3) [of k, folded Dk_def] k by (auto simp: Let_def)
    qed (use n keyD(2) [of k, folded Dk_def] k in \<open>simp add: Let_def\<close>)
  qed
  ultimately show ?thesis using calls(1) by blast
qed

section \<open>The invariant\<close>

definition v1_pending :: "router_sys \<Rightarrow> (nat \<times> bytes) list" where
  "v1_pending s = (case rs_messageRouter s of MSet cs \<Rightarrow> cs | _ \<Rightarrow> [])"

definition v1_stream_ok :: "codec \<Rightarrow> nat \<Rightarrow> router_obs list \<Rightarrow> bytes list \<Rightarrow> v1_stream \<Rightarrow> bool" where
  "v1_stream_ok cd w os p st \<longleftrightarrow>
     feeds id (v1_wanted cd w os) (sr_ShardID (vt_req st) = []) p (v1_got w os) (v1_egress_dropped w os) (vt_diode st) \<and>
     registered w os = (if vt_phase st = Registered then Some (vt_req st) else None)"

definition v1_unborn :: "codec \<Rightarrow> nat \<Rightarrow> router_obs list \<Rightarrow> bool" where
  "v1_unborn cd w os \<longleftrightarrow> registered w os = None \<and> v1_wanted cd w os = [] \<and> v1_got w os = [] \<and> v1_egress_dropped w os = 0"

definition v1_streams_inv :: "codec \<Rightarrow> router_obs list \<Rightarrow> (nat \<times> bytes) list \<Rightarrow> v1_stream list \<Rightarrow> bool" where
  "v1_streams_inv cd os cs sts \<longleftrightarrow>
     (\<forall>w < length sts. v1_stream_ok cd w os (pending_for w cs) (sts ! w)) \<and>
     (\<forall>w \<ge> length sts. v1_unborn cd w os) \<and> (\<forall>c \<in> set cs. fst c < length sts)"

definition v1_path_inv :: "codec \<Rightarrow> router_obs list \<Rightarrow> router_sys \<Rightarrow> bool" where
  "v1_path_inv cd os s \<longleftrightarrow>
     v1_subs_inv (rs_v1Router s) (rs_v1Streams s) \<and> v1_streams_inv cd os (v1_pending s) (rs_v1Streams s) \<and>
     0 < ds_bufferSize (rs_v1Egress s) \<and> ds_bufferSize (rs_v1Egress s) < 2 ^ 63"

text \<open>Observations that do not concern the v1 streams.\<close>

definition v1_silent :: "router_obs list \<Rightarrow> bool" where
  "v1_silent os \<longleftrightarrow> (\<forall>x \<in> set os. case x of V1Sent _ \<Rightarrow> False | V1Registered _ _ \<Rightarrow> False | V1Cleaned _ \<Rightarrow> False
     | V1Got _ _ \<Rightarrow> False | V1EgressDropped _ _ \<Rightarrow> False | _ \<Rightarrow> True)"

lemma v1_silent_obs:
  assumes "v1_silent os"
  shows "v1_got w os = []" "v1_egress_dropped w os = 0" "foldl (registered_step w) st os = st" "v1_wanted_from cd w st os = []"
  using assms by (induction os arbitrary: st) (auto simp: v1_obs_simps v1_silent_def split: router_obs.splits)

lemma v1_path_frame:
  assumes "v1_path_inv cd os s" and "v1_silent os'" and "rs_v1Router s' = rs_v1Router s" and "v1_pending s' = v1_pending s"
    and "rs_v1Streams s' = rs_v1Streams s" and "rs_v1Egress s' = rs_v1Egress s"
  shows "v1_path_inv cd (os @ os') s'"
  using assms by (simp add: v1_path_inv_def v1_streams_inv_def v1_stream_ok_def v1_unborn_def v1_obs_append v1_silent_obs)

text \<open>A step of the v1 path.\<close>

definition v1_moves :: "codec \<Rightarrow> router_obs list \<Rightarrow> router_obs list \<Rightarrow> router_sys \<Rightarrow> bool" where
  "v1_moves cd os os' s' \<longleftrightarrow> ingested os' = [] \<and> v1_ingested os' = [] \<and> subscribed_count os' = 0 \<and>
     router_inv (os @ os') s' \<and> v1_path_inv cd (os @ os') s'"

lemma v1_movesI:
  assumes "router_inv os s" and "silent os'" and "ingested os' = []" and "v1_ingested os' = []"
    and "ingress_inv (os @ os') s'" and "egress_count (os @ os') s'" and "v1_path_inv cd (os @ os') s'"
    and "rs_pubsub s' = rs_pubsub s" and "rs_repeater s' = rs_repeater s" and "rs_streams s' = rs_streams s"
  shows "v1_moves cd os os' s'"
  using assms silent_obs(4) [OF assms(2)] silent_subs [OF assms(2)] silent_streams [OF assms(2)]
  by (auto simp: v1_moves_def router_inv_def pending_def)

text \<open>A step that leaves the diodes of the ingress servers and the counters alone.\<close>

lemma v1_moves_quiet:
  assumes "router_inv os s" and "silent os'" and "ingested os' = []" and "v1_ingested os' = []"
    and "taken os' = []" and "ingress_dropped os' = 0" and "v1_taken os' = []" and "v1_ingress_dropped os' = 0"
    and "egress_reported os' = 0" and "rs_ingress s' = rs_ingress s" and "rs_ingressDropped s' = rs_ingressDropped s"
    and "rs_droppedEgress s' = rs_droppedEgress s" and "v1_sent os' @ sending s' = sending s"
    and "v1_path_inv cd (os @ os') s'"
    and "rs_pubsub s' = rs_pubsub s" and "rs_repeater s' = rs_repeater s" and "rs_streams s' = rs_streams s"
  shows "v1_moves cd os os' s'"
proof (rule v1_movesI [OF assms(1-4)])
  show "ingress_inv (os @ os') s'"
    using assms silent_obs(3) [OF assms(2)]
    by (intro ingress_inv_frame [of os s]) (simp_all add: router_inv_def publishing_def)
  show "egress_count (os @ os') s'" using assms by (auto simp: router_inv_def intro: egress_count_frame)
qed (use assms in simp_all)

lemma message_router_poll_ok:
  assumes inv: "router_inv os s" "v1_path_inv cd os s" and pc: "rs_messageRouter s = MPoll"
  shows "\<exists>s' os'. message_router_poll s = Inr (s', os') \<and> v1_moves cd os os' s'"
proof -
  from inv(1) pc obtain r1 r2 cnt where
    h: "ingress_holds (map Some (v1_ingested os)) r1 (map Some (ingested os)) r2 cnt (rs_ingress s)"
    and t: "taken_from (v1_ingested os) (v1_taken os) (v1_ingress_dropped os) r1"
      "taken_from (ingested os) (taken os) (ingress_dropped os) r2"
    and m: "mc_delta (rs_ingressDropped s) = of_int (ingress_dropped os + v1_ingress_dropped os)"
      "taken os = published os @ publishing s" "v1_taken os = v1_sent os"
    by (auto simp: router_inv_def ingress_inv_def sending_def)
  from h have "mto_holds (map Some (v1_ingested os)) r1 (is_v1Buf (rs_ingress s))" by (simp add: ingress_holds_def)
  from taken_from_next [OF this t(1)] obtain d es k r' where d: "ManyToOne_TryNext (is_v1Buf (rs_ingress s)) =
      Inr (d, case es of [] \<Rightarrow> None | e # _ \<Rightarrow> Some (Some e), if k = 0 then [] else [int k])"
    and es: "es = [] \<or> (\<exists>e. es = [e])" and d2: "mto_holds (map Some (v1_ingested os)) r' d"
    and t': "taken_from (v1_ingested os) (v1_taken os @ es) (v1_ingress_dropped os + int k) r'" by blast
  define al where "al = (if k = 0 then [] else [int k])"
  define os' where "os' = map V1IngressDropped al @ map V1Taken es"
  have o: "ingested os' = []" "taken os' = []" "published os' = []" "ingress_dropped os' = 0"
    "v1_ingested os' = []" "v1_taken os' = es" "v1_sent os' = []" "v1_ingress_dropped os' = int k"
    "egress_reported os' = 0" and sil: "silent os'" "v1_silent os'"
    using es by (auto simp: os'_def al_def obs_simps silent_def v1_silent_def)
  define s' where "s' = s\<lparr>rs_ingress := (rs_ingress s)\<lparr>is_v1Buf := d\<rparr>, rs_ingressDropped := alerted al (rs_ingressDropped s),
      rs_messageRouter := (case es of [] \<Rightarrow> MPoll | e # _ \<Rightarrow> MSend e)\<rparr>"
  have "ingress_holds (map Some (v1_ingested os)) r' (map Some (ingested os)) r2 cnt (rs_ingress s')"
    using h d2 by (simp add: ingress_holds_def s'_def)
  then have i: "ingress_inv (os @ os') s'"
    unfolding ingress_inv_def obs_append o append_Nil2
    by (intro conjI exI) (use t(2) t' m es in \<open>auto simp: s'_def al_def alerted_delta publishing_def sending_def\<close>)
  have "v1_path_inv cd (os @ os') s'"
    by (rule v1_path_frame [OF inv(2) sil(2)]) (use es pc in \<open>auto simp: s'_def v1_pending_def\<close>)
  moreover have "egress_count (os @ os') s'" using inv(1) o by (auto simp: router_inv_def s'_def intro: egress_count_frame)
  ultimately have "v1_moves cd os os' s'" by (intro v1_movesI [OF inv(1) sil(1) o(1,5) i]) (simp_all add: s'_def)
  moreover have "message_router_poll s = Inr (s', os')"
    using es pc by (auto simp: message_router_poll_def d Let_def os'_def s'_def al_def)
  ultimately show ?thesis by blast
qed

lemma message_router_send_ok:
  assumes inv: "router_inv os s" "v1_path_inv cd os s" and pc: "rs_messageRouter s = MSend e"
    and rand: "\<And>f sh l. 0 < l \<Longrightarrow> rand f sh l < l"
  shows "\<exists>s' os'. router_route cd rand s = Inr (s', os') \<and> v1_moves cd os os' s'"
proof -
  let ?sts = "rs_v1Streams s" and ?os = "[V1Sent e]"
  have moves: "v1_moves cd os ?os (s\<lparr>rs_messageRouter := pc'\<rparr>)"
    if "v1_path_inv cd (os @ ?os) (s\<lparr>rs_messageRouter := pc'\<rparr>)" "pc' = MPoll \<or> (\<exists>cs. pc' = MSet cs)" for pc'
    by (rule v1_moves_quiet [OF inv(1)]) (use that pc in \<open>auto simp: obs_simps silent_def sending_def\<close>)
  from inv(2) pc have subs: "v1_subs_inv (rs_v1Router s) ?sts" and st: "v1_streams_inv cd os [] ?sts"
    by (auto simp: v1_path_inv_def v1_pending_def)
  have unborn: "v1_unborn cd w (os @ ?os)" if "length ?sts \<le> w" for w
    using st that by (simp add: v1_streams_inv_def v1_unborn_def v1_obs_simps v1_asked_def)
  show ?thesis
  proof (cases "cd_marshal cd e")
    case None
    then have "v1_asked cd req e = []" for req by (simp add: v1_asked_def split: option.split)
    then have "v1_streams_inv cd (os @ ?os) [] ?sts"
      using st unborn by (simp add: v1_streams_inv_def v1_stream_ok_def v1_obs_simps)
    with inv(2) have "v1_path_inv cd (os @ ?os) (s\<lparr>rs_messageRouter := MPoll\<rparr>)" by (simp add: v1_path_inv_def v1_pending_def)
    from moves [OF this] None pc show ?thesis by (auto simp: router_route_def SendTo_def)
  next
    case (Some data)
    from send_to_stream [where marshal = "cd_marshal cd" and rand = rand, OF subs _ Some] rand obtain calls where
      calls: "SendTo (cd_marshal cd) rand (getAppId e) e (rs_v1Router s) = Inr calls"
        "\<forall>c \<in> set calls. snd c = data \<and> fst c < length ?sts"
      and cnt: "\<forall>w < length ?sts. let m = (if vt_phase (?sts ! w) = Registered \<and> filter_matches (getAppId e) e (convertFilter (vt_req (?sts ! w))) then 1 else 0);
          k = length (filter (\<lambda>c. fst c = w) calls) in k \<le> m \<and> (sr_ShardID (vt_req (?sts ! w)) = [] \<longrightarrow> k = m)"
      by blast
    have pend: "pending_for w calls = replicate (length (filter (\<lambda>c. fst c = w) calls)) data" for w
      using calls(2) unfolding pending_for_def by (induction calls) auto
    have "v1_stream_ok cd w (os @ ?os) (pending_for w calls) (?sts ! w)" if w: "w < length ?sts" for w
    proof -
      let ?m = "if vt_phase (?sts ! w) = Registered \<and> filter_matches (getAppId e) e (convertFilter (vt_req (?sts ! w))) then 1 else 0"
      from st w have ok: "v1_stream_ok cd w os [] (?sts ! w)" by (simp add: v1_streams_inv_def pending_for_def)
      define m :: nat where "m = ?m"
      have "v1_asked cd (registered w os) e = replicate m data" using ok by (simp add: v1_stream_ok_def v1_asked_def Some m_def)
      moreover have "length (filter (\<lambda>c. fst c = w) calls) \<le> m"
        "sr_ShardID (vt_req (?sts ! w)) = [] \<Longrightarrow> length (filter (\<lambda>c. fst c = w) calls) = m"
        using cnt w unfolding m_def Let_def by blast+
      ultimately show ?thesis
        using ok unfolding pend v1_stream_ok_def by (simp add: v1_obs_simps feeds_publish)
    qed
    with unborn calls(2) inv(2) have "v1_path_inv cd (os @ ?os) (s\<lparr>rs_messageRouter := MSet calls\<rparr>)"
      by (simp add: v1_path_inv_def v1_pending_def v1_streams_inv_def)
    from moves [OF this] Some pc calls(1) show ?thesis by (auto simp: router_route_def)
  qed
qed

lemma message_router_set_ok:
  assumes inv: "router_inv os s" "v1_path_inv cd os s" and pc: "rs_messageRouter s = MSet ((w, data) # cs)"
    and n: "length (v1_ingested os) < 2 ^ 63"
  shows "\<exists>s'. message_router_set w data cs s = Inr s' \<and> v1_moves cd os [] s'"
proof -
  let ?sts = "rs_v1Streams s"
  from inv(2) pc have st: "v1_streams_inv cd os ((w, data) # cs) ?sts" by (simp add: v1_path_inv_def v1_pending_def)
  then have w: "w < length ?sts" and ok: "v1_stream_ok cd w os (data # pending_for w cs) (?sts ! w)"
    by (auto simp: v1_streams_inv_def pending_for_def)
  have "length (v1_wanted cd w os) < 2 ^ 63"
    using v1_wanted_length [of cd w os] router_inv_published(2) [of os s] inv(1) n by (simp add: router_inv_def)
  with ok feeds_set [where f = id and e = data] obtain d where
    d: "diodes_OneToOne_Set data (vt_diode (?sts ! w)) = Inr d" "v1_stream_ok cd w os (pending_for w cs) ((?sts ! w)\<lparr>vt_diode := d\<rparr>)"
    unfolding v1_stream_ok_def diodes_OneToOne_Set_def by fastforce
  let ?s = "s\<lparr>rs_messageRouter := MSet cs, rs_v1Streams := ?sts[w := (?sts ! w)\<lparr>vt_diode := d\<rparr>]\<rparr>"
  have "pending_for v ((w, data) # cs) = pending_for v cs" if "v \<noteq> w" for v using that by (simp add: pending_for_def)
  then have "v1_streams_inv cd os cs (rs_v1Streams ?s)"
    using st d(2) w by (auto simp: v1_streams_inv_def nth_list_update)
  moreover have "v1_subs_inv (rs_v1Router s) (rs_v1Streams ?s)"
    using inv(2) w by (auto simp: v1_path_inv_def v1_subs_inv_def nth_list_update stream_key_def)
  ultimately have "v1_path_inv cd (os @ []) ?s" using inv(2) by (simp add: v1_path_inv_def v1_pending_def)
  then have "v1_moves cd os [] ?s"
    using pc by (intro v1_moves_quiet [OF inv(1)]) (simp_all add: obs_simps silent_def sending_def)
  with d(1) w show ?thesis by (auto simp: message_router_set_def)
qed

lemma router_route_ok:
  assumes inv: "router_inv os s" "v1_path_inv cd os s" and rand: "\<And>f sh l. 0 < l \<Longrightarrow> rand f sh l < l"
    and n: "length (v1_ingested os) < 2 ^ 63"
  shows "\<exists>s' os'. router_route cd rand s = Inr (s', os') \<and> v1_moves cd os os' s'"
proof (cases "rs_messageRouter s")
  case MPoll
  with message_router_poll_ok [OF inv] show ?thesis by (simp add: router_route_def)
next
  case (MSend e)
  from message_router_send_ok [OF inv this, of rand] rand show ?thesis by blast
next
  case (MSet cs)
  show ?thesis
  proof (cases cs)
    case Nil
    let ?s = "s\<lparr>rs_messageRouter := MPoll\<rparr>"
    have "v1_path_inv cd (os @ []) ?s" using inv(2) MSet Nil by (simp add: v1_path_inv_def v1_pending_def)
    then have "v1_moves cd os [] ?s"
      using MSet by (intro v1_moves_quiet [OF inv(1)]) (simp_all add: obs_simps silent_def sending_def)
    with MSet Nil show ?thesis by (auto simp: router_route_def)
  next
    case (Cons c cs')
    then obtain w data where "cs = (w, data) # cs'" by (cases c) auto
    with MSet message_router_set_ok [OF inv _ n] show ?thesis by (fastforce simp: router_route_def)
  qed
qed

lemma v1_open_ok:
  assumes inv: "router_inv os s" "v1_path_inv cd os s"
  shows "\<exists>s'. v1_open req s = Inr s' \<and> v1_moves cd os [] s'"
proof -
  let ?sts = "rs_v1Streams s" and ?sz = "nat (ds_bufferSize (rs_v1Egress s))"
  let ?st = "\<lparr>vt_req = req, vt_phase = Unregistered, vt_diode = NewOneToOne ?sz\<rparr>"
  let ?s = "s\<lparr>rs_v1Streams := ?sts @ [?st]\<rparr>"
  from inv(2) have sz: "0 < ?sz" "?sz < 2 ^ 63" "0 \<le> ds_bufferSize (rs_v1Egress s)" and st: "v1_streams_inv cd os (v1_pending s) ?sts"
    by (auto simp: v1_path_inv_def)
  then have un: "v1_unborn cd (length ?sts) os" and lt: "\<forall>c \<in> set (v1_pending s). fst c < length ?sts"
    by (auto simp: v1_streams_inv_def)
  have "pending_for (length ?sts) (v1_pending s) = []" using lt by (auto simp: pending_for_def filter_empty_conv)
  with un sz(1,2) have "v1_stream_ok cd (length ?sts) os (pending_for (length ?sts) (v1_pending s)) ?st"
    by (simp add: v1_stream_ok_def v1_unborn_def feeds_new)
  with st lt have "v1_streams_inv cd os (v1_pending s) (?sts @ [?st])"
    by (auto simp: v1_streams_inv_def nth_append less_Suc_eq)
  moreover have "v1_subs_inv (rs_v1Router s) (?sts @ [?st])"
    using inv(2) by (auto simp: v1_path_inv_def v1_subs_inv_def nth_append less_Suc_eq)
  ultimately have "v1_path_inv cd (os @ []) ?s" using inv(2) by (simp add: v1_path_inv_def v1_pending_def)
  then have "v1_moves cd os [] ?s"
    by (intro v1_moves_quiet [OF inv(1)]) (simp_all add: obs_simps silent_def sending_def)
  with sz(3) show ?thesis by (simp add: v1_open_def make_len_def diodes_NewOneToOne_def)
qed

text \<open>A step that changes the registration of one stream, while no data is being set.\<close>

lemma v1_reregister:
  assumes inv: "router_inv os s" "v1_path_inv cd os s" and w: "w < length (rs_v1Streams s)" and lock: "\<not> v1_locked s"
    and x: "x = V1Registered w (vt_req (rs_v1Streams s ! w)) \<and> phase = Registered \<or> x = V1Cleaned w \<and> phase = Cleaned"
    and r: "router_ok r" "\<And>k. distinct (setters_at k r)" "\<And>k. set (setters_at k r) =
      (if k = stream_key (rs_v1Streams s ! w)
       then (if phase = Registered then insert w else (\<lambda>A. A - {w})) (set (setters_at k (rs_v1Router s)))
       else set (setters_at k (rs_v1Router s)))"
  shows "v1_moves cd os [x] (s\<lparr>rs_v1Router := r, rs_v1Streams := (rs_v1Streams s)[w := (rs_v1Streams s ! w)\<lparr>vt_phase := phase\<rparr>]\<rparr>)"
    (is "v1_moves cd os [x] ?s")
proof -
  let ?sts = "rs_v1Streams s"
  have pend: "v1_pending s = []" "v1_pending ?s = []"
    using lock by (auto simp: v1_locked_def v1_pending_def split: message_router_pc.splits)
  have o: "v1_got v [x] = []" "v1_egress_dropped v [x] = 0" "v1_wanted_from cd v st [x] = []"
    "foldl (registered_step v) st [x] = (if v = w then if phase = Registered then Some (vt_req (?sts ! w)) else None else st)" for v st
    using x by (auto simp: v1_obs_simps)
  have "v1_streams_inv cd (os @ [x]) [] (rs_v1Streams ?s)"
    using inv(2) w pend unfolding v1_path_inv_def v1_streams_inv_def v1_stream_ok_def v1_unborn_def v1_obs_append o
    by (auto simp: nth_list_update)
  moreover have "v1_subs_inv r (rs_v1Streams ?s)"
    unfolding v1_subs_inv_def
  proof (intro conjI allI r(1,2))
    fix k
    from inv(2) have "v1_subs_inv (rs_v1Router s) ?sts" by (simp add: v1_path_inv_def)
    from v1_subsD(3) [OF this, of k] r(3) [of k] w x show "set (setters_at k r) =
        {v. v < length (rs_v1Streams ?s) \<and> vt_phase (rs_v1Streams ?s ! v) = Registered \<and> stream_key (rs_v1Streams ?s ! v) = k}"
      by (auto simp: nth_list_update stream_key_def)
  qed
  ultimately have "v1_path_inv cd (os @ [x]) ?s" using inv(2) pend by (simp add: v1_path_inv_def)
  then show ?thesis
    using x by (intro v1_moves_quiet [OF inv(1)]) (auto simp: obs_simps silent_def sending_def)
qed

lemma v1_moves_none: "router_inv os s \<Longrightarrow> v1_path_inv cd os s \<Longrightarrow> v1_moves cd os [] s"
  by (simp add: v1_moves_def obs_simps)

lemma v1_register_ok:
  assumes inv: "router_inv os s" "v1_path_inv cd os s"
  shows "v1_moves cd os (snd (v1_register w s)) (fst (v1_register w s))"
proof (cases "w < length (rs_v1Streams s) \<and> \<not> v1_locked s \<and> vt_phase (rs_v1Streams s ! w) = Unregistered")
  case True
  let ?st = "rs_v1Streams s ! w" and ?r = "registerSetter (vt_req (rs_v1Streams s ! w)) w (rs_v1Router s)"
  from inv(2) have subs: "v1_subs_inv (rs_v1Router s) (rs_v1Streams s)" by (simp add: v1_path_inv_def)
  note spec = register_spec [OF v1_subsD(1) [OF subs], where req = "vt_req ?st" and w = w, folded stream_key_def]
  have "w \<notin> set (setters_at k (rs_v1Router s))" for k unfolding v1_subsD(3) [OF subs] using True by simp
  with v1_subsD(2) [OF subs] have "distinct (setters_at k ?r)" for k unfolding spec(2) by simp
  with v1_reregister [OF inv _ _ _ spec(1), of w "V1Registered w (vt_req ?st)" Registered] spec(2) True show ?thesis
    by (simp add: v1_register_def Router_Register_def Let_def)
next
  case False
  then have "v1_register w s = (s, [])" by (auto simp: v1_register_def Let_def)
  with inv show ?thesis by (simp add: v1_moves_none)
qed

lemma v1_cleanup_ok:
  assumes inv: "router_inv os s" "v1_path_inv cd os s"
  shows "v1_moves cd os (snd (v1_cleanup w s)) (fst (v1_cleanup w s))"
proof (cases "w < length (rs_v1Streams s) \<and> \<not> v1_locked s \<and> vt_phase (rs_v1Streams s ! w) = Registered")
  case True
  let ?st = "rs_v1Streams s ! w" and ?r = "buildCleanup (vt_req (rs_v1Streams s ! w)) w (rs_v1Router s)"
  from inv(2) have subs: "v1_subs_inv (rs_v1Router s) (rs_v1Streams s)" by (simp add: v1_path_inv_def)
  note spec = cleanup_router_spec [OF v1_subsD(1) [OF subs], where req = "vt_req ?st" and w = w, folded stream_key_def]
  have "distinct (setters_at k ?r)" for k using spec(2) v1_subsD(2) [OF subs] by simp
  moreover have "set (setters_at k ?r) = (if k = stream_key ?st then set (setters_at k (rs_v1Router s)) - {w}
      else set (setters_at k (rs_v1Router s)))" for k using spec(2) by auto
  ultimately show ?thesis
    using v1_reregister [OF inv _ _ _ spec(1), of w "V1Cleaned w" Cleaned] True
    by (simp add: v1_cleanup_def Router_Register_def Let_def)
next
  case False
  then have "v1_cleanup w s = (s, [])" by (auto simp: v1_cleanup_def Let_def)
  with inv show ?thesis by (simp add: v1_moves_none)
qed

lemma v1_read_ok:
  assumes inv: "router_inv os s" "v1_path_inv cd os s"
  shows "\<exists>s' os'. v1_read w s = Inr (s', os') \<and> v1_moves cd os os' s'"
proof (cases "w < length (rs_v1Streams s) \<and> vt_phase (rs_v1Streams s ! w) = Registered")
  case True
  let ?sts = "rs_v1Streams s" and ?p = "pending_for w (v1_pending s)"
  from inv(2) True have ok: "v1_stream_ok cd w os ?p (?sts ! w)" by (simp add: v1_path_inv_def v1_streams_inv_def)
  then have f: "feeds id (v1_wanted cd w os) (sr_ShardID (vt_req (?sts ! w)) = []) ?p (v1_got w os) (v1_egress_dropped w os) (vt_diode (?sts ! w))"
    by (simp add: v1_stream_ok_def)
  from feeds_next [OF f] obtain d es k where d: "OneToOne_TryNext (vt_diode (?sts ! w)) =
      Inr (d, case es of [] \<Rightarrow> None | e # _ \<Rightarrow> Some (id e), if k = 0 then [] else [int k])"
    and es: "es = [] \<or> (\<exists>e. es = [e])"
    and f': "feeds id (v1_wanted cd w os) (sr_ShardID (vt_req (?sts ! w)) = []) ?p (v1_got w os @ es) (v1_egress_dropped w os + int k) d"
    by blast
  define al where "al = (if k = 0 then [] else [int k])"
  define os' where "os' = map (V1EgressDropped w) al @ map (V1Got w) es"
  have o: "v1_got v os' = (if v = w then es else [])" "v1_egress_dropped v os' = (if v = w then int k else 0)"
    "foldl (registered_step v) st os' = st" "v1_wanted_from cd v st os' = []" "egress_reported os' = int k" for v st
    using es by (auto simp: os'_def al_def v1_obs_simps)
  have o': "ingested os' = []" "v1_ingested os' = []" "taken os' = []" "published os' = []" "ingress_dropped os' = 0"
    "v1_taken os' = []" "v1_sent os' = []" "v1_ingress_dropped os' = 0" "silent os'"
    using es by (auto simp: os'_def al_def v1_obs_simps silent_def)
  let ?s = "s\<lparr>rs_v1Streams := ?sts[w := (?sts ! w)\<lparr>vt_diode := d\<rparr>], rs_droppedEgress := alerted al (rs_droppedEgress s)\<rparr>"
  have "v1_streams_inv cd (os @ os') (v1_pending s) (rs_v1Streams ?s)"
    using inv(2) f' True unfolding v1_path_inv_def v1_streams_inv_def v1_stream_ok_def v1_unborn_def v1_obs_append o
    by (auto simp: nth_list_update)
  moreover have "v1_subs_inv (rs_v1Router s) (rs_v1Streams ?s)"
    using inv(2) True by (auto simp: v1_path_inv_def v1_subs_inv_def nth_list_update stream_key_def)
  ultimately have path: "v1_path_inv cd (os @ os') ?s" using inv(2) by (simp add: v1_path_inv_def v1_pending_def)
  have "v1_moves cd os os' ?s"
  proof (rule v1_movesI [OF inv(1) o'(9,1,2) _ _ path])
    show "ingress_inv (os @ os') ?s"
      using inv(1) o' by (intro ingress_inv_frame [of os s]) (simp_all add: router_inv_def publishing_def sending_def)
    show "egress_count (os @ os') ?s"
      using inv(1) by (simp add: router_inv_def egress_count_def obs_append o alerted_delta al_def)
  qed simp_all
  moreover have "v1_read w s = Inr (?s, os')"
    using True d es by (auto simp: v1_read_def diodes_OneToOne_TryNext_def typed_try_def alerted_def DopplerServer_Alert_def os'_def al_def)
  ultimately show ?thesis by blast
next
  case False
  then have "v1_read w s = Inr (s, [])" by (auto simp: v1_read_def Let_def)
  with inv show ?thesis by (simp add: v1_moves_none)
qed

section \<open>Runs\<close>

text \<open>The envelopes that a run is given, the selectors that it subscribes, and the range of its random draws.\<close>

definition fed :: "codec \<Rightarrow> router_event list \<Rightarrow> Envelope list" where
  "fed cd evs = concat (map (\<lambda>ev. case ev of Ingest es \<Rightarrow> es
     | Push p \<Rightarrow> (case cd_unmarshal cd p of None \<Rightarrow> [] | Some env \<Rightarrow> [cd_toV2 cd env]) | _ \<Rightarrow> []) evs)"

definition v1_fed :: "codec \<Rightarrow> router_event list \<Rightarrow> v1_Envelope list" where
  "v1_fed cd evs = concat (map (\<lambda>ev. case ev of
       Ingest es \<Rightarrow> map the (concat (map (v1_of (cd_toV1 cd) has_event_type) es))
     | Push p \<Rightarrow> (case cd_unmarshal cd p of None \<Rightarrow> [] | Some env \<Rightarrow> [env]) | _ \<Rightarrow> []) evs)"

text \<open>The number of conversions, an upper bound for the envelopes that reach the v1 diode.\<close>

definition v1_bound :: "codec \<Rightarrow> router_event list \<Rightarrow> nat" where
  "v1_bound cd evs = sum_list (map (\<lambda>ev. case ev of
       Ingest es \<Rightarrow> length (concat (map (cd_toV1 cd) es)) | Push p \<Rightarrow> 1 | _ \<Rightarrow> 0) evs)"

definition v2_bound :: "router_event list \<Rightarrow> nat" where
  "v2_bound evs = sum_list (map (\<lambda>ev. case ev of Ingest es \<Rightarrow> length es | Push p \<Rightarrow> 1 | _ \<Rightarrow> 0) evs)"

definition subscribes :: "router_event list \<Rightarrow> nat" where
  "subscribes evs = length (filter (\<lambda>ev. case ev of Subscribe _ _ \<Rightarrow> True | _ \<Rightarrow> False) evs)"

definition draws_ok :: "router_event \<Rightarrow> bool" where
  "draws_ok ev = (case ev of
      Repeat r rand \<Rightarrow> (\<forall>\<pi> sh l. 0 < l \<longrightarrow> rand \<pi> sh l < l)
    | Route rand \<Rightarrow> (\<forall>f sh l. 0 < l \<longrightarrow> rand f sh l < l)
    | _ \<Rightarrow> True)"

lemmas run_defs = fed_def v1_fed_def v1_bound_def v2_bound_def subscribes_def

lemma run_Cons:
  "fed cd (ev # evs) = fed cd [ev] @ fed cd evs" "v1_fed cd (ev # evs) = v1_fed cd [ev] @ v1_fed cd evs"
  "v1_bound cd (ev # evs) = v1_bound cd [ev] + v1_bound cd evs" "v2_bound (ev # evs) = v2_bound [ev] + v2_bound evs"
  "subscribes (ev # evs) = subscribes [ev] + subscribes evs"
  by (simp_all add: run_defs)

lemma v1_fed_bound: "length (v1_fed cd [ev]) \<le> v1_bound cd [ev]" and fed_bound: "length (fed cd [ev]) \<le> v2_bound [ev]"
proof -
  have "length (concat (map (v1_of toV1 typed) es)) \<le> length (concat (map toV1 es))" for toV1 :: "Envelope \<Rightarrow> v1_Envelope option list" and typed es
    by (induction es) (auto simp: v1_of_def intro: add_mono)
  then show "length (v1_fed cd [ev]) \<le> v1_bound cd [ev]" "length (fed cd [ev]) \<le> v2_bound [ev]"
    by (cases ev; simp add: run_defs split: option.split)+
qed

definition v1_event :: "router_event \<Rightarrow> bool" where
  "v1_event ev = (case ev of Route _ \<Rightarrow> True | V1Open _ \<Rightarrow> True | V1Register _ \<Rightarrow> True | V1Cleanup _ \<Rightarrow> True
     | V1Read _ \<Rightarrow> True | _ \<Rightarrow> False)"

text \<open>The events of the v2 path leave the v1 path alone.\<close>

definition v1_same :: "router_sys \<Rightarrow> router_sys \<Rightarrow> bool" where
  "v1_same s s' \<longleftrightarrow> rs_v1Router s' = rs_v1Router s \<and> rs_messageRouter s' = rs_messageRouter s \<and>
     rs_v1Streams s' = rs_v1Streams s \<and> rs_v1Egress s' = rs_v1Egress s"

lemma repeat_v1_same:
  assumes "router_repeat r rand s = Some (Inr (s', os'))"
  shows "v1_same s s' \<and> v1_silent os' \<and> v1_ingested os' = []"
proof (cases "rs_repeater s")
  case RPoll
  then show ?thesis
    using assms by (auto simp: router_repeat_def repeater_poll_def Let_def v1_same_def v1_silent_def obs_simps v1_ingested_def
        split: sum.splits option.splits)
next
  case (RPublish e)
  then show ?thesis
    using assms by (auto simp: router_repeat_def v1_same_def v1_silent_def obs_simps
        dest!: map_sum_Inr)
next
  case (RSet cs)
  then show ?thesis
    using assms by (cases cs) (auto simp: router_repeat_def repeater_set_def v1_same_def v1_silent_def obs_simps dest!: map_sum_Inr
        split: sum.splits if_splits)
qed

lemma v2_step_v1_same:
  assumes "router_step cd ev s = Some (Inr (s', os'))" and "\<not> v1_event ev"
  shows "v1_same s s' \<and> v1_silent os' \<and> v1_ingested os' = v1_fed cd [ev]"
proof (cases ev)
  case (Ingest es)
  with assms(1) show ?thesis
    by (auto simp: router_step_def router_ingest_def v1_same_def v1_silent_def obs_simps v1_fed_def dest!: map_sum_Inr)
next
  case (Push p)
  with assms(1) show ?thesis
    by (auto simp: router_step_def router_push_def v1_same_def v1_silent_def obs_simps v1_fed_def dest!: map_sum_Inr
        split: option.split simp del: IngestorServer_Pusher.simps)
next
  case (Repeat r rand)
  with assms(1) repeat_v1_same [of r rand s s' os'] show ?thesis by (simp add: router_step_def v1_fed_def)
next
  case (Open req)
  with assms(1) show ?thesis by (auto simp: router_step_def router_open_def v1_same_def v1_silent_def obs_simps v1_fed_def)
next
  case (Subscribe w r)
  with assms(1) show ?thesis
    by (auto simp: router_step_def router_subscribe_def v1_same_def v1_silent_def obs_simps v1_fed_def Let_def dest!: map_sum_Inr
        split: if_splits list.splits)
next
  case (Unsubscribe w)
  with assms(1) show ?thesis
    by (auto simp: router_step_def router_unsubscribe_def v1_same_def v1_silent_def obs_simps v1_fed_def Let_def dest!: map_sum_Inr
        split: if_splits list.splits)
next
  case (Read w)
  with assms(1) show ?thesis
    by (auto simp: router_step_def router_read_def v1_same_def v1_silent_def obs_simps v1_fed_def v1_ingested_def Let_def
        split: sum.splits if_splits option.splits)
qed (use assms(2) in \<open>simp_all add: v1_event_def\<close>)

lemma v2_step_ok:
  assumes inv: "router_inv os s" and ev: "\<not> v1_event ev" and draws: "draws_ok ev"
    and n: "length (ingested os) + v2_bound [ev] < 2 ^ 63" and v: "length (v1_ingested os) + v1_bound cd [ev] < 2 ^ 63"
    and m: "length (ingested os) * subscribed_count os < 2 ^ 63" and size: "subscribed_count os + subscribes [ev] < 2 ^ 64"
  shows "\<exists>s' os'. router_step cd ev s = Some (Inr (s', os')) \<and> ingested os' = fed cd [ev] \<and>
    subscribed_count os' \<le> subscribes [ev] \<and> router_inv (os @ os') s'"
proof (cases ev)
  case (Ingest es)
  with router_ingest_ok [OF inv, of es cd] n v show ?thesis by (auto simp: router_step_def run_defs obs_simps)
next
  case (Push p)
  with router_push_ok [OF inv, of cd p] n v show ?thesis
    by (auto simp: router_step_def run_defs obs_simps split: option.splits)
next
  case (Repeat r rand)
  with router_repeat_ok [OF inv, of rand r] draws m size show ?thesis by (auto simp: router_step_def run_defs draws_ok_def)
next
  case (Open req)
  with router_open_ok [OF inv, of req] show ?thesis
    by (auto simp: router_step_def run_defs obs_simps intro!: exI [of _ "[]"])
next
  case (Subscribe w r)
  with router_subscribe_ok [OF inv, of w r] size show ?thesis by (auto simp: router_step_def run_defs)
next
  case (Unsubscribe w)
  with router_unsubscribe_ok [OF inv, of w] show ?thesis by (auto simp: router_step_def run_defs)
next
  case (Read w)
  with router_read_ok [OF inv, of w] show ?thesis by (auto simp: router_step_def run_defs)
qed (use ev in \<open>simp_all add: v1_event_def\<close>)

lemma v1_step_ok:
  assumes inv: "router_inv os s" "v1_path_inv cd os s" and ev: "v1_event ev" and draws: "draws_ok ev"
    and v: "length (v1_ingested os) < 2 ^ 63"
  shows "\<exists>s' os'. router_step cd ev s = Some (Inr (s', os')) \<and> v1_moves cd os os' s'"
proof (cases ev)
  case (Route rand)
  with router_route_ok [OF inv _ v, of rand] draws show ?thesis by (auto simp: router_step_def draws_ok_def)
next
  case (V1Open req)
  with v1_open_ok [OF inv, of req] show ?thesis by (auto simp: router_step_def)
next
  case (V1Register w)
  with v1_register_ok [OF inv, of w] show ?thesis by (cases "v1_register w s") (auto simp: router_step_def)
next
  case (V1Cleanup w)
  with v1_cleanup_ok [OF inv, of w] show ?thesis by (cases "v1_cleanup w s") (auto simp: router_step_def)
next
  case (V1Read w)
  with v1_read_ok [OF inv, of w] show ?thesis by (auto simp: router_step_def)
qed (use ev in \<open>simp_all add: v1_event_def\<close>)

definition both_inv :: "codec \<Rightarrow> router_obs list \<Rightarrow> router_sys \<Rightarrow> bool" where
  "both_inv cd os s \<longleftrightarrow> router_inv os s \<and> v1_path_inv cd os s"

lemma router_step_ok:
  assumes inv: "both_inv cd os s" and draws: "draws_ok ev"
    and n: "length (ingested os) + v2_bound [ev] < 2 ^ 63" and v: "length (v1_ingested os) + v1_bound cd [ev] < 2 ^ 63"
    and m: "length (ingested os) * subscribed_count os < 2 ^ 63" and size: "subscribed_count os + subscribes [ev] < 2 ^ 64"
  shows "\<exists>s' os'. router_step cd ev s = Some (Inr (s', os')) \<and> ingested os' = fed cd [ev] \<and>
    v1_ingested os' = v1_fed cd [ev] \<and> subscribed_count os' \<le> subscribes [ev] \<and> both_inv cd (os @ os') s'"
proof (cases "v1_event ev")
  case True
  then have "fed cd [ev] = []" "v1_fed cd [ev] = []" by (auto simp: v1_event_def run_defs split: router_event.splits)
  with v1_step_ok [OF _ _ True draws, of os s cd] inv v show ?thesis by (fastforce simp: both_inv_def v1_moves_def)
next
  case False
  from inv have i: "router_inv os s" "v1_path_inv cd os s" by (simp_all add: both_inv_def)
  from v2_step_ok [OF i(1) False draws n v m size] obtain s' os' where
    s': "router_step cd ev s = Some (Inr (s', os'))" "ingested os' = fed cd [ev]" "subscribed_count os' \<le> subscribes [ev]"
      "router_inv (os @ os') s'" by blast
  from v2_step_v1_same [OF s'(1) False] have same: "v1_same s s'" "v1_silent os'" "v1_ingested os' = v1_fed cd [ev]" by simp_all
  have "v1_path_inv cd (os @ os') s'"
    using same(1) by (intro v1_path_frame [OF i(2) same(2)]) (simp_all add: v1_same_def v1_pending_def)
  with s' same(3) show ?thesis by (auto simp: both_inv_def)
qed

lemma router_run_ok:
  assumes "both_inv cd os s" and "\<forall>ev \<in> set evs. draws_ok ev"
    and "length (ingested os) + v2_bound evs < 2 ^ 63" and "length (v1_ingested os) + v1_bound cd evs < 2 ^ 63"
    and "(length (ingested os) + v2_bound evs) * (subscribed_count os + subscribes evs) < 2 ^ 63"
    and "subscribed_count os + subscribes evs < 2 ^ 64"
  shows "\<exists>s' os'. router_run cd evs s = Some (Inr (s', os')) \<and> ingested os' = fed cd evs \<and>
    v1_ingested os' = v1_fed cd evs \<and> both_inv cd (os @ os') s'"
  using assms
proof (induction evs arbitrary: os s)
  case Nil
  then show ?case by (auto simp: run_defs obs_simps)
next
  case (Cons ev evs)
  note b = Cons.prems(3-6) [unfolded run_Cons(3) [of cd ev evs] run_Cons(4,5) [of ev evs]]
  have "length (ingested os) * subscribed_count os \<le>
      (length (ingested os) + (v2_bound [ev] + v2_bound evs)) * (subscribed_count os + (subscribes [ev] + subscribes evs))"
    by (intro mult_le_mono) simp_all
  with b(3) have "length (ingested os) * subscribed_count os < 2 ^ 63" by linarith
  from router_step_ok [OF Cons.prems(1) _ _ _ this, of ev] Cons.prems(2) b obtain s1 os1 where
    s1: "router_step cd ev s = Some (Inr (s1, os1))" "ingested os1 = fed cd [ev]" "v1_ingested os1 = v1_fed cd [ev]"
    "subscribed_count os1 \<le> subscribes [ev]" "both_inv cd (os @ os1) s1"
    by auto
  have le: "length (ingested (os @ os1)) + v2_bound evs \<le> length (ingested os) + (v2_bound [ev] + v2_bound evs)"
    "length (v1_ingested (os @ os1)) + v1_bound cd evs \<le> length (v1_ingested os) + (v1_bound cd [ev] + v1_bound cd evs)"
    "subscribed_count (os @ os1) + subscribes evs \<le> subscribed_count os + (subscribes [ev] + subscribes evs)"
    using s1(2-4) fed_bound [of cd ev] v1_fed_bound [of cd ev] by (simp_all add: obs_append)
  have "(length (ingested (os @ os1)) + v2_bound evs) * (subscribed_count (os @ os1) + subscribes evs) < 2 ^ 63"
    using mult_le_mono [OF le(1,3)] b(3) by linarith
  from Cons.IH [OF s1(5) _ _ _ this] Cons.prems(2) le b obtain s2 os2 where
    "router_run cd evs s1 = Some (Inr (s2, os2))" "ingested os2 = fed cd evs" "v1_ingested os2 = v1_fed cd evs"
    "both_inv cd ((os @ os1) @ os2) s2" by auto
  with s1(1-3) show ?case unfolding run_Cons(1,2) [of _ ev evs] by (auto simp: obs_append)
qed

text \<open>The bounds of a run: the sizes of the diodes, and that no index of 63 bits overflows.\<close>

definition run_bounds :: "router_Config \<Rightarrow> codec \<Rightarrow> router_event list \<Rightarrow> bool" where
  "run_bounds c cd evs \<longleftrightarrow>
     0 < rc_IngressBufferSize c \<and> rc_IngressBufferSize c < 2 ^ 63 \<and>
     0 < rc_EgressBufferSize c \<and> rc_EgressBufferSize c < 2 ^ 63 \<and>
     (v2_bound evs + 1) * (subscribes evs + 1) < 2 ^ 63 \<and> v1_bound cd evs < 2 ^ 63"

lemma router_from_start:
  assumes "run_bounds c cd evs" and "\<forall>ev \<in> set evs. draws_ok ev"
  shows "\<exists>s0 s os. Router_Start metricClient c = Inr s0 \<and> router_run cd evs s0 = Some (Inr (s, os)) \<and>
    ingested os = fed cd evs \<and> v1_ingested os = v1_fed cd evs \<and> both_inv cd os s"
proof -
  obtain s0 where s0: "Router_Start metricClient c = Inr s0" "router_inv [] s0" "rs_v1Router s0 = NewRouter"
    "rs_messageRouter s0 = MPoll" "rs_v1Streams s0 = []" "ds_bufferSize (rs_v1Egress s0) = rc_EgressBufferSize c"
    using router_inv_start assms(1) unfolding run_bounds_def by blast
  have "v1_path_inv cd [] s0"
    using assms(1) by (simp add: v1_path_inv_def v1_subs_inv_def v1_streams_inv_def v1_unborn_def v1_pending_def s0
        setters_at_new v1_obs_simps run_bounds_def)
  with s0(2) have "both_inv cd [] s0" by (simp add: both_inv_def)
  from router_run_ok [OF this assms(2)] assms(1) s0(1) show ?thesis
    by (simp add: run_bounds_def obs_simps algebra_simps)
qed

end
