(* ===== verification/RouterEnd.thy ===== *)
theory RouterEnd
  imports RouterRunV1
begin

text \<open>The router from end to end: the properties of its two paths, and an example run of each.\<close>

section \<open>A run of the router\<close>

definition example_client :: metric_Client where
  "example_client = \<lparr>cl_pulseInterval = 5000000000, cl_dialOpts = [], cl_sourceID = ''doppler'', cl_tags = []\<rparr>"

definition example_config :: router_Config where
  "example_config = Config_zero\<lparr>rc_IngressBufferSize := 2, rc_EgressBufferSize := 2\<rparr>"

definition source_log :: "string \<Rightarrow> Envelope" where
  "source_log src = Envelope_empty\<lparr>SourceId := src, Message := Some (Envelope_Log None)\<rparr>"

abbreviation example_log :: Envelope where
  "example_log \<equiv> source_log []"

definition app_v1 :: "string \<Rightarrow> v1_Envelope" where
  "app_v1 app = \<lparr>v1_EventType = Some LogMessage, v1_LogAppId = Some app, v1_ContainerAppId = None, v1_HttpAppId = None\<rparr>"

text \<open>A codec of one payload and one v1 envelope; v2 envelopes have no v1 form.\<close>

definition app_codec :: "string \<Rightarrow> codec" where
  "app_codec app = \<lparr>cd_toV1 = (\<lambda>_. []), cd_toV2 = (\<lambda>_. example_log), cd_unmarshal = (\<lambda>_. Some (app_v1 app)),
     cd_marshal = (\<lambda>_. Some [1])\<rparr>"

abbreviation example_codec :: codec where
  "example_codec \<equiv> app_codec ''app''"

definition example_tick :: router_event where
  "example_tick = Repeat 0 (\<lambda>_ _ _. 0)"

text \<open>
  A subscriber to the logs of a source (or of all sources, when the name is empty); one log of the source is received,
  read from the diode, published, set and read.
\<close>

definition source_events :: "string \<Rightarrow> router_event list" where
  "source_events src = [Open (log_request [] src), Subscribe 0 7, Ingest [source_log src],
     example_tick, example_tick, example_tick, example_tick, Read 0]"

definition source_obs :: "string \<Rightarrow> router_obs list" where
  "source_obs src = [OSubscribed 0 \<lparr>Selector_SourceId = src, Selector_Message = Some Selector_Log\<rparr>, OIngested [source_log src],
     V1Ingested [], OTaken (source_log src), OPublished (source_log src), OGot 0 (source_log src)]"

abbreviation example_events :: "router_event list" where
  "example_events \<equiv> source_events []"

abbreviation example_obs :: "router_obs list" where
  "example_obs \<equiv> source_obs []"

lemma example_bounds:
  "run_bounds example_config example_codec (source_events src)" "\<forall>ev \<in> set (source_events src). draws_ok ev"
  "fed example_codec (source_events src) = [source_log src]"
  by (simp_all add: example_config_def app_codec_def source_events_def example_tick_def draws_ok_def run_defs run_bounds_def)

lemma example_publish:
  assumes "v2_run {#(([if src = [] then 0 else hashString src, 4], []), i, \<lparr>sc_sourceID = src, sc_setter = 0 :: nat\<rparr>, [])#} n"
  shows "v2_Publish r (\<lambda>_ _ _. 0) (source_log src) n = Some (Inr [(0, (source_log src))])"
proof -
  let ?L = "{#(([if src = [] then 0 else hashString src, 4], []), i, \<lparr>sc_sourceID = src, sc_setter = 0 :: nat\<rparr>, [])#} :: nat live multiset"
  have p: "[if src = [] then 0 else hashString src, 4] \<in> set (envelope_paths (source_log src))"
    by (simp add: source_log_def envelope_paths_def message_paths_def)
  from publish_to [OF assms, of "\<lambda>_ _ _. 0" r "source_log src"] obtain calls where
    calls: "v2_Publish r (\<lambda>_ _ _. 0) (source_log src) n = Some (Inr calls)" "\<forall>c \<in> set calls. snd c = (source_log src)"
    and all: "\<And>w. length (filter (\<lambda>c. fst c = w) calls) =
      size (filter_mset (\<lambda>x. setter x = w \<and> fst (fst x) \<in> set (envelope_paths (source_log src)) \<and> guard (source_log src) x) ?L)"
    by (auto simp: Let_def)
  have cnt: "length (filter (\<lambda>c. fst c = 0) calls) = 1" "\<And>w. w \<noteq> 0 \<Longrightarrow> length (filter (\<lambda>c. fst c = w) calls) = 0"
    unfolding all using p by (simp_all add: source_matches_def source_log_def)
  have "\<forall>c \<in> set calls. fst c = 0"
  proof
    fix c assume "c \<in> set calls"
    then have "filter (\<lambda>c'. fst c' = fst c) calls \<noteq> []" by (auto simp: filter_empty_conv)
    with cnt(2) [of "fst c"] show "fst c = 0" by auto
  qed
  then have "filter (\<lambda>c. fst c = 0) calls = calls" by (simp add: filter_id_conv)
  with cnt(1) have "length calls = 1" by simp
  then obtain c where "calls = [c]" by (auto simp: length_Suc_conv)
  with calls \<open>\<forall>c \<in> set calls. fst c = 0\<close> show ?thesis by (cases c) auto
qed

lemma router_example_run:
  "\<exists>s0 s d1 d2. Router_Start example_client example_config = Inr s0 \<and>
     router_run example_codec (source_events src) s0 = Some (Inr (s, source_obs src)) \<and>
     rs_repeater s = RPoll \<and> ManyToOne_TryNext (is_v2Buf (rs_ingress s)) = Inr (d1, None, []) \<and>
     length (rs_streams s) = 1 \<and> sm_req (rs_streams s ! 0) = log_request [] src \<and>
     OneToOne_TryNext (sm_diode (rs_streams s ! 0)) = Inr (d2, None, [])"
proof -
  let ?e = "source_log src" and ?req = "log_request [] src"
  let ?sel = "\<lparr>Selector_SourceId = src, Selector_Message = Some Selector_Log\<rparr>"
  define i0 :: "v1_Envelope IngressServer" where
    "i0 = NewIngressServer (NewManyToOneEnvelope 2) (NewManyToOneEnvelopeV2 2) (Client_NewCounter ''ingress'' [WithVersion 2 0] example_client)"
  obtain s0 where s0: "Router_Start example_client example_config = Inr s0"
    "rs_ingress s0 = i0" "rs_pubsub s0 = Node_New" "rs_repeater s0 = RPoll" "rs_streams s0 = []"
    by (simp add: Router_Start_def example_config_def make_len_def Config_zero_def i0_def)
  obtain h n where sub: "v2_Subscribe_loop (\<lambda>_. 7) 0 ?req 0 [?sel] Node_New = Some (Inr ([(([if src = [] then 0 else hashString src, 4], []), h)], n))"
    and n: "v2_run {#(([if src = [] then 0 else hashString src, 4], []), h, \<lparr>sc_sourceID = src, sc_setter = 0 :: nat\<rparr>, [])#} n"
    using log_request_subscribe [OF v2_run_start, of "\<lambda>_. 7" "[]" src "0 :: nat"]
    by (auto simp: v2_Subscribe_def log_request_def)
  have "ingress_holds [] 0 [] 0 0 i0" unfolding i0_def by (rule ingress_new) (simp_all add: Client_NewCounter_def NewCounter_def)
  from ingress_batch_spec [OF this, of "\<lambda>_. []" "[?e]" has_event_type] obtain i where
    i: "ingress_batch (\<lambda>_. []) has_event_type [?e] i0 = Some (Inr i)" "mto_holds [Some ?e] 0 (is_v2Buf i)"
    by (auto simp: ingress_holds_def)
  from mto.next_some [OF i(2)] obtain d where d: "ManyToOne_TryNext (is_v2Buf i) = Inr (d, Some (Some ?e), [])"
    "mto_holds [Some ?e] 1 d" by auto
  from mto.next_empty [OF d(2)] obtain d1 where d1: "ManyToOne_TryNext d = Inr (d1, None, [])" by auto
  have "oto_inv [] 0 (NewOneToOne 1000 :: Envelope option OneToOne)" by (rule oto_inv_new) simp_all
  from oto.set_inv [OF this, of "Some ?e"] obtain q where q: "OneToOne_Set (Some ?e) (NewOneToOne 1000) = Inr q" "oto_inv [Some ?e] 0 q"
    by auto
  from oto.next_some [OF q(2)] obtain q1 where q1: "OneToOne_TryNext q = Inr (q1, Some (Some ?e), [])" "oto_inv [Some ?e] 1 q1" by auto
  from oto.next_empty [OF q1(2)] obtain d2 where d2: "OneToOne_TryNext q1 = Inr (d2, None, [])" by auto
  show ?thesis
    using s0 sub i(1) d(1) d1 q(1) q1(1) d2 example_publish [OF n, of 0]
    by (simp add: source_events_def example_tick_def source_obs_def app_codec_def v1_of_def router_step_def router_open_def router_subscribe_def
        locked_def router_ingest_def router_repeat_def repeater_poll_def repeater_set_def router_read_def alerted_def
        NewOneToOneWaiterEnvelopeV2_def NewWaiter_def Let_def log_request_def [of "[]" src, THEN arg_cong, of ebr_Selectors, simplified])
qed

section \<open>Properties of the v2 path\<close>



text \<open>
  C12. Nothing is lost between the ingress diode and a stream that keeps up: when the repeater waits for the ingress diode,
  it has published exactly the envelopes that it took from it, in order; and when moreover a stream without a shard finds
  nothing more in its own diode, every envelope that it asks for was read by it or reported as dropped, and if its diode
  reported no drop it read exactly what it asks for, in order, once per selector. (What the ingress diode itself may lose to
  writers that overlap is not part of this statement.)
\<close>

theorem router_v2_delivers_all:
  assumes "run_bounds c cd evs" and "\<forall>ev \<in> set evs. draws_ok ev"
    and start: "Router_Start metricClient c = Inr s0" and run: "router_run cd evs s0 = Some (Inr (s, os))"
    and idle: "rs_repeater s = RPoll"
    and w: "w < length (rs_streams s)" "ebr_ShardId (sm_req (rs_streams s ! w)) = []"
    and read: "OneToOne_TryNext (sm_diode (rs_streams s ! w)) = Inr (d, None, al)"
  shows "published os = taken os \<and>
    int (length (got w os)) + egress_dropped w os = int (length (wanted w os)) \<and>
    (egress_dropped w os = 0 \<longrightarrow> got w os = wanted w os)"
proof -
  have inv: "router_inv os s"
    using router_from_start [OF assms(1,2), of metricClient] start run by (auto simp: both_inv_def)
  from inv idle have p: "published os = taken os"
    by (auto simp: router_inv_def ingress_inv_def publishing_def)
  from inv w idle have f: "feeds Some (wanted w os) True [] (got w os) (egress_dropped w os) (sm_diode (rs_streams s ! w))"
    by (auto simp: router_inv_def streams_inv_def stream_ok_def pending_def pending_for_def)
  show ?thesis using p feeds_drained [OF f read] by blast
qed

lemma example_wanted:
  "published example_obs = [example_log]" "wanted 0 example_obs = [example_log]" "ingress_dropped example_obs = 0"
  "egress_dropped 0 example_obs = 0" "got 0 example_obs = [example_log]"
  by (simp_all add: source_obs_def obs_simps wanted_def asked_def selector_asks_def source_matches_def source_log_def)

theorem router_v2_delivers_all_witness:
  "published example_obs = taken example_obs \<and> got 0 example_obs = wanted 0 example_obs \<and> wanted 0 example_obs = [example_log]"
proof -
  obtain s0 s d2 where run: "Router_Start example_client example_config = Inr s0"
    "router_run example_codec example_events s0 = Some (Inr (s, example_obs))" "rs_repeater s = RPoll"
    and st: "length (rs_streams s) = 1" "sm_req (rs_streams s ! 0) = log_request [] []"
      "OneToOne_TryNext (sm_diode (rs_streams s ! 0)) = Inr (d2, None, [])"
    using router_example_run by blast
  show ?thesis
    using router_v2_delivers_all [OF example_bounds(1,2) run, of 0] st example_wanted(2,4) by (simp add: log_request_sel)
qed

lemma stream_sends_wanted:
  assumes "run_bounds c cd evs" and "\<forall>ev \<in> set evs. draws_ok ev"
    and "Router_Start metricClient c = Inr s0" and "router_run cd evs s0 = Some (Inr (s, os))"
    and loop: "BatchedReceiver_loop toUint64 one cs (BatchedReceiver_start toUint64 one sz interval now egress subs) = Some st"
    and pre: "prefix (st_got st) (got w os)"
  shows "subseq (concat (st_tried st) @ bt_batch (st_batcher st)) (wanted w os) \<and>
    subseq (concat (st_sent st)) (wanted w os)"
proof -
  have "router_inv os s" using router_from_start [OF assms(1,2), of metricClient] assms(3,4) by (auto simp: both_inv_def)
  then have g: "subseq (got w os) (wanted w os)"
    using stream_ok_read(1) by (cases "w < length (rs_streams s)") (auto simp: router_inv_def streams_inv_def unborn_def)
  have "stream_inv toUint64 one sz egress subs (BatchedReceiver_start toUint64 one sz interval now egress subs)"
    unfolding BatchedReceiver_start_def NewV2EnvelopeBatcher_def by (rule stream_inv_enter)
  from BatchedReceiver_inv [OF loop this] have st: "concat (st_tried st) @ bt_batch (st_batcher st) = st_got st"
    "subseq (st_sent st) (st_tried st)" by (auto simp: stream_inv_def)
  have "subseq (st_got st) (wanted w os)" using pre g by (meson prefix_imp_subseq subseq_order.trans)
  moreover have "subseq (concat (st_sent st)) (concat (st_tried st))" by (rule subseq_concat [OF st(2)])
  moreover have "subseq (concat (st_tried st)) (st_got st)" unfolding st(1) [symmetric] by (rule prefix_imp_subseq) simp
  ultimately show ?thesis unfolding st(1) by (meson subseq_order.trans)
qed

text \<open>
  What is sent: every batch that \<open>BatchedReceiver\<close> passes to \<open>Send\<close>, and the batch that it is filling,
  hold envelopes that the request of its stream asks for, in the order in which they were published.
\<close>

theorem router_v2_sends_wanted:
  assumes "run_bounds c cd evs" and "\<forall>ev \<in> set evs. draws_ok ev"
    and "Router_Start metricClient c = Inr s0" and "router_run cd evs s0 = Some (Inr (s, os))"
    and loop: "BatchedReceiver_loop toUint64 one cs (BatchedReceiver_start toUint64 one sz interval now egress subs) = Some st"
    and pre: "prefix (st_got st) (got w os)"
  shows "subseq (concat (st_tried st) @ bt_batch (st_batcher st)) (wanted w os) \<and>
    subseq (concat (st_sent st)) (wanted w os)"
  using stream_sends_wanted [OF assms] .

lemma example_receiver:
  "BatchedReceiver_loop (\<lambda>x. x) 100 [SelEnv e 0 0 None]
     (BatchedReceiver_start (\<lambda>x. x) 100 1 100 0 (NewCounter ''egress'' ''doppler'' []) (NewGauge ''subs'' ''n'' ''doppler'' [])) =
   Some \<lparr>st_batcher = \<lparr>bt_size = 1, bt_interval = 100, bt_batch = [], bt_lastSent = 0\<rparr>, st_errStream = None,
     st_egress = (NewCounter ''egress'' ''doppler'' [])\<lparr>mc_delta := 1\<rparr>,
     st_subscriptions = (NewGauge ''subs'' ''n'' ''doppler'' [])\<lparr>mg_value := 100\<rparr>,
     st_status = Running, st_got = [e], st_tried = [[e]], st_sent = [[e]]\<rparr>"
  by (simp add: BatchedReceiver_select_def BatchedReceiver_start_def NewV2EnvelopeBatcher_def NewBatcher_def
      enter_stream_def batched_def V2EnvelopeBatcher_Write_def Batcher_Write_def writeBatch_def
      partialBatch_def partialInterval_def batchWriter_Write_def NewCounter_def NewGauge_def
      Counter_Increment_def Gauge_Increment_def)

theorem router_v2_sends_wanted_witness:
  "subseq (concat [[example_log]]) (wanted 0 example_obs)"
proof -
  obtain s0 s where run: "Router_Start example_client example_config = Inr s0"
    "router_run example_codec example_events s0 = Some (Inr (s, example_obs))"
    using router_example_run by blast
  show ?thesis
    using router_v2_sends_wanted [OF example_bounds(1,2) run example_receiver [of example_log], of 0] example_wanted(5) by simp
qed

text \<open>
  C36. The configuration does not check the buffer sizes: a router whose environment has no
  \<open>INGRESS_BUFFER_SIZE\<close> passes the validation and starts, and the first envelope it receives makes it panic
  with a division by zero.
\<close>

theorem router_zero_buffer_panics:
  assumes "gc_CAFile (rc_GRPC conf) \<noteq> []" and "gc_CertFile (rc_GRPC conf) \<noteq> []" and "gc_KeyFile (rc_GRPC conf) \<noteq> []"
    and "rc_IngressBufferSize conf = 0" and "load (Config_zero\<lparr>rc_MetricBatchIntervalMilliseconds := 5000, rc_MetricSourceID := ''doppler''\<rparr>) = Inr conf"
  shows "\<exists>c s0. router_main load = Inr c \<and> Router_Start metricClient c = Inr s0 \<and>
    router_run cd [Ingest (e # es)] s0 = Some (Inl DivideByZero)"
  using assms
  by (auto simp: router_main_def LoadConfig_def Config_validate_def app_NewRouter_def WithBufferSizes_def
      WithMetricReporting_def Router_Start_def make_len_def router_step_def router_ingest_def ingress_envelope_def
      ManyToOneEnvelopeV2_Set_def NewIngressServer_def NewManyToOneEnvelopeV2_def NewManyToOne_def
      ManyToOne_Set.simps [of _ _ 0] Let_def mto_add_def)

theorem router_zero_buffer_panics_witness:
  "\<exists>c s0. router_main (\<lambda>c. Inr (c\<lparr>rc_GRPC := \<lparr>gc_Port = 8082, gc_CertFile = ''crt'', gc_KeyFile = ''key'', gc_CAFile = ''ca'', gc_CipherSuites = []\<rparr>\<rparr>)) = Inr c \<and>
    Router_Start example_client c = Inr s0 \<and>
    router_run example_codec [Ingest [example_log]] s0 = Some (Inl DivideByZero)"
  by (rule router_zero_buffer_panics [where conf = "Config_zero\<lparr>rc_MetricBatchIntervalMilliseconds := 5000,
      rc_MetricSourceID := ''doppler'', rc_GRPC := \<lparr>gc_Port = 8082, gc_CertFile = ''crt'', gc_KeyFile = ''key'',
      gc_CAFile = ''ca'', gc_CipherSuites = []\<rparr>\<rparr>"]) (simp_all add: Config_zero_def)

text \<open>The batches that one stream of a router has sent, and the envelopes that its request asks for.\<close>

definition router_serves :: "Envelope list list \<Rightarrow> Envelope list \<Rightarrow> bool" where
  "router_serves batches asks \<longleftrightarrow>
     (\<exists>metricClient c cd evs s0 s os w toUint64 one sz interval now egress subs cs st.
        run_bounds c cd evs \<and> (\<forall>ev \<in> set evs. draws_ok ev) \<and>
        Router_Start metricClient c = Inr s0 \<and> router_run cd evs s0 = Some (Inr (s, os)) \<and>
        BatchedReceiver_loop toUint64 one cs (BatchedReceiver_start toUint64 one sz interval now egress subs) = Some st \<and>
        prefix (st_got st) (got w os) \<and> batches = st_sent st \<and> asks = wanted w os)"

lemma router_serves_wanted: "router_serves batches asks \<Longrightarrow> subseq (concat batches) asks"
  unfolding router_serves_def using stream_sends_wanted by blast

lemma router_servesI:
  assumes "run_bounds c cd evs" and "\<forall>ev \<in> set evs. draws_ok ev"
    and "Router_Start metricClient c = Inr s0" and "router_run cd evs s0 = Some (Inr (s, os))"
    and "BatchedReceiver_loop toUint64 one cs (BatchedReceiver_start toUint64 one sz interval now egress subs) = Some st"
    and "prefix (st_got st) (got w os)"
  shows "router_serves (st_sent st) (wanted w os)"
  using assms unfolding router_serves_def by blast

lemma router_serves_example: "router_serves [[example_log]] [example_log]"
proof -
  obtain s0 s where run: "Router_Start example_client example_config = Inr s0"
    "router_run example_codec example_events s0 = Some (Inr (s, example_obs))"
    using router_example_run by blast
  from router_servesI [OF example_bounds(1,2) run example_receiver [of example_log], of 0] show ?thesis by (simp add: example_wanted)
qed

section \<open>Properties of the v1 path\<close>

text \<open>A v1 stream of one application; one payload is pushed, read, sent, set and read.\<close>

definition app_request :: "string \<Rightarrow> SubscriptionRequest" where
  "app_request app = \<lparr>sr_ShardID = [], sr_Filter = Some \<lparr>Filter_AppID = app, Filter_Message = None\<rparr>\<rparr>"

lemma app_request_key [simp]:
  "convertFilter (app_request app) = \<lparr>f_appID = app, f_envelopeType = noType\<rparr>" "sr_ShardID (app_request app) = []"
  by (simp_all add: app_request_def convertFilter_def)

definition app_events :: "string \<Rightarrow> router_event list" where
  "app_events app = [V1Open (app_request app), V1Register 0, Push [7], Route (\<lambda>_ _ _. 0), Route (\<lambda>_ _ _. 0),
     Route (\<lambda>_ _ _. 0), Route (\<lambda>_ _ _. 0), V1Read 0]"

definition app_obs :: "string \<Rightarrow> router_obs list" where
  "app_obs app = [V1Registered 0 (app_request app), OIngested [example_log], V1Ingested [app_v1 app],
     V1Taken (app_v1 app), V1Sent (app_v1 app), V1Got 0 [1]]"

lemma example_v1_bounds:
  "run_bounds example_config (app_codec app) (app_events app)" "\<forall>ev \<in> set (app_events app). draws_ok ev"
  "v1_fed (app_codec app) (app_events app) = [app_v1 app]"
  by (simp_all add: example_config_def app_codec_def app_events_def draws_ok_def run_defs run_bounds_def)

lemma example_v1_send:
  "app \<noteq> [] \<Longrightarrow> SendTo (\<lambda>_. Some [1]) (\<lambda>_ _ _. 0) app (app_v1 app) (registerSetter (app_request app) (0 :: nat) NewRouter) = Inr [(0, [1])]"
  by (simp add: SendTo_def app_v1_def createTypedFilters_def filterTypeFromEnvelope_def GetEventType_def shards_of_def
      registerSetter_def NewRouter_def setters_of_def writeToShard_def Let_def)

lemma router_v1_example_run:
  assumes "app \<noteq> []"
  shows "\<exists>s0 s d1 d2. Router_Start example_client example_config = Inr s0 \<and>
     router_run (app_codec app) (app_events app) s0 = Some (Inr (s, app_obs app)) \<and>
     rs_messageRouter s = MPoll \<and> ManyToOne_TryNext (is_v1Buf (rs_ingress s)) = Inr (d1, None, []) \<and>
     length (rs_v1Streams s) = 1 \<and> vt_req (rs_v1Streams s ! 0) = app_request app \<and>
     OneToOne_TryNext (vt_diode (rs_v1Streams s ! 0)) = Inr (d2, None, [])"
proof -
  let ?e = "app_v1 app"
  define i0 :: "v1_Envelope IngressServer" where
    "i0 = NewIngressServer (NewManyToOneEnvelope 2) (NewManyToOneEnvelopeV2 2) (Client_NewCounter ''ingress'' [WithVersion 2 0] example_client)"
  obtain s0 where s0: "Router_Start example_client example_config = Inr s0"
    "rs_ingress s0 = i0" "rs_v1Router s0 = NewRouter" "rs_messageRouter s0 = MPoll" "rs_v1Streams s0 = []"
    "ds_bufferSize (rs_v1Egress s0) = 2"
    by (simp add: Router_Start_def example_config_def make_len_def Config_zero_def i0_def NewDopplerServer_def)
  have "ingress_holds [] 0 [] 0 0 i0" unfolding i0_def by (rule ingress_new) (simp_all add: Client_NewCounter_def NewCounter_def)
  from push_spec [OF this, of "\<lambda>_. Some ?e" "[7]" ?e "\<lambda>_. example_log" "[]"] obtain i where
    i: "IngestorServer_Pusher (\<lambda>_. Some ?e) (\<lambda>_. example_log) [] [(False, RecvData [7])] i0 = Some (Inr (i, None))"
      "mto_holds [Some ?e] 0 (is_v1Buf i)"
    by (auto simp: ingress_holds_def)
  from mto.next_some [OF i(2)] obtain d where d: "ManyToOne_TryNext (is_v1Buf i) = Inr (d, Some (Some ?e), [])"
    "mto_holds [Some ?e] 1 d" by auto
  from mto.next_empty [OF d(2)] obtain d1 where d1: "ManyToOne_TryNext d = Inr (d1, None, [])" by auto
  have "oto_inv [] 0 (NewOneToOne 2 :: bytes OneToOne)" by (rule oto_inv_new) simp_all
  from oto.set_inv [OF this, of "[1]"] obtain q where
    q: "OneToOne_Set ([1] :: bytes) (NewOneToOne 2) = Inr q" "oto_inv [[1] :: bytes] 0 q" by auto
  from oto.next_some [OF q(2)] obtain q1 where q1: "OneToOne_TryNext q = Inr (q1, Some [1], [])" "oto_inv [[1]] 1 q1" by auto
  from oto.next_empty [OF q1(2)] obtain d2 where d2: "OneToOne_TryNext q1 = Inr (d2, None, [])" by auto
  have "getAppId ?e = app" by (simp add: getAppId_def app_v1_def GetEventType_def)
  with s0 i(1) d(1) d1 q(1) q1(1) d2 example_v1_send [OF assms] show ?thesis
    by (simp add: app_events_def app_obs_def app_codec_def router_step_def v1_open_def make_len_def
        v1_register_def v1_locked_def Router_Register_def router_push_def router_route_def message_router_poll_def
        message_router_set_def v1_read_def alerted_def diodes_NewOneToOne_def diodes_OneToOne_Set_def diodes_OneToOne_TryNext_def
        typed_try_def Let_def del: IngestorServer_Pusher.simps)
qed

text \<open>What a v1 stream reads.\<close>

lemma v1_stream_reads:
  assumes inv: "v1_path_inv cd os s"
  shows "subseq (v1_got w os) (v1_wanted cd w os) \<and>
    int (length (v1_got w os)) + v1_egress_dropped w os \<le> int (length (v1_wanted cd w os)) \<and>
    (w < length (rs_v1Streams s) \<and> sr_ShardID (vt_req (rs_v1Streams s ! w)) = [] \<and> v1_egress_dropped w os = 0 \<longrightarrow>
       prefix (v1_got w os) (v1_wanted cd w os))"
proof (cases "w < length (rs_v1Streams s)")
  case True
  with inv have "feeds id (v1_wanted cd w os) (sr_ShardID (vt_req (rs_v1Streams s ! w)) = []) (pending_for w (v1_pending s))
      (v1_got w os) (v1_egress_dropped w os) (vt_diode (rs_v1Streams s ! w))"
    by (simp add: v1_path_inv_def v1_streams_inv_def v1_stream_ok_def)
  from feeds_result [OF this] show ?thesis by blast
next
  case False
  then have "v1_unborn cd w os" using inv by (simp add: v1_path_inv_def v1_streams_inv_def)
  with False show ?thesis by (simp add: v1_unborn_def)
qed



text \<open>
  C13. The same on the v1 path: when the message router waits for the v1 ingress diode, it has sent to the streams exactly the
  envelopes that it took from it, in order; and when moreover a stream without a shard finds nothing more in its own diode,
  all the data that it asks for was read by it or reported as dropped, and if its diode reported no drop it read exactly what
  it asks for, in order. (What the ingress diode itself may lose to writers that overlap is not part of this statement.)
\<close>

theorem router_v1_delivers_all:
  assumes "run_bounds c cd evs" and "\<forall>ev \<in> set evs. draws_ok ev"
    and start: "Router_Start metricClient c = Inr s0" and run: "router_run cd evs s0 = Some (Inr (s, os))"
    and idle: "rs_messageRouter s = MPoll"
    and w: "w < length (rs_v1Streams s)" "sr_ShardID (vt_req (rs_v1Streams s ! w)) = []"
    and read: "OneToOne_TryNext (vt_diode (rs_v1Streams s ! w)) = Inr (d, None, al)"
  shows "v1_sent os = v1_taken os \<and>
    int (length (v1_got w os)) + v1_egress_dropped w os = int (length (v1_wanted cd w os)) \<and>
    (v1_egress_dropped w os = 0 \<longrightarrow> v1_got w os = v1_wanted cd w os)"
proof -
  have inv: "router_inv os s" "v1_path_inv cd os s"
    using router_from_start [OF assms(1,2), of metricClient] start run by (auto simp: both_inv_def)
  from inv(1) idle have p: "v1_sent os = v1_taken os"
    by (auto simp: router_inv_def ingress_inv_def sending_def)
  from inv(2) w idle have f: "feeds id (v1_wanted cd w os) True [] (v1_got w os) (v1_egress_dropped w os) (vt_diode (rs_v1Streams s ! w))"
    by (auto simp: v1_path_inv_def v1_streams_inv_def v1_stream_ok_def v1_pending_def pending_for_def)
  show ?thesis using p feeds_drained [OF f read] by blast
qed

lemma example_v1_wanted:
  "v1_sent (app_obs app) = [app_v1 app]" "v1_wanted (app_codec app) 0 (app_obs app) = [[1]]"
  "v1_ingress_dropped (app_obs app) = 0" "v1_egress_dropped 0 (app_obs app) = 0"
  by (simp_all add: app_obs_def v1_obs_simps v1_wanted_def v1_asked_def filter_matches_def
      filterTypeFromEnvelope_def getAppId_def GetEventType_def app_v1_def app_codec_def)

theorem router_v1_delivers_all_witness:
  "v1_sent (app_obs ''app'') = v1_taken (app_obs ''app'') \<and> v1_got 0 (app_obs ''app'') = [[1]]"
proof -
  obtain s0 s d2 where run: "Router_Start example_client example_config = Inr s0"
    "router_run example_codec (app_events ''app'') s0 = Some (Inr (s, app_obs ''app''))" "rs_messageRouter s = MPoll"
    and st: "length (rs_v1Streams s) = 1" "vt_req (rs_v1Streams s ! 0) = app_request ''app''"
      "OneToOne_TryNext (vt_diode (rs_v1Streams s ! 0)) = Inr (d2, None, [])"
    using router_v1_example_run [of "''app''"] by auto
  show ?thesis
    using router_v1_delivers_all [OF example_v1_bounds(1,2) run, of 0] st example_v1_wanted by simp
qed

text \<open>
  The ingress diodes of the runs of this model, in which the calls of \<open>Set\<close> do not overlap: when the goroutine that drains
  one finds it empty, everything that was set is published or reported. Overlapping calls can break this: see the
  run of two writers on the first lap in \<open>Diodes\<close>.
\<close>

lemma ingress_drained:
  assumes "run_bounds c cd evs" and "\<forall>ev \<in> set evs. draws_ok ev"
    and run: "Router_Start metricClient c = Inr s0" "router_run cd evs s0 = Some (Inr (s, os))"
  shows "rs_repeater s = RPoll \<Longrightarrow> ManyToOne_TryNext (is_v2Buf (rs_ingress s)) = Inr (d, None, al) \<Longrightarrow>
      int (length (published os)) + ingress_dropped os = int (length (fed cd evs))"
    and "rs_messageRouter s = MPoll \<Longrightarrow> ManyToOne_TryNext (is_v1Buf (rs_ingress s)) = Inr (d', None, al') \<Longrightarrow>
      int (length (v1_sent os)) + v1_ingress_dropped os = int (length (v1_fed cd evs))"
proof -
  have fed: "ingested os = fed cd evs" "v1_ingested os = v1_fed cd evs" and inv: "router_inv os s"
    using router_from_start [OF assms(1,2), of metricClient] run by (auto simp: both_inv_def)
  from inv obtain r1 r2 where
    v2: "mto_holds (map Some (fed cd evs)) r2 (is_v2Buf (rs_ingress s))" "taken_from (fed cd evs) (taken os) (ingress_dropped os) r2"
    and v1: "mto_holds (map Some (v1_fed cd evs)) r1 (is_v1Buf (rs_ingress s))"
      "taken_from (v1_fed cd evs) (v1_taken os) (v1_ingress_dropped os) r1"
    and idle: "rs_repeater s = RPoll \<longrightarrow> published os = taken os" "rs_messageRouter s = MPoll \<longrightarrow> v1_sent os = v1_taken os"
    by (auto simp: router_inv_def ingress_inv_def ingress_holds_def publishing_def sending_def fed [symmetric])
  show "rs_repeater s = RPoll \<Longrightarrow> ManyToOne_TryNext (is_v2Buf (rs_ingress s)) = Inr (d, None, al) \<Longrightarrow>
      int (length (published os)) + ingress_dropped os = int (length (fed cd evs))"
    using taken_from_result(3) [OF v2] idle(1) by simp
  show "rs_messageRouter s = MPoll \<Longrightarrow> ManyToOne_TryNext (is_v1Buf (rs_ingress s)) = Inr (d', None, al') \<Longrightarrow>
      int (length (v1_sent os)) + v1_ingress_dropped os = int (length (v1_fed cd evs))"
    using taken_from_result(3) [OF v1] idle(2) by simp
qed

section \<open>What the v1 streams of a router send\<close>

text \<open>The batches that one v1 stream of a router has sent, and the data that its request asks for.\<close>

definition router_v1_serves :: "bytes list list \<Rightarrow> bytes list \<Rightarrow> bool" where
  "router_v1_serves batches asks \<longleftrightarrow>
     (\<exists>metricClient c cd evs s0 s os w toUint64 one sz interval now rds r egress subs st.
        run_bounds c cd evs \<and> (\<forall>ev \<in> set evs. draws_ok ev) \<and>
        Router_Start metricClient c = Inr s0 \<and> router_run cd evs s0 = Some (Inr (s, os)) \<and> w < length (rs_v1Streams s) \<and>
        st = snd (DopplerServer_BatchSubscribe toUint64 one sz interval now (vt_req (rs_v1Streams s ! w)) w rds (r, egress, subs)) \<and>
        prefix (st_got st) (v1_got w os) \<and> batches = st_sent st \<and> asks = v1_wanted cd w os)"

lemma BatchSubscribe_stream_inv:
  "stream_inv f one sz egress subs (snd (DopplerServer_BatchSubscribe f one sz interval now req w rds (r, egress, subs)))"
  using BatchSubscribe_inv [OF stream_inv_enter, of f one sz interval now egress subs rds]
  by (simp add: DopplerServer_BatchSubscribe_def sendBatchData_loop_def Router_Register_def enter_stream_def Let_def)

lemma router_v1_serves_wanted:
  assumes "router_v1_serves batches asks"
  shows "subseq (concat batches) asks"
proof -
  from assms obtain metricClient c cd evs s0 s os w f one sz interval now rds r egress subs st where
    run: "run_bounds c cd evs" "\<forall>ev \<in> set evs. draws_ok ev" "Router_Start metricClient c = Inr s0" "router_run cd evs s0 = Some (Inr (s, os))"
    and st: "st = snd (DopplerServer_BatchSubscribe f one sz interval now (vt_req (rs_v1Streams s ! w)) w rds (r, egress, subs))"
    and pre: "prefix (st_got st) (v1_got w os)" and eqs: "batches = st_sent st" "asks = v1_wanted cd w os"
    unfolding router_v1_serves_def by blast
  have "v1_path_inv cd os s" using router_from_start [OF run(1,2), of metricClient] run(3,4) by (auto simp: both_inv_def)
  then have "subseq (v1_got w os) asks" using v1_stream_reads eqs(2) by blast
  moreover have i: "concat (st_tried st) @ bt_batch (st_batcher st) = st_got st" "subseq (st_sent st) (st_tried st)"
    using BatchSubscribe_stream_inv [of f one sz egress subs interval now _ w rds r] unfolding st stream_inv_def by blast+
  moreover have "subseq (concat (st_tried st)) (st_got st)" unfolding i(1) [symmetric] by (rule prefix_imp_subseq) simp
  ultimately show ?thesis using subseq_concat [OF i(2)] pre unfolding eqs(1) by (meson prefix_imp_subseq subseq_order.trans)
qed

lemma router_v1_servesI:
  assumes "run_bounds c cd evs" and "\<forall>ev \<in> set evs. draws_ok ev"
    and "Router_Start metricClient c = Inr s0" and "router_run cd evs s0 = Some (Inr (s, os))" and "w < length (rs_v1Streams s)"
    and "prefix (st_got (snd (DopplerServer_BatchSubscribe toUint64 one sz interval now (vt_req (rs_v1Streams s ! w)) w rds (r, egress, subs))))
      (v1_got w os)"
  shows "router_v1_serves
    (st_sent (snd (DopplerServer_BatchSubscribe toUint64 one sz interval now (vt_req (rs_v1Streams s ! w)) w rds (r, egress, subs))))
    (v1_wanted cd w os)"
  using assms unfolding router_v1_serves_def by blast

definition app_batches :: "string \<Rightarrow> (bytes, string) stream_state" where
  "app_batches app = snd (DopplerServer_BatchSubscribe (\<lambda>x. x) 100 1 100 0 (app_request app) (0 :: nat)
      [\<lparr>br_ctx = None, br_errFirst = False, br_data = Some [1], br_now = 0, br_now' = 0, br_err = None\<rparr>]
      (NewRouter, NewCounter ''egress'' ''doppler'' [], NewGauge ''subs'' ''n'' ''doppler'' []))"

lemma app_batches_sent: "st_got (app_batches app) = [[1]]" "st_sent (app_batches app) = [[[1]]]"
  by (simp_all add: app_batches_def DopplerServer_BatchSubscribe_def sendBatchData_loop_def sendBatchData_round_def Router_Register_def
      enter_stream_def NewBatcher_def batched_def Batcher_Write_def writeBatch_def partialBatch_def partialInterval_def batchWriter_Write_def
      Counter_Increment_def Let_def)

lemma app_batches_prefix: "prefix (st_got (app_batches app)) (v1_got 0 (app_obs app))"
  unfolding app_batches_sent by (simp add: app_obs_def v1_obs_simps)

lemma router_v1_serves_example: "router_v1_serves [[[1]]] [[1]]"
proof -
  obtain s0 s where run: "Router_Start example_client example_config = Inr s0"
    "router_run example_codec (app_events ''app'') s0 = Some (Inr (s, app_obs ''app''))" "length (rs_v1Streams s) = 1"
    "vt_req (rs_v1Streams s ! 0) = app_request ''app''"
    using router_v1_example_run [of "''app''"] by auto
  have w: "0 < length (rs_v1Streams s)" using run(3) by simp
  from router_v1_servesI [OF example_v1_bounds(1,2) run(1,2) w app_batches_prefix [of "''app''", unfolded app_batches_def, folded run(4)]]
  show ?thesis unfolding run(4) app_batches_def [symmetric] app_batches_sent(2) example_v1_wanted(2) .
qed

end
