(* ===== verification/Connector.thy ===== *)
theory Connector
  imports Batching
begin

text \<open>
  The connectors that keep streams from every consumer to every router: \<open>plumbing/grpc_connector.go\<close> (v1,
  used by the traffic controller) and \<open>rlp/internal/ingress/grpc_connector.go\<close> (v2, used by the reverse
  log proxy), with their finder.

  Clients and consumers are pointers in the source, shared between the connector and the goroutines, so
  they live in heaps here and are named by their addresses. The pool is an interface that is only called:
  the calls are recorded. \<open>go c.consumeSubscription(cs, client)\<close> adds a task to \<open>c_spawned\<close>; the goroutine
  enters the set of addresses of its consumer later (\<open>consume_enter\<close>), then counts itself
  (\<open>consume_count\<close>), and ends at some point (\<open>consume_exit\<close>). What runs under the lock of the connector is
  one step, and so is each atomic operation outside of it.
\<close>

section \<open>State\<close>

record dopplerClientInfo =
  ci_uri :: string
  ci_disconnect :: bool
  ci_refCount :: int

record consumerState =
  cs_dead :: bool
  cs_dopplers :: "string set"

datatype pool_call = PoolRegister string | PoolClose string

record connector =
  c_heap :: "nat \<Rightarrow> dopplerClientInfo"
  c_next :: nat
  c_clients :: "nat list"
  c_cheap :: "nat \<Rightarrow> consumerState"
  c_cnext :: nat
  c_consumerStates :: "nat option list"
  c_pool :: "pool_call list"
  c_spawned :: "(nat \<times> nat) list"
  c_entered :: "(nat \<times> nat) list"
  c_active :: "(nat \<times> nat) list"

definition maxConnections :: nat where
  "maxConnections = 2000"

definition new_connector :: "nat \<Rightarrow> connector" where
  "new_connector maxConns =
     \<lparr>c_heap = (\<lambda>_. \<lparr>ci_uri = [], ci_disconnect = False, ci_refCount = 0\<rparr>), c_next = 0, c_clients = [],
      c_cheap = (\<lambda>_. \<lparr>cs_dead = False, cs_dopplers = {}\<rparr>), c_cnext = 0,
      c_consumerStates = replicate maxConns None, c_pool = [], c_spawned = [], c_entered = [], c_active = []\<rparr>"

definition NewGRPCConnector :: connector where
  "NewGRPCConnector = new_connector maxConnections"

text \<open>A write through a pointer to a client, or to a consumer.\<close>

definition set_client :: "nat \<Rightarrow> (dopplerClientInfo \<Rightarrow> dopplerClientInfo) \<Rightarrow> 'z connector_scheme \<Rightarrow> 'z connector_scheme" where
  "set_client i f c = c\<lparr>c_heap := (c_heap c)(i := f (c_heap c i))\<rparr>"

definition set_consumer :: "nat \<Rightarrow> (consumerState \<Rightarrow> consumerState) \<Rightarrow> 'z connector_scheme \<Rightarrow> 'z connector_scheme" where
  "set_consumer k f c = c\<lparr>c_cheap := (c_cheap c)(k := f (c_cheap c k))\<rparr>"

section \<open>Events of the finder\<close>

fun subtractClient :: "nat list \<Rightarrow> string \<Rightarrow> 'z connector_scheme \<Rightarrow> nat list \<times> bool \<times> 'z connector_scheme" where
  "subtractClient [] uri c = ([], False, c)"
| "subtractClient (i # remaining) uri c =
     (if uri = ci_uri (c_heap c i)
      then (remaining, True, set_client i (\<lambda>ci. ci\<lparr>ci_disconnect := False\<rparr>) c)
      else let (rest, contained, c) = subtractClient remaining uri c in (i # rest, contained, c))"

fun delta_loop :: "string list \<Rightarrow> nat list \<Rightarrow> 'z connector_scheme \<Rightarrow> string list \<times> nat list \<times> 'z connector_scheme" where
  "delta_loop [] dead c = ([], dead, c)"
| "delta_loop (newURI # uris) dead c =
     (let (dead, contained, c) = subtractClient dead newURI c;
          (add, dead, c) = delta_loop uris dead c
      in (if contained then add else newURI # add, dead, c))"

definition delta :: "string list \<Rightarrow> 'z connector_scheme \<Rightarrow> string list \<times> nat list \<times> 'z connector_scheme" where
  "delta uris c = delta_loop uris (c_clients c) c"

text \<open>
  \<open>close\<close>: the loop of the source takes every occurrence of the pointer out of the slice; it goes on over
  the shifted slice, where the pointer does not occur again.
\<close>

definition connector_close :: "nat \<Rightarrow> 'z connector_scheme \<Rightarrow> 'z connector_scheme" where
  "connector_close i c = c\<lparr>c_clients := filter (\<lambda>j. j \<noteq> i) (c_clients c)\<rparr>"

definition live_consumers :: "'z connector_scheme \<Rightarrow> nat list" where
  "live_consumers c =
     List.map_filter (\<lambda>s. case s of Some k \<Rightarrow> if cs_dead (c_cheap c k) then None else Some k | None \<Rightarrow> None)
       (c_consumerStates c)"

text \<open>The two loops of \<open>handleFinderEvent\<close>.\<close>

definition add_client :: "string \<Rightarrow> 'z connector_scheme \<Rightarrow> 'z connector_scheme" where
  "add_client addr c =
     (let i = c_next c
      in c\<lparr>c_pool := c_pool c @ [PoolRegister addr],
           c_heap := (c_heap c)(i := \<lparr>ci_uri = addr, ci_disconnect = False, ci_refCount = 0\<rparr>),
           c_next := Suc i,
           c_clients := c_clients c @ [i],
           c_spawned := c_spawned c @ map (\<lambda>k. (k, i)) (live_consumers c)\<rparr>)"

definition disable_client :: "nat \<Rightarrow> 'z connector_scheme \<Rightarrow> 'z connector_scheme" where
  "disable_client i c =
     (let c = set_client i (\<lambda>ci. ci\<lparr>ci_disconnect := True\<rparr>) c
      in if ci_refCount (c_heap c i) = 0
         then connector_close i (c\<lparr>c_pool := c_pool c @ [PoolClose (ci_uri (c_heap c i))]\<rparr>)
         else c)"

definition handleFinderEvent :: "string list \<Rightarrow> 'z connector_scheme \<Rightarrow> 'z connector_scheme" where
  "handleFinderEvent uris c =
     (let (newURIs, deadClients, c) = delta uris c;
          c = foldl (\<lambda>c addr. add_client addr c) c newURIs
      in foldl (\<lambda>c i. disable_client i c) c deadClients)"

section \<open>Consumers\<close>

fun free_slot :: "(nat \<Rightarrow> consumerState) \<Rightarrow> nat option list \<Rightarrow> nat option" where
  "free_slot h [] = None"
| "free_slot h (s # ss) =
     (if (case s of None \<Rightarrow> True | Some k \<Rightarrow> cs_dead (h k)) then Some 0
      else map_option Suc (free_slot h ss))"

definition addConsumerState :: "nat \<Rightarrow> 'z connector_scheme \<Rightarrow> string + 'z connector_scheme" where
  "addConsumerState k c =
     (case free_slot (c_cheap c) (c_consumerStates c) of
        None \<Rightarrow> Inl (''at connection limit: '' @ digits_of_nat (length (c_consumerStates c)))
      | Some i \<Rightarrow> Inr (c\<lparr>c_consumerStates := (c_consumerStates c)[i := Some k]\<rparr>))"

text \<open>
  \<open>Subscribe\<close>: a new consumer takes a slot; then, under the lock, there is a task for each client. An event
  of the finder may come in between.
\<close>

definition subscribe_register :: "'z connector_scheme \<Rightarrow> 'z connector_scheme \<times> (string + nat)" where
  "subscribe_register c =
     (let k = c_cnext c;
          c = c\<lparr>c_cnext := Suc k, c_cheap := (c_cheap c)(k := \<lparr>cs_dead = False, cs_dopplers = {}\<rparr>)\<rparr>
      in case addConsumerState k c of Inl err \<Rightarrow> (c, Inl err) | Inr c \<Rightarrow> (c, Inr k))"

definition subscribe_connect :: "nat \<Rightarrow> 'z connector_scheme \<Rightarrow> 'z connector_scheme" where
  "subscribe_connect k c = c\<lparr>c_spawned := c_spawned c @ map (\<lambda>i. (k, i)) (c_clients c)\<rparr>"

definition connector_Subscribe :: "'z connector_scheme \<Rightarrow> 'z connector_scheme \<times> (string + nat)" where
  "connector_Subscribe c =
     (case subscribe_register c of
        (c, Inl err) \<Rightarrow> (c, Inl err)
      | (c, Inr k) \<Rightarrow> (subscribe_connect k c, Inr k))"

text \<open>The goroutine that waits for the context of a consumer.\<close>

definition consumer_done :: "nat \<Rightarrow> 'z connector_scheme \<Rightarrow> 'z connector_scheme" where
  "consumer_done k c = set_consumer k (\<lambda>cs. cs\<lparr>cs_dead := True\<rparr>) c"

definition tryAddDoppler :: "string \<Rightarrow> consumerState \<Rightarrow> bool \<times> consumerState" where
  "tryAddDoppler doppler cs =
     (if doppler \<in> cs_dopplers cs then (False, cs) else (True, cs\<lparr>cs_dopplers := insert doppler (cs_dopplers cs)\<rparr>))"

definition forgetDoppler :: "string \<Rightarrow> consumerState \<Rightarrow> consumerState" where
  "forgetDoppler doppler cs = cs\<lparr>cs_dopplers := cs_dopplers cs - {doppler}\<rparr>"

text \<open>The head of \<open>consumeSubscription\<close> and its deferred function.\<close>

definition consume_enter :: "nat \<times> nat \<Rightarrow> 'z connector_scheme \<Rightarrow> 'z connector_scheme" where
  "consume_enter t c =
     (let (k, i) = t;
          c = c\<lparr>c_spawned := remove1 t (c_spawned c)\<rparr>;
          (added, cs) = tryAddDoppler (ci_uri (c_heap c i)) (c_cheap c k)
      in if \<not> added then c
         else set_consumer k (\<lambda>_. cs) (c\<lparr>c_entered := c_entered c @ [t]\<rparr>))"

definition consume_count :: "nat \<times> nat \<Rightarrow> 'z connector_scheme \<Rightarrow> 'z connector_scheme" where
  "consume_count t c =
     set_client (snd t) (\<lambda>ci. ci\<lparr>ci_refCount := ci_refCount ci + 1\<rparr>)
       (c\<lparr>c_entered := remove1 t (c_entered c), c_active := c_active c @ [t]\<rparr>)"

definition consume_exit :: "nat \<times> nat \<Rightarrow> 'z connector_scheme \<Rightarrow> 'z connector_scheme" where
  "consume_exit t c =
     (let (k, i) = t;
          c = set_client i (\<lambda>ci. ci\<lparr>ci_refCount := ci_refCount ci - 1\<rparr>) (c\<lparr>c_active := remove1 t (c_active c)\<rparr>);
          uri = ci_uri (c_heap c i);
          c = (if ci_refCount (c_heap c i) \<le> 0 \<and> ci_disconnect (c_heap c i)
               then connector_close i (c\<lparr>c_pool := c_pool c @ [PoolClose uri]\<rparr>) else c)
      in set_consumer k (forgetDoppler uri) c)"

section \<open>The loop of a stream\<close>

text \<open>
  \<open>readStream\<close>: the results of \<open>Recv\<close>; for each payload, whether the \<open>select\<close> takes the case that the
  context is done. The result has what was put into the channel \<open>data\<close>, the counter, and the error
  (\<open>Some None\<close> is nil; \<open>None\<close>: the loop goes on).
\<close>

fun forward_payloads :: "('p \<times> bool) list \<Rightarrow> 'p list \<times> bool" where
  "forward_payloads [] = ([], False)"
| "forward_payloads ((p, ctxDone) # ps) =
     (if ctxDone then ([], True) else let (out, stopped) = forward_payloads ps in (p # out, stopped))"

fun readStream ::
    "(string + ('p \<times> bool) list) list \<Rightarrow> 'p list \<times> metric_Counter \<Rightarrow> ('p list \<times> metric_Counter) \<times> string option option" where
  "readStream [] s = (s, None)"
| "readStream (r # rs) (out, ingressMetric) =
     (case r of
        Inl err \<Rightarrow> ((out, ingressMetric), Some (Some err))
      | Inr payload \<Rightarrow>
          (case forward_payloads payload of
             (ps, True) \<Rightarrow> ((out @ ps, ingressMetric), Some None)
           | (ps, False) \<Rightarrow>
               readStream rs (out @ ps, Counter_Increment (of_nat (length payload)) ingressMetric)))"

text \<open>
  The state of the loop of \<open>consumeSubscription\<close>: \<open>tried\<close> and \<open>delay\<close> (in milliseconds). One round is given
  what it reads (whether the consumer is dead and the client disabled) and what \<open>pool.Subscribe\<close>
  returns: an error, or a stream that is then read to its end.
\<close>

datatype round_end = LoopReturn | LoopContinue

definition consume_round ::
    "bool \<Rightarrow> bool \<Rightarrow> bool \<Rightarrow> bool \<times> nat \<Rightarrow> (bool \<times> nat) \<times> nat option \<times> round_end" where
  "consume_round ctxDisconnect dopplerDisconnect subscribed s =
     (let (tried, delay) = s
      in if tried \<and> dopplerDisconnect \<or> ctxDisconnect then (s, None, LoopReturn)
         else if \<not> subscribed
         then ((True, if delay < 60000 then delay * 10 else delay), Some delay, LoopContinue)
         else ((True, 1), None, LoopContinue))"

text \<open>
  The loop: in each round what is read and what \<open>pool.Subscribe\<close> returns, the stream as the results of its
  \<open>Recv\<close>. The result has the sleeps, what was put into \<open>data\<close> with the counter, and whether the loop
  returned (it is still running when the rounds, or the results of a stream, are used up).
\<close>

fun consume_loop ::
    "(bool \<times> bool \<times> (string + (string + ('p \<times> bool) list) list)) list \<Rightarrow> bool \<times> nat \<Rightarrow> 'p list \<times> metric_Counter \<Rightarrow>
     nat list \<times> ('p list \<times> metric_Counter) \<times> bool" where
  "consume_loop [] s io = ([], io, False)"
| "consume_loop ((ctxDisconnect, dopplerDisconnect, sub) # rounds) s io =
     (case consume_round ctxDisconnect dopplerDisconnect (\<not> isl sub) s of
        (_, _, LoopReturn) \<Rightarrow> ([], io, True)
      | (s, slept, LoopContinue) \<Rightarrow>
          (case sub of
             Inl err \<Rightarrow>
               let (sleeps, io, returned) = consume_loop rounds s io
               in (case slept of None \<Rightarrow> sleeps | Some d \<Rightarrow> d # sleeps, io, returned)
           | Inr stream \<Rightarrow>
               (case readStream stream io of
                  (io, None) \<Rightarrow> ([], io, False)
                | (io, Some _) \<Rightarrow> consume_loop rounds s io)))"

text \<open>\<open>Recv\<close> of a consumer: any of the ready cases.\<close>

datatype 'p consumer_recv = RecvErr string | RecvData 'p | RecvCtx string

fun consumerState_Recv :: "'p consumer_recv \<Rightarrow> 'p option \<times> string option" where
  "consumerState_Recv (RecvErr err) = (None, Some err)"
| "consumerState_Recv (RecvData data) = (Some data, None)"
| "consumerState_Recv (RecvCtx err) = (None, Some err)"

section \<open>The connector of the reverse log proxy\<close>

text \<open>
  The same code on v2 envelopes, with two more counters. The state extends that of the other connector;
  the operations on it are the same, and the loop of a stream also counts connects and disconnects.
\<close>

record rlp_connector = connector +
  rc_disconnectMetric :: metric_Counter
  rc_connectMetric :: metric_Counter

definition rlp_NewGRPCConnector :: "metric_Counter \<Rightarrow> metric_Counter \<Rightarrow> rlp_connector" where
  "rlp_NewGRPCConnector disconnectMetric connectMetric =
     connector.extend (new_connector maxConnections)
       \<lparr>rc_disconnectMetric = disconnectMetric, rc_connectMetric = connectMetric\<rparr>"

definition rlp_subtractClient :: "nat list \<Rightarrow> string \<Rightarrow> rlp_connector \<Rightarrow> nat list \<times> bool \<times> rlp_connector" where
  "rlp_subtractClient = subtractClient"

definition rlp_delta :: "string list \<Rightarrow> rlp_connector \<Rightarrow> string list \<times> nat list \<times> rlp_connector" where
  "rlp_delta = delta"

definition rlp_close :: "nat \<Rightarrow> rlp_connector \<Rightarrow> rlp_connector" where
  "rlp_close = connector_close"

definition rlp_handleFinderEvent :: "string list \<Rightarrow> rlp_connector \<Rightarrow> rlp_connector" where
  "rlp_handleFinderEvent = handleFinderEvent"

definition rlp_addConsumerState :: "nat \<Rightarrow> rlp_connector \<Rightarrow> string + rlp_connector" where
  "rlp_addConsumerState = addConsumerState"

definition rlp_Subscribe :: "rlp_connector \<Rightarrow> rlp_connector \<times> (string + nat)" where
  "rlp_Subscribe = connector_Subscribe"

definition rlp_consume_enter :: "nat \<times> nat \<Rightarrow> rlp_connector \<Rightarrow> rlp_connector" where
  "rlp_consume_enter = consume_enter"

definition rlp_consume_exit :: "nat \<times> nat \<Rightarrow> rlp_connector \<Rightarrow> rlp_connector" where
  "rlp_consume_exit = consume_exit"

definition rlp_readStream ::
    "(string + (Envelope \<times> bool) list) list \<Rightarrow> Envelope list \<times> metric_Counter \<Rightarrow> (Envelope list \<times> metric_Counter) \<times> string option option" where
  "rlp_readStream = readStream"

definition rlp_Recv :: "Envelope consumer_recv \<Rightarrow> Envelope option \<times> string option" where
  "rlp_Recv = consumerState_Recv"

definition rlp_tryAddDoppler :: "string \<Rightarrow> consumerState \<Rightarrow> bool \<times> consumerState" where
  "rlp_tryAddDoppler = tryAddDoppler"

definition rlp_forgetDoppler :: "string \<Rightarrow> consumerState \<Rightarrow> consumerState" where
  "rlp_forgetDoppler = forgetDoppler"

definition rlp_consume_round ::
    "bool \<Rightarrow> bool \<Rightarrow> bool \<Rightarrow> (bool \<times> nat) \<times> metric_Counter \<times> metric_Counter \<Rightarrow>
     ((bool \<times> nat) \<times> metric_Counter \<times> metric_Counter) \<times> nat option \<times> round_end" where
  "rlp_consume_round ctxDisconnect dopplerDisconnect subscribed s =
     (let ((tried, delay), disconnectMetric, connectMetric) = s
      in if tried \<and> dopplerDisconnect \<or> ctxDisconnect
         then (((tried, delay), Counter_Increment 1 disconnectMetric, connectMetric), None, LoopReturn)
         else if \<not> subscribed
         then (((True, if delay < 60000 then delay * 10 else delay), disconnectMetric, connectMetric), Some delay, LoopContinue)
         else (((True, 1), disconnectMetric, Counter_Increment 1 connectMetric), None, LoopContinue))"

section \<open>The static finder\<close>

text \<open>The channel of the finder holds 10 events; \<open>Stop\<close> blocks (\<open>None\<close>) when it is full.\<close>

definition NewStaticFinder :: "string list \<Rightarrow> string list list" where
  "NewStaticFinder addrs = [addrs]"

definition StaticFinder_Stop :: "string list list \<Rightarrow> string list list option" where
  "StaticFinder_Stop event = (if length event < 10 then Some (event @ [[]]) else None)"

definition StaticFinder_Next :: "string list list \<Rightarrow> (string list \<times> string list list) option" where
  "StaticFinder_Next event = (case event of [] \<Rightarrow> None | e # rest \<Rightarrow> Some (e, rest))"

text \<open>One round of \<open>readFinder\<close>, which waits (\<open>None\<close>) while the finder has no event.\<close>

definition readFinder :: "string list list \<times> 'z connector_scheme \<Rightarrow> (string list list \<times> 'z connector_scheme) option" where
  "readFinder s =
     map_option (\<lambda>(e, event). (event, handleFinderEvent e (snd s))) (StaticFinder_Next (fst s))"

section \<open>Steps\<close>

text \<open>
  The steps of the whole system: an event of the finder, the two halves of
  \<open>Subscribe\<close>, a context that is done, and a task that enters, counts itself or ends. The events have distinct addresses; the
  code does not remove duplicates, and what it does with them is shown at the end of this theory.
\<close>

inductive conn_step :: "'z connector_scheme \<Rightarrow> 'z connector_scheme \<Rightarrow> bool" where
  finder: "distinct uris \<Longrightarrow> conn_step c (handleFinderEvent uris c)"
| register: "conn_step c (fst (subscribe_register c))"
| connect: "k < c_cnext c \<Longrightarrow> conn_step c (subscribe_connect k c)"
| consumer_done: "conn_step c (consumer_done k c)"
| enter: "t \<in> set (c_spawned c) \<Longrightarrow> conn_step c (consume_enter t c)"
| counted: "t \<in> set (c_entered c) \<Longrightarrow> conn_step c (consume_count t c)"
| leave: "t \<in> set (c_active c) \<Longrightarrow> conn_step c (consume_exit t c)"

inductive conn_reachable :: "nat \<Rightarrow> connector \<Rightarrow> bool" for maxConns where
  init: "conn_reachable maxConns (new_connector maxConns)"
| step: "conn_reachable maxConns c \<Longrightarrow> conn_step c c' \<Longrightarrow> conn_reachable maxConns c'"

section \<open>Invariants\<close>

definition uri_of :: "'z connector_scheme \<Rightarrow> nat \<Rightarrow> string" where
  "uri_of c i = ci_uri (c_heap c i)"

text \<open>Clients are distinct, allocated, and no two have the same address.\<close>

definition clients_ok :: "'z connector_scheme \<Rightarrow> bool" where
  "clients_ok c \<longleftrightarrow> distinct (map (uri_of c) (c_clients c)) \<and> (\<forall>i \<in> set (c_clients c). i < c_next c)"

text \<open>
  The reference count of a client is the number of its counted streams; a consumer has at most one stream
  per address, and its set of addresses is that of its streams.
\<close>

definition tasks_ok :: "'z connector_scheme \<Rightarrow> bool" where
  "tasks_ok c \<longleftrightarrow>
     (\<forall>i < c_next c. ci_refCount (c_heap c i) = int (length (filter (\<lambda>t. snd t = i) (c_active c)))) \<and>
     distinct (map (\<lambda>(k, i). (k, uri_of c i)) (c_entered c @ c_active c)) \<and>
     (\<forall>k. cs_dopplers (c_cheap c k) = {uri_of c i | i. (k, i) \<in> set (c_entered c @ c_active c)})"

text \<open>Every pointer that the connector or a task holds is allocated.\<close>

definition refs_ok :: "'z connector_scheme \<Rightarrow> bool" where
  "refs_ok c \<longleftrightarrow>
     (\<forall>t \<in> set (c_spawned c @ c_entered c @ c_active c). fst t < c_cnext c \<and> snd t < c_next c) \<and>
     (\<forall>k. Some k \<in> set (c_consumerStates c) \<longrightarrow> k < c_cnext c)"

lemma uri_of_heap [simp]: "uri_of (c\<lparr>c_heap := h\<rparr>) i = ci_uri (h i)"
  by (simp add: uri_of_def)

lemma uri_of_frame [simp]:
  "uri_of (c\<lparr>c_next := n\<rparr>) = uri_of c" "uri_of (c\<lparr>c_clients := l\<rparr>) = uri_of c"
  "uri_of (c\<lparr>c_cheap := h\<rparr>) = uri_of c" "uri_of (c\<lparr>c_cnext := n\<rparr>) = uri_of c"
  "uri_of (c\<lparr>c_consumerStates := ss\<rparr>) = uri_of c" "uri_of (c\<lparr>c_pool := p\<rparr>) = uri_of c"
  "uri_of (c\<lparr>c_spawned := ts\<rparr>) = uri_of c" "uri_of (c\<lparr>c_entered := ts\<rparr>) = uri_of c"
  "uri_of (c\<lparr>c_active := ts\<rparr>) = uri_of c"
  by (simp_all add: uri_of_def fun_eq_iff)

lemma subtractClient_spec:
  assumes "subtractClient is uri c = (rest, found, c')" and "distinct (map (uri_of c) is)"
  shows "rest = filter (\<lambda>i. uri_of c i \<noteq> uri) is" and "found = (uri \<in> uri_of c ` set is)"
    and "c' = c\<lparr>c_heap := \<lambda>i. if i \<in> set is \<and> uri_of c i = uri then (c_heap c i)\<lparr>ci_disconnect := False\<rparr> else c_heap c i\<rparr>"
proof -
  have "rest = filter (\<lambda>i. uri_of c i \<noteq> uri) is \<and> found = (uri \<in> uri_of c ` set is) \<and>
    c' = c\<lparr>c_heap := \<lambda>i. if i \<in> set is \<and> uri_of c i = uri then (c_heap c i)\<lparr>ci_disconnect := False\<rparr> else c_heap c i\<rparr>"
    using assms
  proof (induction "is" uri c arbitrary: rest found c' rule: subtractClient.induct)
    case (2 i remaining uri c)
    show ?case
    proof (cases "uri = ci_uri (c_heap c i)")
      case True
      have "\<forall>j \<in> set remaining. uri_of c j \<noteq> uri" using 2(3) True by (auto simp: uri_of_def image_iff)
      moreover from this have "filter (\<lambda>i. uri_of c i \<noteq> uri) remaining = remaining" by (simp add: filter_id_conv)
      moreover have "(\<lambda>j. if j \<in> set (i # remaining) \<and> uri_of c j = uri then (c_heap c j)\<lparr>ci_disconnect := False\<rparr> else c_heap c j) =
          (c_heap c)(i := (c_heap c i)\<lparr>ci_disconnect := False\<rparr>)"
        using calculation(1) True by (auto simp: fun_eq_iff uri_of_def)
      ultimately show ?thesis using 2(2) True by (auto simp: set_client_def uri_of_def)
    next
      case False
      then obtain rest' where r: "subtractClient remaining uri c = (rest', found, c')" "rest = i # rest'"
        using 2(2) by (auto split: prod.splits)
      have "(\<lambda>j. if j \<in> set (i # remaining) \<and> uri_of c j = uri then (c_heap c j)\<lparr>ci_disconnect := False\<rparr> else c_heap c j) =
          (\<lambda>j. if j \<in> set remaining \<and> uri_of c j = uri then (c_heap c j)\<lparr>ci_disconnect := False\<rparr> else c_heap c j)"
        using False by (auto simp: fun_eq_iff uri_of_def)
      with 2(1) [OF False r(1)] 2(3) False r(2) show ?thesis by (auto simp: uri_of_def)
    qed
  qed (auto simp: uri_of_def)
  then show "rest = filter (\<lambda>i. uri_of c i \<noteq> uri) is" "found = (uri \<in> uri_of c ` set is)"
    "c' = c\<lparr>c_heap := \<lambda>i. if i \<in> set is \<and> uri_of c i = uri then (c_heap c i)\<lparr>ci_disconnect := False\<rparr> else c_heap c i\<rparr>"
    by blast+
qed

lemma delta_loop_spec:
  assumes "distinct uris" and "distinct (map (uri_of c) is)"
  shows "delta_loop uris is c =
    (filter (\<lambda>u. u \<notin> uri_of c ` set is) uris, filter (\<lambda>i. uri_of c i \<notin> set uris) is,
     c\<lparr>c_heap := \<lambda>i. if i \<in> set is \<and> uri_of c i \<in> set uris then (c_heap c i)\<lparr>ci_disconnect := False\<rparr> else c_heap c i\<rparr>)"
  using assms
proof (induction uris arbitrary: "is" c)
  case Nil
  then show ?case by simp
next
  case (Cons u uris)
  obtain rest found c1 where sub: "subtractClient is u c = (rest, found, c1)" by (metis prod_cases3)
  note spec = subtractClient_spec [OF sub Cons.prems(2)]
  have uri: "uri_of c1 i = uri_of c i" for i by (simp add: spec(3) uri_of_def)
  then have same: "uri_of c1 = uri_of c" by (rule ext)
  have dist: "distinct (map (uri_of c1) rest)"
    using Cons.prems(2) by (simp add: same spec(1) distinct_map_filter)
  from Cons.IH [OF _ dist] Cons.prems(1)
  have IH: "delta_loop uris rest c1 =
    (filter (\<lambda>u. u \<notin> uri_of c ` set rest) uris, filter (\<lambda>i. uri_of c i \<notin> set uris) rest,
     c1\<lparr>c_heap := \<lambda>i. if i \<in> set rest \<and> uri_of c i \<in> set uris then (c_heap c1 i)\<lparr>ci_disconnect := False\<rparr> else c_heap c1 i\<rparr>)"
    by (simp add: same)
  have "filter (\<lambda>u'. u' \<notin> uri_of c ` set rest) uris = filter (\<lambda>u'. u' \<notin> uri_of c ` set is) uris"
    using Cons.prems(1) by (intro filter_cong) (auto simp: spec(1))
  moreover have "filter (\<lambda>i. uri_of c i \<notin> set uris) rest = filter (\<lambda>i. uri_of c i \<notin> set (u # uris)) is"
    by (simp add: spec(1) conj_commute)
  moreover have "c1\<lparr>c_heap := \<lambda>i. if i \<in> set rest \<and> uri_of c i \<in> set uris then (c_heap c1 i)\<lparr>ci_disconnect := False\<rparr> else c_heap c1 i\<rparr> =
      c\<lparr>c_heap := \<lambda>i. if i \<in> set is \<and> uri_of c i \<in> set (u # uris) then (c_heap c i)\<lparr>ci_disconnect := False\<rparr> else c_heap c i\<rparr>"
  proof -
    have h1: "c_heap c1 i = (if i \<in> set is \<and> uri_of c i = u then (c_heap c i)\<lparr>ci_disconnect := False\<rparr> else c_heap c i)" for i
      by (simp add: spec(3))
    have "(\<lambda>i. if i \<in> set rest \<and> uri_of c i \<in> set uris then (c_heap c1 i)\<lparr>ci_disconnect := False\<rparr> else c_heap c1 i) =
        (\<lambda>i. if i \<in> set is \<and> uri_of c i \<in> set (u # uris) then (c_heap c i)\<lparr>ci_disconnect := False\<rparr> else c_heap c i)"
      by (auto simp: fun_eq_iff h1 spec(1))
    moreover have "c1\<lparr>c_heap := h\<rparr> = c\<lparr>c_heap := h\<rparr>" for h by (simp add: spec(3))
    ultimately show ?thesis by simp
  qed
  ultimately show ?case using sub IH by (simp add: spec(2))
qed

lemma live_consumers_cong:
  "c_cheap c = c_cheap c' \<Longrightarrow> c_consumerStates c = c_consumerStates c' \<Longrightarrow> live_consumers c = live_consumers c'"
  by (simp only: live_consumers_def)

lemma add_clients_spec:
  "foldl (\<lambda>c addr. add_client addr c) c us =
   c\<lparr>c_pool := c_pool c @ map PoolRegister us,
     c_heap := \<lambda>i. if c_next c \<le> i \<and> i < c_next c + length us
       then \<lparr>ci_uri = us ! (i - c_next c), ci_disconnect = False, ci_refCount = 0\<rparr> else c_heap c i,
     c_next := c_next c + length us,
     c_clients := c_clients c @ [c_next c ..< c_next c + length us],
     c_spawned := c_spawned c @ concat (map (\<lambda>i. map (\<lambda>k. (k, i)) (live_consumers c)) [c_next c ..< c_next c + length us])\<rparr>"
proof (induction us rule: rev_induct)
  case (snoc u us)
  let ?C = "\<lambda>us. c\<lparr>c_pool := c_pool c @ map PoolRegister us,
     c_heap := \<lambda>i. if c_next c \<le> i \<and> i < c_next c + length us
       then \<lparr>ci_uri = us ! (i - c_next c), ci_disconnect = False, ci_refCount = 0\<rparr> else c_heap c i,
     c_next := c_next c + length us,
     c_clients := c_clients c @ [c_next c ..< c_next c + length us],
     c_spawned := c_spawned c @ concat (map (\<lambda>i. map (\<lambda>k. (k, i)) (live_consumers c)) [c_next c ..< c_next c + length us])\<rparr>"
  have live: "live_consumers (?C us) = live_consumers c" by (rule live_consumers_cong) simp_all
  have "add_client u (?C us) = ?C (us @ [u])"
    by (rule connector.equality) (auto simp: add_client_def Let_def live fun_eq_iff nth_append)
  with snoc show ?case by simp
next
  case Nil
  show ?case by (rule connector.equality) (auto simp: fun_eq_iff)
qed

lemma disable_clients_spec:
  "distinct is \<Longrightarrow> foldl (\<lambda>c i. disable_client i c) c is =
   c\<lparr>c_heap := \<lambda>i. if i \<in> set is then (c_heap c i)\<lparr>ci_disconnect := True\<rparr> else c_heap c i,
     c_pool := c_pool c @ map (\<lambda>i. PoolClose (uri_of c i)) (filter (\<lambda>i. ci_refCount (c_heap c i) = 0) is),
     c_clients := filter (\<lambda>i. i \<notin> set is \<or> ci_refCount (c_heap c i) \<noteq> 0) (c_clients c)\<rparr>"
proof (induction "is" rule: rev_induct)
  case (snoc i "is")
  let ?C = "\<lambda>is. c\<lparr>c_heap := \<lambda>i. if i \<in> set is then (c_heap c i)\<lparr>ci_disconnect := True\<rparr> else c_heap c i,
     c_pool := c_pool c @ map (\<lambda>i. PoolClose (uri_of c i)) (filter (\<lambda>i. ci_refCount (c_heap c i) = 0) is),
     c_clients := filter (\<lambda>i. i \<notin> set is \<or> ci_refCount (c_heap c i) \<noteq> 0) (c_clients c)\<rparr>"
  from snoc have IH: "foldl (\<lambda>c i. disable_client i c) c is = ?C is" and i: "i \<notin> set is" by auto
  have "disable_client i (?C is) = ?C (is @ [i])"
    by (rule connector.equality)
      (use i in \<open>auto simp: disable_client_def connector_close_def set_client_def Let_def fun_eq_iff uri_of_def
        intro!: filter_cong\<close>)
  with IH show ?case by simp
next
  case Nil
  show ?case by (rule connector.equality) (auto simp: fun_eq_iff)
qed

text \<open>What an event of the finder does, in one record: the new addresses and the clients that go.\<close>

definition new_addrs :: "string list \<Rightarrow> 'z connector_scheme \<Rightarrow> string list" where
  "new_addrs uris c = filter (\<lambda>u. u \<notin> uri_of c ` set (c_clients c)) uris"

definition idle_gone :: "string list \<Rightarrow> 'z connector_scheme \<Rightarrow> nat list" where
  "idle_gone uris c = filter (\<lambda>i. uri_of c i \<notin> set uris \<and> ci_refCount (c_heap c i) = 0) (c_clients c)"

definition new_ids :: "string list \<Rightarrow> 'z connector_scheme \<Rightarrow> nat list" where
  "new_ids uris c = [c_next c ..< c_next c + length (new_addrs uris c)]"

lemma handleFinderEvent_eq:
  assumes "clients_ok c" and "distinct uris"
  shows "handleFinderEvent uris c =
    c\<lparr>c_heap := \<lambda>i. if i \<in> set (new_ids uris c)
        then \<lparr>ci_uri = new_addrs uris c ! (i - c_next c), ci_disconnect = False, ci_refCount = 0\<rparr>
        else if i \<in> set (c_clients c) then (c_heap c i)\<lparr>ci_disconnect := uri_of c i \<notin> set uris\<rparr> else c_heap c i,
      c_next := c_next c + length (new_addrs uris c),
      c_clients := filter (\<lambda>i. i \<notin> set (idle_gone uris c)) (c_clients c) @ new_ids uris c,
      c_pool := c_pool c @ map PoolRegister (new_addrs uris c) @ map (\<lambda>i. PoolClose (uri_of c i)) (idle_gone uris c),
      c_spawned := c_spawned c @ concat (map (\<lambda>i. map (\<lambda>k. (k, i)) (live_consumers c)) (new_ids uris c))\<rparr>"
proof -
  let ?dead = "filter (\<lambda>i. uri_of c i \<notin> set uris) (c_clients c)"
  let ?n = "new_addrs uris c"
  let ?c1 = "c\<lparr>c_heap := \<lambda>i. if i \<in> set (c_clients c) \<and> uri_of c i \<in> set uris then (c_heap c i)\<lparr>ci_disconnect := False\<rparr> else c_heap c i\<rparr>"
  let ?c2 = "foldl (\<lambda>c addr. add_client addr c) ?c1 ?n"
  have d: "distinct (map (uri_of c) (c_clients c))" and lt: "\<And>i. i \<in> set (c_clients c) \<Longrightarrow> i < c_next c"
    using assms(1) by (auto simp: clients_ok_def)
  have dd: "distinct ?dead" using d by (simp add: distinct_map)
  have del: "delta uris c = (?n, ?dead, ?c1)"
    using delta_loop_spec [OF assms(2) d] by (simp add: delta_def new_addrs_def)
  have live: "live_consumers ?c1 = live_consumers c" by (rule live_consumers_cong) simp_all
  have ref2: "i \<in> set (c_clients c) \<Longrightarrow> ci_refCount (c_heap ?c2 i) = ci_refCount (c_heap c i)"
    and uri2: "i \<in> set (c_clients c) \<Longrightarrow> uri_of ?c2 i = uri_of c i" for i
    using lt [of i] by (auto simp: add_clients_spec uri_of_def)
  have f: "filter (\<lambda>i. ci_refCount (c_heap ?c2 i) = 0) ?dead = idle_gone uris c"
    unfolding idle_gone_def filter_filter by (intro filter_cong refl) (auto simp: ref2)
  have g: "map (\<lambda>i. PoolClose (uri_of ?c2 i)) (idle_gone uris c) = map (\<lambda>i. PoolClose (uri_of c i)) (idle_gone uris c)"
    by (intro map_cong refl) (auto simp: uri2 idle_gone_def)
  have "filter (\<lambda>i. i \<notin> set ?dead \<or> ci_refCount (c_heap ?c2 i) \<noteq> 0) (c_clients c) =
      filter (\<lambda>i. i \<notin> set (idle_gone uris c)) (c_clients c)"
    by (intro filter_cong refl) (auto simp: ref2 idle_gone_def)
  moreover have "filter (\<lambda>i. i \<notin> set ?dead \<or> ci_refCount (c_heap ?c2 i) \<noteq> 0) [c_next c ..< c_next c + length ?n] = new_ids uris c"
    unfolding new_ids_def by (intro filter_True) (auto dest: lt)
  ultimately have h: "filter (\<lambda>i. i \<notin> set ?dead \<or> ci_refCount (c_heap ?c2 i) \<noteq> 0) (c_clients ?c2) =
      filter (\<lambda>i. i \<notin> set (idle_gone uris c)) (c_clients c) @ new_ids uris c"
    by (simp add: add_clients_spec)
  have "handleFinderEvent uris c = foldl (\<lambda>c i. disable_client i c) ?c2 ?dead"
    by (simp add: handleFinderEvent_def del Let_def)
  also have "\<dots> = ?c2\<lparr>c_heap := \<lambda>i. if i \<in> set ?dead then (c_heap ?c2 i)\<lparr>ci_disconnect := True\<rparr> else c_heap ?c2 i,
     c_pool := c_pool ?c2 @ map (\<lambda>i. PoolClose (uri_of c i)) (idle_gone uris c),
     c_clients := filter (\<lambda>i. i \<notin> set (idle_gone uris c)) (c_clients c) @ new_ids uris c\<rparr>"
    by (subst disable_clients_spec [OF dd]) (simp only: f g h)
  finally have eq: "handleFinderEvent uris c = \<dots>" .
  show ?thesis unfolding eq
    by (rule connector.equality) (auto simp: add_clients_spec fun_eq_iff live new_ids_def dest: lt)
qed

definition conn_inv :: "'z connector_scheme \<Rightarrow> bool" where
  "conn_inv c \<longleftrightarrow> clients_ok c \<and> tasks_ok c \<and> refs_ok c"

lemma live_consumers_subset: "k \<in> set (live_consumers c) \<Longrightarrow> Some k \<in> set (c_consumerStates c)"
  by (auto simp: live_consumers_def map_filter_def split: option.splits if_splits)

text \<open>Steps that keep the addresses and the counts of the allocated clients and the running tasks.\<close>

lemma tasks_ok_frame:
  assumes "tasks_ok c" and "refs_ok c"
    and "c_entered c' = c_entered c" and "c_active c' = c_active c" and "c_next c \<le> c_next c'"
    and "\<And>k. cs_dopplers (c_cheap c' k) = cs_dopplers (c_cheap c k)"
    and "\<And>i. i < c_next c \<Longrightarrow> uri_of c' i = uri_of c i"
    and "\<And>i. i < c_next c \<Longrightarrow> ci_refCount (c_heap c' i) = ci_refCount (c_heap c i)"
    and "\<And>i. c_next c \<le> i \<Longrightarrow> i < c_next c' \<Longrightarrow> ci_refCount (c_heap c' i) = 0"
  shows "tasks_ok c'"
proof -
  have b: "\<And>t. t \<in> set (c_entered c @ c_active c) \<Longrightarrow> snd t < c_next c" using assms(2) by (auto simp: refs_ok_def)
  then have u: "\<And>k i. (k, i) \<in> set (c_entered c @ c_active c) \<Longrightarrow> uri_of c' i = uri_of c i" using assms(7) by fastforce
  have "map (\<lambda>(k, i). (k, uri_of c' i)) (c_entered c @ c_active c) = map (\<lambda>(k, i). (k, uri_of c i)) (c_entered c @ c_active c)"
    by (intro map_cong refl) (use u in auto)
  moreover have "{uri_of c' i | i. (k, i) \<in> set (c_entered c @ c_active c)} = {uri_of c i | i. (k, i) \<in> set (c_entered c @ c_active c)}" for k
    by (rule Collect_cong) (metis u)
  moreover have "ci_refCount (c_heap c' i) = int (length (filter (\<lambda>t. snd t = i) (c_active c)))" if "i < c_next c'" for i
  proof (cases "i < c_next c")
    case True
    then show ?thesis using assms(1,8) by (simp add: tasks_ok_def)
  next
    case False
    then have "filter (\<lambda>t. snd t = i) (c_active c) = []" using b by (fastforce simp: filter_empty_conv)
    then show ?thesis using False assms(9) that by simp
  qed
  ultimately show ?thesis using assms(1) by (simp only: tasks_ok_def assms(3,4,6)) simp
qed

lemma conn_inv_new: "conn_inv (new_connector n)"
  by (auto simp: conn_inv_def new_connector_def clients_ok_def tasks_ok_def refs_ok_def)

lemma handleFinderEvent_uri:
  assumes "clients_ok c" and "distinct uris"
  shows "uri_of (handleFinderEvent uris c) i =
    (if i \<in> set (new_ids uris c) then new_addrs uris c ! (i - c_next c) else uri_of c i)"
  by (simp add: handleFinderEvent_eq [OF assms] uri_of_def)

lemma new_ids_addrs:
  assumes "clients_ok c" and "distinct uris"
  shows "map (uri_of (handleFinderEvent uris c)) (new_ids uris c) = new_addrs uris c"
  by (rule nth_equalityI) (simp_all add: handleFinderEvent_uri [OF assms] new_ids_def)

lemma handleFinderEvent_clients_ok:
  assumes "clients_ok c" and "distinct uris"
  shows "clients_ok (handleFinderEvent uris c)"
proof -
  let ?c = "handleFinderEvent uris c"
  let ?old = "filter (\<lambda>i. i \<notin> set (idle_gone uris c)) (c_clients c)"
  have lt: "\<And>i. i \<in> set (c_clients c) \<Longrightarrow> i < c_next c" using assms(1) by (auto simp: clients_ok_def)
  have cl: "c_clients ?c = ?old @ new_ids uris c" and nx: "c_next ?c = c_next c + length (new_addrs uris c)"
    by (simp_all add: handleFinderEvent_eq [OF assms])
  have old: "map (uri_of ?c) ?old = map (uri_of c) ?old"
    by (intro map_cong refl) (auto simp: handleFinderEvent_uri [OF assms] new_ids_def dest: lt)
  have "distinct (map (uri_of c) ?old)" using assms(1) by (simp add: clients_ok_def distinct_map_filter)
  moreover have "distinct (new_addrs uris c)" using assms(2) by (simp add: new_addrs_def)
  moreover have "set (map (uri_of c) ?old) \<inter> set (new_addrs uris c) = {}" by (auto simp: new_addrs_def)
  ultimately have "distinct (map (uri_of ?c) (c_clients ?c))"
    by (simp only: cl map_append old new_ids_addrs [OF assms] distinct_append)
  moreover have "\<forall>i \<in> set (c_clients ?c). i < c_next ?c" by (auto simp: cl nx new_ids_def dest: lt)
  ultimately show ?thesis by (simp add: clients_ok_def)
qed

lemma handleFinderEvent_inv:
  assumes "conn_inv c" and "distinct uris"
  shows "conn_inv (handleFinderEvent uris c)"
proof -
  let ?c = "handleFinderEvent uris c"
  have ok: "clients_ok c" "tasks_ok c" "refs_ok c" using assms(1) by (simp_all add: conn_inv_def)
  note eq = handleFinderEvent_eq [OF ok(1) assms(2)]
  have "tasks_ok ?c"
    by (rule tasks_ok_frame [OF ok(2,3)])
      (simp_all add: eq uri_of_def new_ids_def)
  moreover have "refs_ok ?c"
  proof -
    have old: "\<And>t. t \<in> set (c_spawned c @ c_entered c @ c_active c) \<Longrightarrow> fst t < c_cnext c \<and> snd t < c_next c"
      and slots: "\<And>k. Some k \<in> set (c_consumerStates c) \<Longrightarrow> k < c_cnext c"
      using ok(3) by (auto simp: refs_ok_def)
    have sp: "set (c_spawned ?c) = set (c_spawned c) \<union> set (live_consumers c) \<times> set (new_ids uris c)"
      by (auto simp: eq)
    have "fst t < c_cnext c \<and> snd t < c_next c + length (new_addrs uris c)"
      if "t \<in> set (c_spawned ?c @ c_entered ?c @ c_active ?c)" for t
    proof (cases "t \<in> set (c_spawned c @ c_entered c @ c_active c)")
      case True
      then show ?thesis using old [of t] by simp
    next
      case False
      moreover have "c_entered ?c = c_entered c" "c_active ?c = c_active c" by (simp_all add: eq)
      ultimately have "t \<in> set (live_consumers c) \<times> set (new_ids uris c)" using that sp by auto
      then show ?thesis using slots [OF live_consumers_subset] by (auto simp: new_ids_def)
    qed
    then show ?thesis using slots by (simp add: refs_ok_def eq)
  qed
  ultimately show ?thesis
    using handleFinderEvent_clients_ok [OF ok(1) assms(2)] by (simp add: conn_inv_def)
qed

text \<open>One lemma for each of the other steps.\<close>

lemma consumer_done_inv: "conn_inv c \<Longrightarrow> conn_inv (consumer_done k c)"
  by (auto simp: conn_inv_def consumer_done_def set_consumer_def clients_ok_def refs_ok_def
      elim!: tasks_ok_frame split: if_splits)

lemma subscribe_connect_inv:
  assumes "conn_inv c" and "k < c_cnext c"
  shows "conn_inv (subscribe_connect k c)"
proof -
  have "tasks_ok (subscribe_connect k c)" using assms(1)
    by (auto simp: conn_inv_def subscribe_connect_def elim!: tasks_ok_frame)
  then show ?thesis
    using assms by (auto simp: conn_inv_def subscribe_connect_def clients_ok_def refs_ok_def)
qed

lemma subscribe_register_inv:
  assumes "conn_inv c"
  shows "conn_inv (fst (subscribe_register c))"
proof -
  let ?c = "fst (subscribe_register c)"
  obtain ss where eq: "?c = c\<lparr>c_cnext := Suc (c_cnext c), c_consumerStates := ss,
        c_cheap := (c_cheap c)(c_cnext c := \<lparr>cs_dead = False, cs_dopplers = {}\<rparr>)\<rparr>"
      and ss: "set ss \<subseteq> insert (Some (c_cnext c)) (set (c_consumerStates c))"
  proof (cases "free_slot (c_cheap (c\<lparr>c_cnext := Suc (c_cnext c), c_cheap := (c_cheap c)(c_cnext c := \<lparr>cs_dead = False, cs_dopplers = {}\<rparr>)\<rparr>)) (c_consumerStates c)")
    case None
    then show ?thesis by (intro that [of "c_consumerStates c"]) (auto simp: subscribe_register_def addConsumerState_def Let_def)
  next
    case (Some i)
    then show ?thesis
      by (intro that [of "(c_consumerStates c)[i := Some (c_cnext c)]"])
        (auto simp: subscribe_register_def addConsumerState_def Let_def dest: set_update_subset_insert [THEN subsetD])
  qed
  have old: "\<And>t. t \<in> set (c_spawned c @ c_entered c @ c_active c) \<Longrightarrow> fst t < c_cnext c \<and> snd t < c_next c"
    using assms by (auto simp: conn_inv_def refs_ok_def)
  have "cs_dopplers (c_cheap c (c_cnext c)) = {}"
    using assms old by (fastforce simp: conn_inv_def tasks_ok_def)
  then have "tasks_ok ?c"
    using assms by (auto simp: conn_inv_def eq elim!: tasks_ok_frame split: if_splits)
  moreover have "k < Suc (c_cnext c)" if "Some k \<in> set ss" for k
    using that ss assms by (auto simp: conn_inv_def refs_ok_def less_Suc_eq)
  then have "refs_ok ?c" using old by (simp add: refs_ok_def eq less_SucI)
  ultimately show ?thesis using assms by (simp add: conn_inv_def clients_ok_def eq)
qed

lemma consume_enter_inv:
  assumes "conn_inv c" and "t \<in> set (c_spawned c)"
  shows "conn_inv (consume_enter t c)"
proof -
  obtain k i where t: "t = (k, i)" by (cases t)
  show ?thesis
  proof (cases "uri_of c i \<in> cs_dopplers (c_cheap c k)")
    case True
    then have eq: "consume_enter t c = c\<lparr>c_spawned := remove1 t (c_spawned c)\<rparr>"
      by (simp add: t consume_enter_def tryAddDoppler_def uri_of_def Let_def)
    have "tasks_ok (consume_enter t c)" using assms(1)
      by (auto simp: conn_inv_def eq elim!: tasks_ok_frame split: if_splits)
    then show ?thesis using assms(1)
      by (auto simp: conn_inv_def eq clients_ok_def refs_ok_def dest: notin_set_remove1)
  next
    case False
    let ?d = "insert (uri_of c i) (cs_dopplers (c_cheap c k))"
    have eq: "consume_enter t c = c\<lparr>c_spawned := remove1 t (c_spawned c), c_entered := c_entered c @ [t],
        c_cheap := (c_cheap c)(k := (c_cheap c k)\<lparr>cs_dopplers := ?d\<rparr>)\<rparr>"
      using False by (simp add: t consume_enter_def tryAddDoppler_def set_consumer_def uri_of_def Let_def)
    have ok: "tasks_ok c" using assms(1) by (simp add: conn_inv_def)
    have u: "uri_of (consume_enter t c) = uri_of c" by (simp add: eq)
    have "\<forall>j. (k, j) \<in> set (c_entered c @ c_active c) \<longrightarrow> uri_of c j \<noteq> uri_of c i"
      using ok False by (auto simp: tasks_ok_def)
    then have "tasks_ok (consume_enter t c)"
      using ok unfolding tasks_ok_def u unfolding eq by (auto simp: t)
    then show ?thesis using assms
      by (auto simp: conn_inv_def eq clients_ok_def refs_ok_def dest: notin_set_remove1)
  qed
qed

lemma consume_count_inv:
  assumes "conn_inv c" and t: "t \<in> set (c_entered c)"
  shows "conn_inv (consume_count t c)"
proof -
  let ?c = "consume_count t c"
  let ?f = "\<lambda>(k, i). (k, uri_of c i)"
  have ok: "clients_ok c" "tasks_ok c" "refs_ok c" using assms(1) by (simp_all add: conn_inv_def)
  have eq: "?c = c\<lparr>c_heap := (c_heap c)(snd t := (c_heap c (snd t))\<lparr>ci_refCount := ci_refCount (c_heap c (snd t)) + 1\<rparr>),
      c_entered := remove1 t (c_entered c), c_active := c_active c @ [t]\<rparr>"
    by (simp add: consume_count_def set_client_def)
  have u: "uri_of ?c = uri_of c" by (simp add: eq uri_of_def fun_eq_iff)
  have mset: "mset (c_entered ?c @ c_active ?c) = mset (c_entered c @ c_active c)"
    using t by (simp add: eq)
  have "distinct (map ?f (c_entered ?c @ c_active ?c)) = distinct (map ?f (c_entered c @ c_active c))"
    by (rule mset_eq_imp_distinct_iff) (simp only: mset_map mset)
  moreover have "set (c_entered ?c @ c_active ?c) = set (c_entered c @ c_active c)"
    by (rule mset_eq_setD) (rule mset)
  moreover have "c_cheap ?c = c_cheap c" by (simp add: eq)
  moreover have "ci_refCount (c_heap ?c i) = int (length (filter (\<lambda>t. snd t = i) (c_active ?c)))" if "i < c_next ?c" for i
    using ok(2) that by (simp add: eq tasks_ok_def)
  ultimately have "tasks_ok ?c" using ok(2) unfolding tasks_ok_def u by simp
  moreover have "refs_ok ?c"
    using ok(3) t by (auto simp: eq refs_ok_def dest!: set_remove1_subset [THEN subsetD])
  moreover have "clients_ok ?c" using ok(1) unfolding clients_ok_def u by (simp add: eq)
  ultimately show ?thesis by (simp add: conn_inv_def)
qed

lemma consume_exit_inv:
  assumes "conn_inv c" and t: "t \<in> set (c_active c)"
  shows "conn_inv (consume_exit t c)"
proof -
  let ?c = "consume_exit t c"
  let ?f = "\<lambda>(k, i). (k, uri_of c i)"
  obtain k i where ki: "t = (k, i)" by (cases t)
  have ok: "clients_ok c" "tasks_ok c" "refs_ok c" using assms(1) by (simp_all add: conn_inv_def)
  obtain cl p where eq: "?c = c\<lparr>c_heap := (c_heap c)(i := (c_heap c i)\<lparr>ci_refCount := ci_refCount (c_heap c i) - 1\<rparr>),
      c_active := remove1 t (c_active c), c_clients := cl, c_pool := p,
      c_cheap := (c_cheap c)(k := (c_cheap c k)\<lparr>cs_dopplers := cs_dopplers (c_cheap c k) - {uri_of c i}\<rparr>)\<rparr>"
      and cl: "cl = c_clients c \<or> cl = filter (\<lambda>j. j \<noteq> i) (c_clients c)"
  proof (cases "ci_refCount (c_heap c i) \<le> 1 \<and> ci_disconnect (c_heap c i)")
    case True
    then show ?thesis
      by (intro that [of "c_pool c @ [PoolClose (uri_of c i)]" "filter (\<lambda>j. j \<noteq> i) (c_clients c)"])
        (simp_all add: ki consume_exit_def set_client_def set_consumer_def connector_close_def forgetDoppler_def
          Let_def uri_of_def)
  next
    case False
    then show ?thesis
      by (intro that [of "c_pool c" "c_clients c"])
        (auto simp: ki consume_exit_def set_client_def set_consumer_def forgetDoppler_def Let_def uri_of_def)
  qed
  have u: "uri_of ?c = uri_of c" by (simp add: eq uri_of_def fun_eq_iff)
  have mset: "mset (c_entered c @ c_active c) = add_mset t (mset (c_entered c @ c_active ?c))"
    using t by (simp add: eq)
  have dt: "distinct (map ?f (t # c_entered c @ c_active ?c))"
  proof -
    have "distinct (map ?f (c_entered c @ c_active c))" using ok(2) by (simp add: tasks_ok_def)
    moreover have "mset (map ?f (c_entered c @ c_active c)) = mset (map ?f (t # c_entered c @ c_active ?c))"
      by (simp only: mset_map mset mset.simps)
    ultimately show ?thesis using mset_eq_imp_distinct_iff by blast
  qed
  then have d: "distinct (map ?f (c_entered c @ c_active ?c))" by simp
  have fresh: "uri_of c j \<noteq> uri_of c i" if "(k, j) \<in> set (c_entered c @ c_active ?c)" for j
    using dt that by (metis (mono_tags) distinct.simps(2) image_eqI ki list.set_map list.simps(9) split_conv)
  have st: "set (c_entered c @ c_active c) = insert t (set (c_entered c @ c_active ?c))"
    using mset by (metis set_mset_add_mset_insert set_mset_mset)
  have dop: "cs_dopplers (c_cheap ?c k') = {uri_of c j | j. (k', j) \<in> set (c_entered c @ c_active ?c)}" for k'
  proof -
    have "cs_dopplers (c_cheap c k') = {uri_of c j | j. (k', j) \<in> insert t (set (c_entered c @ c_active ?c))}"
      using ok(2) unfolding tasks_ok_def st by simp
    moreover have "c_cheap ?c k' = (if k' = k then (c_cheap c k)\<lparr>cs_dopplers := cs_dopplers (c_cheap c k) - {uri_of c i}\<rparr> else c_cheap c k')"
      by (simp add: eq)
    ultimately show ?thesis using fresh by (auto simp: ki)
  qed
  have len: "length (filter (\<lambda>t. snd t = j) (c_active c)) = length (filter (\<lambda>t. snd t = j) (c_active ?c)) + (if j = i then 1 else 0)" for j
  proof -
    have "mset (c_active c) = add_mset t (mset (c_active ?c))" using t by (simp add: eq)
    then have "mset (filter (\<lambda>t. snd t = j) (c_active c)) = filter_mset (\<lambda>t. snd t = j) (add_mset t (mset (c_active ?c)))"
      by (simp only: mset_filter)
    then have "size (mset (filter (\<lambda>t. snd t = j) (c_active c))) = size (mset (filter (\<lambda>t. snd t = j) (t # c_active ?c)))"
      by (simp only: mset_filter mset.simps)
    then show ?thesis by (auto simp only: size_mset filter.simps ki snd_conv length_Cons split: if_splits)
  qed
  have "ci_refCount (c_heap ?c j) = int (length (filter (\<lambda>t. snd t = j) (c_active ?c)))" if "j < c_next ?c" for j
  proof -
    have "ci_refCount (c_heap c j) = int (length (filter (\<lambda>t. snd t = j) (c_active c)))"
      using ok(2) that by (simp add: tasks_ok_def eq)
    then show ?thesis unfolding len by (auto simp: eq)
  qed
  moreover have "c_entered ?c = c_entered c" by (simp add: eq)
  ultimately have "tasks_ok ?c" using d dop unfolding tasks_ok_def u by simp
  moreover have "refs_ok ?c"
    using ok(3) by (auto simp: eq refs_ok_def dest!: set_remove1_subset [THEN subsetD])
  moreover have "clients_ok ?c" using ok(1) cl unfolding clients_ok_def u by (auto simp: eq distinct_map_filter)
  ultimately show ?thesis by (simp add: conn_inv_def)
qed

lemma conn_step_inv: "conn_step c c' \<Longrightarrow> conn_inv c \<Longrightarrow> conn_inv c'"
  by (induction rule: conn_step.induct)
    (simp_all add: handleFinderEvent_inv subscribe_register_inv subscribe_connect_inv consumer_done_inv
      consume_enter_inv consume_count_inv consume_exit_inv)

lemma conn_reachable_inv: "conn_reachable n c \<Longrightarrow> conn_inv c"
  by (induction rule: conn_reachable.induct) (simp_all add: conn_inv_new conn_step_inv)

section \<open>Properties\<close>

text \<open>Apart from its counters, a round of the reverse log proxy is a round of the other connector.\<close>

lemma rlp_consume_round_erases:
  "consume_round ctx dop sub (fst s) =
     (fst (fst (rlp_consume_round ctx dop sub s)), snd (rlp_consume_round ctx dop sub s))"
  by (cases s) (auto simp: rlp_consume_round_def consume_round_def Let_def split: prod.splits)

text \<open>
  C18. In every reachable state of a connector, under any interleaving of finder events (each with distinct addresses),
  subscriptions, dying consumers and streams: no two clients have the same address, the reference count of every client
  is the number of its running streams (so it is never negative), and a consumer has at most one stream
  per address, whatever tasks were spawned for it.
\<close>

theorem conn_counts_streams:
  assumes "conn_reachable n c"
  shows "distinct (map (uri_of c) (c_clients c)) \<and>
    (\<forall>i < c_next c. ci_refCount (c_heap c i) = int (length (filter (\<lambda>t. snd t = i) (c_active c)))) \<and>
    distinct (map (\<lambda>(k, i). (k, uri_of c i)) (c_active c))"
  using conn_reachable_inv [OF assms] by (auto simp: conn_inv_def clients_ok_def tasks_ok_def)

theorem conn_counts_streams_witness:
  "ci_refCount (c_heap (consume_count (0, 0) (consume_enter (0, 0) (subscribe_connect 0 (fst (subscribe_register
     (handleFinderEvent [''a''] (new_connector 1))))))) 0) = 1"
proof -
  let ?c1 = "handleFinderEvent [''a''] (new_connector 1)"
  let ?c2 = "fst (subscribe_register ?c1)"
  let ?c3 = "subscribe_connect 0 ?c2"
  let ?c4 = "consume_enter (0, 0) ?c3"
  let ?c5 = "consume_count (0, 0) ?c4"
  have "conn_reachable 1 ?c1" by (rule conn_reachable.step [OF conn_reachable.init conn_step.finder]) simp
  then have "conn_reachable 1 ?c2" by (rule conn_reachable.step) (rule conn_step.register)
  then have "conn_reachable 1 ?c3" by (rule conn_reachable.step) (rule conn_step.connect, code_simp)
  then have "conn_reachable 1 ?c4" by (rule conn_reachable.step) (rule conn_step.enter, code_simp)
  then have "conn_reachable 1 ?c5" by (rule conn_reachable.step) (rule conn_step.counted, code_simp)
  from conn_counts_streams [OF this]
  have "0 < c_next ?c5 \<longrightarrow> ci_refCount (c_heap ?c5 0) = int (length (filter (\<lambda>t. snd t = 0) (c_active ?c5)))" by blast
  moreover have "0 < c_next ?c5" by code_simp
  moreover have "length (filter (\<lambda>t. snd t = 0) (c_active ?c5)) = 1" by code_simp
  ultimately show ?thesis by simp
qed

lemma finder_tracked:
  assumes "conn_reachable n c" and "distinct uris"
  shows "let c' = handleFinderEvent uris c in
    uri_of c' ` {i \<in> set (c_clients c'). \<not> ci_disconnect (c_heap c' i)} = set uris \<and>
    (\<forall>i \<in> set (c_clients c'). ci_disconnect (c_heap c' i) \<longrightarrow> uri_of c' i \<notin> set uris \<and> ci_refCount (c_heap c' i) > 0) \<and>
    c_pool c' = c_pool c @ map PoolRegister (filter (\<lambda>u. u \<notin> uri_of c ` set (c_clients c)) uris) @
      map (\<lambda>i. PoolClose (uri_of c i)) (filter (\<lambda>i. uri_of c i \<notin> set uris \<and> ci_refCount (c_heap c i) = 0) (c_clients c)) \<and>
    (\<forall>k \<in> set (live_consumers c). \<forall>u \<in> set uris - uri_of c ` set (c_clients c).
      \<exists>i \<in> set (c_clients c'). uri_of c' i = u \<and> (k, i) \<in> set (c_spawned c'))"
proof -
  let ?c = "handleFinderEvent uris c"
  have ok: "clients_ok c" and tasks: "tasks_ok c" using conn_reachable_inv [OF assms(1)] by (simp_all add: conn_inv_def)
  note eq = handleFinderEvent_eq [OF ok assms(2)]
  have lt: "\<And>i. i \<in> set (c_clients c) \<Longrightarrow> i < c_next c" using ok by (auto simp: clients_ok_def)
  have cl: "c_clients ?c = filter (\<lambda>i. i \<notin> set (idle_gone uris c)) (c_clients c) @ new_ids uris c" by (simp add: eq)
  have new: "uri_of ?c ` set (new_ids uris c) = set (new_addrs uris c)"
    by (metis list.set_map new_ids_addrs [OF ok assms(2)])
  have old: "uri_of ?c i = uri_of c i" "ci_disconnect (c_heap ?c i) = (uri_of c i \<notin> set uris)"
      "ci_refCount (c_heap ?c i) = ci_refCount (c_heap c i)" if "i \<in> set (c_clients c)" for i
    using lt [OF that] that by (simp_all add: eq uri_of_def new_ids_def)
  have fresh: "\<not> ci_disconnect (c_heap ?c i)" if "i \<in> set (new_ids uris c)" for i using that by (simp add: eq)
  have nonneg: "0 \<le> ci_refCount (c_heap c i)" if "i \<in> set (c_clients c)" for i
    using tasks lt [OF that] by (simp add: tasks_ok_def)
  have "{i \<in> set (c_clients ?c). \<not> ci_disconnect (c_heap ?c i)} =
      {i \<in> set (c_clients c). uri_of c i \<in> set uris} \<union> set (new_ids uris c)"
    by (auto simp: cl old fresh idle_gone_def)
  moreover have "uri_of ?c ` {i \<in> set (c_clients c). uri_of c i \<in> set uris} = set uris \<inter> uri_of c ` set (c_clients c)"
    by (auto simp: old image_iff)
  ultimately have "uri_of ?c ` {i \<in> set (c_clients ?c). \<not> ci_disconnect (c_heap ?c i)} = set uris"
    by (auto simp: image_Un new new_addrs_def)
  moreover have "uri_of ?c i \<notin> set uris \<and> ci_refCount (c_heap ?c i) > 0"
    if "i \<in> set (c_clients ?c)" "ci_disconnect (c_heap ?c i)" for i
  proof -
    have i: "i \<in> set (c_clients c)" "i \<notin> set (idle_gone uris c)" using that fresh by (auto simp: cl)
    then show ?thesis using that(2) nonneg [OF i(1)] by (auto simp: old idle_gone_def)
  qed
  moreover have "\<exists>i \<in> set (c_clients ?c). uri_of ?c i = u \<and> (k, i) \<in> set (c_spawned ?c)"
    if "k \<in> set (live_consumers c)" "u \<in> set uris - uri_of c ` set (c_clients c)" for k u
  proof -
    have "u \<in> uri_of ?c ` set (new_ids uris c)" using that(2) by (simp add: new new_addrs_def)
    then obtain i where i: "i \<in> set (new_ids uris c)" "uri_of ?c i = u" by blast
    then have "i \<in> set (c_clients ?c)" "(k, i) \<in> set (c_spawned ?c)" using that(1) by (simp_all add: eq image_iff)
    then show ?thesis using i by blast
  qed
  ultimately show ?thesis by (simp add: Let_def eq new_addrs_def idle_gone_def)
qed

text \<open>
  With the finder of the program, which yields the configured addresses once: \<open>readFinder\<close> connects to exactly these and
  then waits; after \<open>Stop\<close> it disables all of them.
\<close>

lemma readFinder_static:
  assumes "distinct addrs"
  shows "\<exists>c c'. readFinder (NewStaticFinder addrs, NewGRPCConnector) = Some ([], c) \<and> readFinder ([], c) = None \<and>
    uri_of c ` {i \<in> set (c_clients c). \<not> ci_disconnect (c_heap c i)} = set addrs \<and>
    (\<forall>event. StaticFinder_Stop [] = Some event \<longrightarrow> readFinder (event, c) = Some ([], c') \<and>
       (\<forall>i \<in> set (c_clients c'). ci_disconnect (c_heap c' i)))"
proof -
  let ?c = "handleFinderEvent addrs NewGRPCConnector"
  have init: "conn_reachable maxConnections NewGRPCConnector" unfolding NewGRPCConnector_def by (rule conn_reachable.init)
  have "conn_reachable maxConnections ?c" by (rule conn_reachable.step [OF init conn_step.finder [OF assms]])
  from finder_tracked [OF this, of "[]"] finder_tracked [OF init assms] show ?thesis
    by (intro exI [of _ ?c] exI [of _ "handleFinderEvent [] ?c"])
      (auto simp: readFinder_def NewStaticFinder_def StaticFinder_Next_def StaticFinder_Stop_def Let_def)
qed

text \<open>
  C21. An event of the finder with distinct addresses makes the connector track it exactly: the clients that may reconnect are those
  of the event's addresses, a client that is gone stays only while it has streams, the pool is asked to
  register each new address once and to close exactly the idle clients that are gone, and every live
  consumer gets a task for every new address.
\<close>

theorem handleFinderEvent_tracks_finder:
  assumes "conn_reachable n c" and "distinct uris"
  shows "let c' = handleFinderEvent uris c in
    uri_of c' ` {i \<in> set (c_clients c'). \<not> ci_disconnect (c_heap c' i)} = set uris \<and>
    (\<forall>i \<in> set (c_clients c'). ci_disconnect (c_heap c' i) \<longrightarrow> uri_of c' i \<notin> set uris \<and> ci_refCount (c_heap c' i) > 0) \<and>
    c_pool c' = c_pool c @ map PoolRegister (filter (\<lambda>u. u \<notin> uri_of c ` set (c_clients c)) uris) @
      map (\<lambda>i. PoolClose (uri_of c i)) (filter (\<lambda>i. uri_of c i \<notin> set uris \<and> ci_refCount (c_heap c i) = 0) (c_clients c)) \<and>
    (\<forall>k \<in> set (live_consumers c). \<forall>u \<in> set uris - uri_of c ` set (c_clients c).
      \<exists>i \<in> set (c_clients c'). uri_of c' i = u \<and> (k, i) \<in> set (c_spawned c'))"
  by (rule finder_tracked [OF assms])

theorem handleFinderEvent_tracks_finder_witness:
  "uri_of (handleFinderEvent [''b''] (handleFinderEvent [''a''] (new_connector 1))) `
     {i \<in> set (c_clients (handleFinderEvent [''b''] (handleFinderEvent [''a''] (new_connector 1)))).
        \<not> ci_disconnect (c_heap (handleFinderEvent [''b''] (handleFinderEvent [''a''] (new_connector 1))) i)} = {''b''}"
proof -
  have "conn_reachable 1 (handleFinderEvent [''a''] (new_connector 1))"
    by (rule conn_reachable.step [OF conn_reachable.init conn_step.finder]) simp
  from handleFinderEvent_tracks_finder [OF this, of "[''b'']"] show ?thesis by (simp add: Let_def)
qed

text \<open>Reconnecting: the sleeps of a loop.\<close>

definition backoff :: "nat \<Rightarrow> nat" where
  "backoff j = min (10 ^ j) 100000"

lemma backoff_step: "(if backoff j < 60000 then backoff j * 10 else backoff j) = backoff (Suc j)"
proof (cases "j < 5")
  case True
  then have "j = 0 \<or> j = 1 \<or> j = 2 \<or> j = 3 \<or> j = 4" by arith
  then show ?thesis by (auto simp: backoff_def)
next
  case False
  then have "(10::nat) ^ 5 \<le> 10 ^ j" by (intro power_increasing) auto
  then have "(100000::nat) \<le> 10 ^ j" by simp
  then show ?thesis by (simp add: backoff_def)
qed

lemma consume_loop_failing:
  "consume_loop (map (\<lambda>err. (False, False, Inl err)) errs @ rounds) (tried, backoff j) io =
   (let (sleeps, io, returned) = consume_loop rounds (tried \<or> errs \<noteq> [], backoff (j + length errs)) io
    in (map backoff [j ..< j + length errs] @ sleeps, io, returned))"
proof (induction errs arbitrary: j tried)
  case (Cons err errs)
  have "[j ..< j + length (err # errs)] = j # [Suc j ..< Suc j + length errs]" by (simp add: upt_conv_Cons del: upt_Suc)
  then show ?case using Cons [of True "Suc j"]
    by (simp add: consume_round_def backoff_step Let_def split: prod.splits)
qed simp

text \<open>
  A stream that cannot connect is retried after 1, 10, 100, \<open>\<dots>\<close> milliseconds, never more than 100 seconds
  apart, and the schedule starts again once a connection has been made.
\<close>

theorem connector_backoff:
  assumes "readStream stream io = (io', Some e)"
  shows "consume_loop (map (\<lambda>err. (False, False, Inl err)) errs1 @ (False, False, Inr stream) #
      map (\<lambda>err. (False, False, Inl err)) errs2) (False, 1) io =
    (map (\<lambda>j. min (10 ^ j) 100000) [0 ..< length errs1] @ map (\<lambda>j. min (10 ^ j) 100000) [0 ..< length errs2], io', False)"
proof -
  let ?r = "\<lambda>errs. map (\<lambda>err. (False, False, Inl err)) errs"
  have one: "1 = backoff 0" by (simp add: backoff_def)
  have "consume_loop (?r errs2) (True, backoff 0) io' = (map backoff [0 ..< length errs2], io', False)"
    using consume_loop_failing [of errs2 "[]" True 0 io'] by simp
  then have "consume_loop ((False, False, Inr stream) # ?r errs2) (b, backoff j) io =
      (map backoff [0 ..< length errs2], io', False)" for b j
    using assms by (simp add: consume_round_def backoff_def)
  then show ?thesis
    using consume_loop_failing [of errs1 "(False, False, Inr stream) # ?r errs2" False 0 io]
    by (simp add: one backoff_def [abs_def])
qed

theorem connector_backoff_witness:
  "fst (consume_loop [(False, False, Inl ''refused''), (False, False, Inl ''refused''),
      (False, False, Inr [Inr [((7::nat), False)], Inl ''EOF'']), (False, False, Inl ''refused'')] (False, 1)
      ([], NewCounter ''ingress'' ''rlp'' [])) = [1, 10, 1]"
proof -
  have "readStream [Inr [((7::nat), False)], Inl ''EOF''] ([], NewCounter ''ingress'' ''rlp'' []) =
      (([7], Counter_Increment 1 (NewCounter ''ingress'' ''rlp'' [])), Some (Some ''EOF''))" by simp
  from connector_backoff [OF this, of "[''refused'', ''refused'']" "[''refused'']"] show ?thesis
    by (simp add: upt_rec)
qed

text \<open>
  Duplicate addresses: an address that the first event names twice is registered twice and gets two clients, and every consumer
  then gets one task for each of them. The events of the steps above have no duplicates.
\<close>

lemma duplicate_address_two_clients:
  "let c = handleFinderEvent [''a'', ''a''] (new_connector 1) in
     map (uri_of c) (c_clients c) = [''a'', ''a''] \<and> c_pool c = [PoolRegister ''a'', PoolRegister ''a'']"
  by code_simp

end
