(* ===== verification/Pools.thy ===== *)
theory Pools
  imports Connector
begin

text \<open>
  The pools of router connections that the connectors call: \<open>plumbing/pool.go\<close>, with one connection per
  address, and \<open>rlp/internal/ingress/pool.go\<close>, with a slice of \<open>size\<close> connections per address.

  \<open>grpc.NewClient\<close> is a parameter: the list of its results, one per attempt. A connection is a value of the
  type \<open>'c\<close>; the ones on which \<open>Close\<close> was called are recorded. \<open>go p.connectToDoppler(...)\<close> adds to the
  list of running goroutines; the goroutine stores its connection later.
\<close>

section \<open>The pool of the traffic controller\<close>

record 'c pool =
  pl_dopplers :: "(string, 'c) gomap"
  pl_connecting :: "string list"
  pl_closed :: "'c list"

definition NewPool :: "'c pool" where
  "NewPool = \<lparr>pl_dopplers = [], pl_connecting = [], pl_closed = []\<rparr>"

definition Pool_RegisterDoppler :: "string \<Rightarrow> 'c pool \<Rightarrow> 'c pool" where
  "Pool_RegisterDoppler addr p = p\<lparr>pl_connecting := pl_connecting p @ [addr]\<rparr>"

text \<open>\<open>BatchSubscribe\<close> of the generated client is a parameter.\<close>

definition Pool_Subscribe :: "('c \<Rightarrow> 'r \<Rightarrow> string + 's) \<Rightarrow> string \<Rightarrow> 'r \<Rightarrow> 'c pool \<Rightarrow> string + 's" where
  "Pool_Subscribe BatchSubscribe dopplerAddr req p =
     (case map_of (pl_dopplers p) dopplerAddr of
        None \<Rightarrow> Inl ''no connections available for subscription''
      | Some ci \<Rightarrow> BatchSubscribe ci req)"

definition Pool_Close :: "string \<Rightarrow> 'c pool \<Rightarrow> 'c pool" where
  "Pool_Close dopplerAddr p =
     (let p' = p\<lparr>pl_dopplers := gomap_delete dopplerAddr (pl_dopplers p)\<rparr>
      in case map_of (pl_dopplers p) dopplerAddr of
           None \<Rightarrow> p'
         | Some ci \<Rightarrow> p'\<lparr>pl_closed := pl_closed p @ [ci]\<rparr>)"

text \<open>The retry loop of \<open>connectToDoppler\<close>: \<open>None\<close> while every attempt has failed.\<close>

fun connect_loop :: "(string + 'c) list \<Rightarrow> 'c option" where
  "connect_loop [] = None"
| "connect_loop (Inl err # results) = connect_loop results"
| "connect_loop (Inr conn # results) = Some conn"

definition Pool_connectToDoppler :: "string \<Rightarrow> (string + 'c) list \<Rightarrow> 'c pool \<Rightarrow> 'c pool" where
  "Pool_connectToDoppler addr results p =
     (case connect_loop results of
        None \<Rightarrow> p
      | Some conn \<Rightarrow>
          p\<lparr>pl_dopplers := gomap_set addr conn (pl_dopplers p),
            pl_connecting := remove1 addr (pl_connecting p)\<rparr>)"

definition Pool_Size :: "'c pool \<Rightarrow> nat" where
  "Pool_Size p = gomap_len (pl_dopplers p)"

section \<open>The pool of the reverse log proxy\<close>

text \<open>
  A slice of clients is shared by the map and by the goroutines that fill it, so slices live in a heap;
  an element is nil until its goroutine has stored a connection.
\<close>

record 'c rlp_pool =
  rp_size :: nat
  rp_heap :: "nat \<Rightarrow> 'c option list"
  rp_next :: nat
  rp_dopplers :: "(string, nat) gomap"
  rp_connecting :: "(string \<times> nat \<times> nat) list"
  rp_closed :: "'c list"

definition rlp_NewPool :: "nat \<Rightarrow> 'c rlp_pool" where
  "rlp_NewPool sz =
     \<lparr>rp_size = sz, rp_heap = (\<lambda>_. []), rp_next = 0, rp_dopplers = [], rp_connecting = [], rp_closed = []\<rparr>"

definition rlp_RegisterDoppler :: "string \<Rightarrow> 'c rlp_pool \<Rightarrow> 'c rlp_pool" where
  "rlp_RegisterDoppler addr p =
     (let clients = rp_next p
      in p\<lparr>rp_heap := (rp_heap p)(clients := replicate (rp_size p) None),
           rp_next := Suc clients,
           rp_dopplers := gomap_set addr clients (rp_dopplers p),
           rp_connecting := rp_connecting p @ map (\<lambda>i. (addr, clients, i)) [0 ..< rp_size p]\<rparr>)"

text \<open>
  The index \<open>(i + seed) % p.size\<close> in 64 bits: the sum wraps, and \<open>%\<close> has the sign of its first operand. An
  index out of range panics.
\<close>

definition int64_wrap :: "int \<Rightarrow> int" where
  "int64_wrap z = (z + 2 ^ 63) mod 2 ^ 64 - 2 ^ 63"

definition int64_rem :: "int \<Rightarrow> int \<Rightarrow> int" where
  "int64_rem a b = sgn a * (\<bar>a\<bar> mod \<bar>b\<bar>)"

fun fetch_loop :: "int \<Rightarrow> nat \<Rightarrow> 'c option list \<Rightarrow> nat list \<Rightarrow> 'c option go" where
  "fetch_loop seed sz clients [] = Inr None"
| "fetch_loop seed sz clients (i # is) =
     (if sz = 0 then Inl DivideByZero
      else let idx = int64_rem (int64_wrap (int i + seed)) (int sz)
           in if idx < 0 \<or> int (length clients) \<le> idx then Inl IndexOutOfRange
              else case clients ! nat idx of
                     None \<Rightarrow> fetch_loop seed sz clients is
                   | Some client \<Rightarrow> Inr (Some client))"

definition fetchClient :: "int \<Rightarrow> 'c option list \<Rightarrow> 'c rlp_pool \<Rightarrow> 'c option go" where
  "fetchClient seed clients p = fetch_loop seed (rp_size p) clients [0 ..< length clients]"

definition rlp_clients :: "string \<Rightarrow> 'c rlp_pool \<Rightarrow> 'c option list" where
  "rlp_clients addr p = (case map_of (rp_dopplers p) addr of None \<Rightarrow> [] | Some s \<Rightarrow> rp_heap p s)"

definition rlp_Pool_Subscribe ::
    "('c \<Rightarrow> 'r \<Rightarrow> string + 's) \<Rightarrow> int \<Rightarrow> string \<Rightarrow> 'r \<Rightarrow> 'c rlp_pool \<Rightarrow> (string + 's) go" where
  "rlp_Pool_Subscribe BatchedReceiver seed dopplerAddr req p =
     (case fetchClient seed (rlp_clients dopplerAddr p) p of
        Inl panic \<Rightarrow> Inl panic
      | Inr None \<Rightarrow> Inr (Inl ''no connections available for subscription'')
      | Inr (Some client) \<Rightarrow> Inr (BatchedReceiver client req))"

definition rlp_Pool_Close :: "string \<Rightarrow> 'c rlp_pool \<Rightarrow> 'c rlp_pool" where
  "rlp_Pool_Close dopplerAddr p =
     p\<lparr>rp_dopplers := gomap_delete dopplerAddr (rp_dopplers p),
       rp_closed := rp_closed p @ List.map_filter id (rlp_clients dopplerAddr p)\<rparr>"

definition rlp_connectToDoppler :: "string \<times> nat \<times> nat \<Rightarrow> (string + 'c) list \<Rightarrow> 'c rlp_pool \<Rightarrow> 'c rlp_pool" where
  "rlp_connectToDoppler g results p =
     (case connect_loop results of
        None \<Rightarrow> p
      | Some conn \<Rightarrow>
          let (addr, clients, idx) = g
          in p\<lparr>rp_heap := (rp_heap p)(clients := (rp_heap p clients)[idx := Some conn]),
               rp_connecting := remove1 g (rp_connecting p)\<rparr>)"

definition rlp_Pool_Size :: "'c rlp_pool \<Rightarrow> nat" where
  "rlp_Pool_Size p = gomap_len (rp_dopplers p)"

section \<open>Picking a client\<close>

text \<open>The first client that is not nil.\<close>

fun first_some :: "'c option list \<Rightarrow> 'c option" where
  "first_some [] = None"
| "first_some (None # cs) = first_some cs"
| "first_some (Some c # cs) = Some c"

lemma first_some_None_iff: "first_some cs = None \<longleftrightarrow> set cs \<subseteq> {None}"
  by (induction cs rule: first_some.induct) auto

lemma first_some_Some: "first_some cs = Some c \<Longrightarrow> Some c \<in> set cs"
  by (induction cs rule: first_some.induct) auto

lemma first_some_replicate [simp]: "first_some (replicate n (Some c)) = (if n = 0 then None else Some c)"
  by (cases n) auto

lemma fetch_index:
  assumes "0 \<le> seed" and "int i + seed < 2 ^ 63" and "0 < sz"
  shows "int64_rem (int64_wrap (int i + seed)) (int sz) = int ((nat seed + i) mod sz)"
proof -
  have "int64_wrap (int i + seed) = int (nat seed + i)" using assms by (simp add: int64_wrap_def)
  then show ?thesis using assms by (cases "nat seed + i = 0") (auto simp: int64_rem_def zmod_int)
qed

lemma fetch_loop_first:
  assumes "0 \<le> seed" and "0 < length clients" and "\<forall>i \<in> set is. int i + seed < 2 ^ 63"
  shows "fetch_loop seed (length clients) clients is =
    Inr (first_some (map (\<lambda>i. clients ! ((nat seed + i) mod length clients)) is))"
  using assms(3)
proof (induction "is")
  case (Cons i "is")
  have "\<not> length clients \<le> (nat seed + i) mod length clients" using mod_less_divisor [OF assms(2)] by (simp add: not_le)
  then show ?case using Cons assms fetch_index [of seed i "length clients"]
    by (cases "clients ! ((nat seed + i) mod length clients)") (auto simp: Let_def nat_int)
qed simp

lemma fetchClient_first_some:
  assumes "length clients = rp_size p" and "0 \<le> seed" and "seed + int (rp_size p) \<le> 2 ^ 63"
  shows "fetchClient seed clients p = Inr (first_some (rotate (nat seed) clients))"
proof (cases "clients = []")
  case True
  then show ?thesis by (simp add: fetchClient_def)
next
  case False
  have "map (\<lambda>i. clients ! ((nat seed + i) mod length clients)) [0 ..< length clients] = rotate (nat seed) clients"
    by (rule nth_equalityI) (simp_all add: nth_rotate)
  moreover have "0 < rp_size p" using False assms(1) by (metis length_greater_0_conv)
  ultimately show ?thesis
    using assms fetch_loop_first [of seed clients "[0 ..< length clients]"] by (simp add: fetchClient_def)
qed

section \<open>The contract of a pool\<close>

text \<open>
  A pool while it is used: the calls of a connector, interleaved in any way with the goroutines that the registrations have
  started. A goroutine is scheduled with some further results of its attempts to connect; it runs on while they all fail.
  \<open>None\<close> is a run that is not possible, as a goroutine that does not run is scheduled, or one that is excluded, as an
  address is closed that may not be (\<open>may_close\<close>).
\<close>

datatype ('g, 'c) pool_event = PoolCalled pool_call | Connecting 'g "(string + 'c) list"

fun pool_exec ::
    "(string \<Rightarrow> 'p \<Rightarrow> 'p) \<Rightarrow> (string \<Rightarrow> 'p \<Rightarrow> 'p) \<Rightarrow> ('g \<Rightarrow> (string + 'c) list \<Rightarrow> 'p \<Rightarrow> 'p) \<Rightarrow> ('p \<Rightarrow> 'g list) \<Rightarrow>
     (string \<Rightarrow> 'p \<Rightarrow> bool) \<Rightarrow> ('g, 'c) pool_event list \<Rightarrow> 'p \<Rightarrow> 'p option" where
  "pool_exec register pool_close connect running may_close [] p = Some p"
| "pool_exec register pool_close connect running may_close (PoolCalled (PoolRegister a) # evs) p =
     pool_exec register pool_close connect running may_close evs (register a p)"
| "pool_exec register pool_close connect running may_close (PoolCalled (PoolClose a) # evs) p =
     (if may_close a p then pool_exec register pool_close connect running may_close evs (pool_close a p) else None)"
| "pool_exec register pool_close connect running may_close (Connecting g results # evs) p =
     (if g \<in> set (running p) then pool_exec register pool_close connect running may_close evs (connect g results p) else None)"

fun pool_calls :: "('g, 'c) pool_event list \<Rightarrow> pool_call list" where
  "pool_calls [] = []"
| "pool_calls (PoolCalled call # evs) = call # pool_calls evs"
| "pool_calls (Connecting g results # evs) = pool_calls evs"

text \<open>The last call on an address decides whether it is registered.\<close>

fun last_registered :: "string \<Rightarrow> pool_call list \<Rightarrow> bool \<Rightarrow> bool" where
  "last_registered b [] r = r"
| "last_registered b (PoolRegister a # calls) r = last_registered b calls (b = a \<or> r)"
| "last_registered b (PoolClose a # calls) r = last_registered b calls (b \<noteq> a \<and> r)"

text \<open>
  What the connectors rely on. An address is promised from its registration to its close, whatever the goroutines do in
  between; only promised addresses can be subscribed to, and all of them once no goroutine runs any more. A goroutine whose
  attempt succeeds ends.
\<close>

locale doppler_pool =
  fixes register :: "string \<Rightarrow> 'p \<Rightarrow> 'p" and pool_close :: "string \<Rightarrow> 'p \<Rightarrow> 'p"
    and connect :: "'g \<Rightarrow> (string + 'c) list \<Rightarrow> 'p \<Rightarrow> 'p" and running :: "'p \<Rightarrow> 'g list"
    and may_close :: "string \<Rightarrow> 'p \<Rightarrow> bool"
    and available :: "string \<Rightarrow> 'p \<Rightarrow> bool" and promised :: "string \<Rightarrow> 'p \<Rightarrow> bool" and pool_inv :: "'p \<Rightarrow> bool"
  assumes register_inv: "pool_inv p \<Longrightarrow> pool_inv (register a p)"
    and close_inv: "pool_inv p \<Longrightarrow> pool_inv (pool_close a p)"
    and connect_inv: "pool_inv p \<Longrightarrow> g \<in> set (running p) \<Longrightarrow> pool_inv (connect g results p)"
    and promised_register: "pool_inv p \<Longrightarrow> promised b (register a p) \<longleftrightarrow> b = a \<or> promised b p"
    and promised_close: "pool_inv p \<Longrightarrow> may_close a p \<Longrightarrow> promised b (pool_close a p) \<longleftrightarrow> b \<noteq> a \<and> promised b p"
    and promised_connect: "pool_inv p \<Longrightarrow> g \<in> set (running p) \<Longrightarrow> promised b (connect g results p) \<longleftrightarrow> promised b p"
    and available_promised: "pool_inv p \<Longrightarrow> available b p \<Longrightarrow> promised b p"
    and promised_available: "pool_inv p \<Longrightarrow> running p = [] \<Longrightarrow> promised b p \<Longrightarrow> available b p"
    and connect_ends: "running (connect g [Inr conn] p) = remove1 g (running p)"
begin

abbreviation exec :: "('g, 'c) pool_event list \<Rightarrow> 'p \<Rightarrow> 'p option" where
  "exec \<equiv> pool_exec register pool_close connect running may_close"

lemma exec_promised:
  "exec evs p = Some p' \<Longrightarrow> pool_inv p \<Longrightarrow>
   pool_inv p' \<and> (promised b p' \<longleftrightarrow> last_registered b (pool_calls evs) (promised b p))"
proof (induction evs arbitrary: p)
  case (Cons ev evs)
  show ?case
  proof (cases ev)
    case (PoolCalled call)
    with Cons show ?thesis
      by (cases call) (simp_all add: register_inv close_inv promised_register promised_close split: if_splits)
  next
    case (Connecting g results)
    with Cons show ?thesis by (simp add: connect_inv promised_connect split: if_splits)
  qed
qed simp

lemma exec_available:
  assumes "exec evs p = Some p'" and "pool_inv p" and "\<not> promised b p"
  shows "available b p' \<Longrightarrow> last_registered b (pool_calls evs) False"
    and "running p' = [] \<Longrightarrow> available b p' \<longleftrightarrow> last_registered b (pool_calls evs) False"
  using exec_promised [OF assms(1,2), of b] assms(3) available_promised [of p' b] promised_available [of p' b] by auto

lemma exec_append: "exec (evs @ evs') p = Option.bind (exec evs p) (exec evs')"
  by (induction evs p rule: pool_exec.induct [of _ register pool_close connect running may_close]) simp_all

text \<open>However far a run has got, its goroutines can all finish.\<close>

lemma exec_can_settle: "\<exists>evs p'. exec evs p = Some p' \<and> pool_calls evs = [] \<and> running p' = []"
proof (induction "length (running p)" arbitrary: p)
  case 0
  then show ?case by (intro exI [of _ "[]"]) simp
next
  case (Suc n)
  then obtain g where g: "g \<in> set (running p)" by (cases "running p") auto
  have "n = length (running (connect g [Inr undefined] p))" using Suc.hyps(2) g by (simp add: connect_ends length_remove1)
  from Suc.hyps(1) [OF this] obtain evs p' where "exec evs (connect g [Inr undefined] p) = Some p'" "pool_calls evs = []" "running p' = []"
    by blast
  with g show ?case by (intro exI [of _ "Connecting g [Inr undefined] # evs"]) simp
qed

end

subsection \<open>The pool of the traffic controller\<close>

text \<open>
  Its entries are made by the goroutines, so the contract holds for runs in which no address is closed while a goroutine
  still connects to it.
\<close>

definition pl_available :: "string \<Rightarrow> 'c pool \<Rightarrow> bool" where
  "pl_available a p = (map_of (pl_dopplers p) a \<noteq> None)"

definition pl_settled :: "string \<Rightarrow> 'c pool \<Rightarrow> bool" where
  "pl_settled a p = (a \<notin> set (pl_connecting p))"

lemma Pool_Subscribe_available:
  "pl_available a p \<Longrightarrow> \<exists>ci. map_of (pl_dopplers p) a = Some ci \<and> Pool_Subscribe BatchSubscribe a req p = BatchSubscribe ci req"
  "\<not> pl_available a p \<Longrightarrow> Pool_Subscribe BatchSubscribe a req p = Inl ''no connections available for subscription''"
  by (auto simp: pl_available_def Pool_Subscribe_def)

lemma insert_set_remove1: "x \<in> set xs \<Longrightarrow> insert x (set (remove1 x xs)) = set xs"
  by (induction xs) auto

interpretation plp: doppler_pool Pool_RegisterDoppler Pool_Close Pool_connectToDoppler pl_connecting pl_settled pl_available
    "\<lambda>a p. pl_available a p \<or> a \<in> set (pl_connecting p)" "\<lambda>_. True"
proof unfold_locales
  fix p :: "'a pool" and g b results
  assume "g \<in> set (pl_connecting p)"
  from insert_set_remove1 [OF this] show "(pl_available b (Pool_connectToDoppler g results p) \<or> b \<in> set (pl_connecting (Pool_connectToDoppler g results p))) \<longleftrightarrow>
      (pl_available b p \<or> b \<in> set (pl_connecting p))"
    by (auto simp: pl_available_def Pool_connectToDoppler_def update_conv' split: option.splits)
qed (auto simp: pl_available_def pl_settled_def Pool_RegisterDoppler_def Pool_Close_def Pool_connectToDoppler_def Let_def delete_conv'
    split: option.splits)

subsection \<open>The pool of the reverse log proxy\<close>

text \<open>
  Its entries are made by \<open>RegisterDoppler\<close> and the goroutines only fill a slice, so the contract holds for all runs. Every
  element of a slice that an address has is filled or has a running goroutine.
\<close>

definition rlp_available :: "string \<Rightarrow> 'c rlp_pool \<Rightarrow> bool" where
  "rlp_available a p = (\<not> set (rlp_clients a p) \<subseteq> {None})"

definition rlp_pool_inv :: "'c rlp_pool \<Rightarrow> bool" where
  "rlp_pool_inv p \<longleftrightarrow> 0 < rp_size p \<and> (\<forall>a s. map_of (rp_dopplers p) a = Some s \<longrightarrow> s < rp_next p)"

definition rlp_filled :: "'c rlp_pool \<Rightarrow> bool" where
  "rlp_filled p \<longleftrightarrow> (\<forall>a s. map_of (rp_dopplers p) a = Some s \<longrightarrow> length (rp_heap p s) = rp_size p \<and>
     (\<forall>i < rp_size p. rp_heap p s ! i \<noteq> None \<or> (a, s, i) \<in> set (rp_connecting p)))"

lemma rlp_filled_connect:
  assumes "rlp_filled p"
  shows "rlp_filled (rlp_connectToDoppler g results p)"
proof (cases "connect_loop results")
  case (Some conn)
  obtain a s i where g: "g = (a, s, i)" by (cases g)
  show ?thesis
    unfolding rlp_filled_def
  proof (intro allI impI conjI)
    fix b t
    assume "map_of (rp_dopplers (rlp_connectToDoppler g results p)) b = Some t"
    then have b: "map_of (rp_dopplers p) b = Some t" by (simp add: rlp_connectToDoppler_def Some g)
    with assms show "length (rp_heap (rlp_connectToDoppler g results p) t) = rp_size (rlp_connectToDoppler g results p)"
      by (auto simp: rlp_filled_def rlp_connectToDoppler_def Some g)
    fix k
    assume "k < rp_size (rlp_connectToDoppler g results p)"
    then have k: "k < rp_size p" by (simp add: rlp_connectToDoppler_def Some g)
    have old: "rp_heap p t ! k \<noteq> None \<or> (b, t, k) \<in> set (rp_connecting p)" "length (rp_heap p t) = rp_size p"
      using assms b k by (auto simp: rlp_filled_def)
    show "rp_heap (rlp_connectToDoppler g results p) t ! k \<noteq> None \<or> (b, t, k) \<in> set (rp_connecting (rlp_connectToDoppler g results p))"
    proof (cases "(t, k) = (s, i)")
      case True
      with old(2) k show ?thesis by (simp add: rlp_connectToDoppler_def Some g)
    next
      case False
      then have "rp_heap (rlp_connectToDoppler g results p) t ! k = rp_heap p t ! k"
        by (auto simp: rlp_connectToDoppler_def Some g nth_list_update)
      moreover have "(b, t, k) \<in> set (rp_connecting p) \<Longrightarrow> (b, t, k) \<in> set (remove1 g (rp_connecting p))"
        using False g by (simp add: in_set_remove1)
      ultimately show ?thesis using old(1) by (auto simp: rlp_connectToDoppler_def Some g)
    qed
  qed
qed (use assms in \<open>simp add: rlp_connectToDoppler_def\<close>)

lemma rlp_filled_register: "rlp_pool_inv p \<Longrightarrow> rlp_filled p \<Longrightarrow> rlp_filled (rlp_RegisterDoppler a p)"
  by (auto simp: rlp_filled_def rlp_pool_inv_def rlp_RegisterDoppler_def Let_def update_conv' split: if_splits)

lemma rlp_filled_available:
  assumes "rlp_pool_inv p" and "rlp_filled p" and "rp_connecting p = []" and "map_of (rp_dopplers p) b \<noteq> None"
  shows "rlp_available b p"
proof -
  from assms(4) obtain s where s: "map_of (rp_dopplers p) b = Some s" by blast
  with assms have "rp_heap p s ! 0 \<noteq> None" "length (rp_heap p s) = rp_size p" "0 < rp_size p"
    by (auto simp: rlp_filled_def rlp_pool_inv_def)
  then show ?thesis using s nth_mem [of 0 "rp_heap p s"] by (force simp: rlp_available_def rlp_clients_def)
qed

interpretation rlpp: doppler_pool rlp_RegisterDoppler rlp_Pool_Close rlp_connectToDoppler rp_connecting "\<lambda>_ _. True" rlp_available
    "\<lambda>a p. map_of (rp_dopplers p) a \<noteq> None" "\<lambda>p. rlp_pool_inv p \<and> rlp_filled p"
proof unfold_locales
  fix p :: "'a rlp_pool" and a
  assume "rlp_pool_inv p \<and> rlp_filled p"
  then show "rlp_pool_inv (rlp_RegisterDoppler a p) \<and> rlp_filled (rlp_RegisterDoppler a p)"
    using rlp_filled_register [of p a]
    by (auto simp: rlp_pool_inv_def rlp_RegisterDoppler_def Let_def update_conv' less_SucI split: if_splits)
next
  fix p :: "'a rlp_pool" and a
  assume "rlp_pool_inv p \<and> rlp_filled p"
  then show "rlp_pool_inv (rlp_Pool_Close a p) \<and> rlp_filled (rlp_Pool_Close a p)"
    by (auto simp: rlp_pool_inv_def rlp_filled_def rlp_Pool_Close_def delete_conv' split: if_splits)
next
  fix p :: "'a rlp_pool" and g results
  assume "rlp_pool_inv p \<and> rlp_filled p"
  then show "rlp_pool_inv (rlp_connectToDoppler g results p) \<and> rlp_filled (rlp_connectToDoppler g results p)"
    using rlp_filled_connect [of p g results] by (auto simp: rlp_pool_inv_def rlp_connectToDoppler_def split: option.splits prod.splits)
next
  fix p :: "'a rlp_pool" and b
  assume "rlp_available b p"
  then show "map_of (rp_dopplers p) b \<noteq> None" by (auto simp: rlp_available_def rlp_clients_def)
next
  fix p :: "'a rlp_pool" and b
  assume "rlp_pool_inv p \<and> rlp_filled p" and "rp_connecting p = []" and "map_of (rp_dopplers p) b \<noteq> None"
  then show "rlp_available b p" using rlp_filled_available by blast
qed (auto simp: rlp_RegisterDoppler_def rlp_Pool_Close_def rlp_connectToDoppler_def Let_def update_conv' delete_conv'
    split: option.splits prod.splits)

text \<open>What availability means for \<open>Subscribe\<close>, for a random position below \<open>2^63 - size\<close>.\<close>

lemma rlp_Pool_Subscribe_available:
  assumes "rlp_filled p" and "0 \<le> seed" and "seed + int (rp_size p) \<le> 2 ^ 63"
  shows "rlp_available a p \<Longrightarrow>
      \<exists>c. Some c \<in> set (rlp_clients a p) \<and> rlp_Pool_Subscribe BatchedReceiver seed a req p = Inr (BatchedReceiver c req)"
    and "\<not> rlp_available a p \<Longrightarrow>
      rlp_Pool_Subscribe BatchedReceiver seed a req p = Inr (Inl ''no connections available for subscription'')"
proof -
  have f: "fetchClient seed (rlp_clients a p) p = Inr (first_some (rotate (nat seed) (rlp_clients a p)))"
  proof (cases "map_of (rp_dopplers p) a")
    case None
    then show ?thesis by (simp add: rlp_clients_def fetchClient_def)
  next
    case (Some s)
    with assms show ?thesis by (intro fetchClient_first_some) (auto simp: rlp_clients_def rlp_filled_def)
  qed
  show "\<exists>c. Some c \<in> set (rlp_clients a p) \<and> rlp_Pool_Subscribe BatchedReceiver seed a req p = Inr (BatchedReceiver c req)"
    if "rlp_available a p"
  proof -
    have "first_some (rotate (nat seed) (rlp_clients a p)) \<noteq> None" using that by (simp add: first_some_None_iff rlp_available_def)
    then obtain c where "first_some (rotate (nat seed) (rlp_clients a p)) = Some c" by blast
    with first_some_Some [OF this] f show ?thesis by (auto simp: rlp_Pool_Subscribe_def)
  qed
  show "rlp_Pool_Subscribe BatchedReceiver seed a req p = Inr (Inl ''no connections available for subscription'')"
    if "\<not> rlp_available a p"
  proof -
    have "first_some (rotate (nat seed) (rlp_clients a p)) = None" using that by (simp add: first_some_None_iff rlp_available_def)
    with f show ?thesis by (simp add: rlp_Pool_Subscribe_def)
  qed
qed

section \<open>Properties\<close>

text \<open>
  A client is picked from a slice by scanning it from a random position: if the position is below
  \<open>2^63 - size\<close> the scan cannot panic and returns the first connection in cyclic order from there, so it
  returns one whenever one of the connections of the address has been made.
\<close>

theorem fetchClient_scans_cyclically:
  assumes "length clients = rp_size p" and "0 \<le> seed" and "seed + int (rp_size p) \<le> 2 ^ 63"
  shows "fetchClient seed clients p = Inr (first_some (rotate (nat seed) clients)) \<and>
    (fetchClient seed clients p = Inr None \<longleftrightarrow> set clients \<subseteq> {None})"
  using fetchClient_first_some [OF assms] by (simp add: first_some_None_iff)

theorem fetchClient_scans_cyclically_witness:
  "fetchClient 5 [None, Some ''c1'', None] (rlp_NewPool 3) = Inr (Some ''c1'')"
  using fetchClient_scans_cyclically [of "[None, Some ''c1'', None]" "rlp_NewPool 3 :: string rlp_pool" 5]
  by (simp add: rlp_NewPool_def rotate_def numeral_eq_Suc)

text \<open>
  The bound on the random position is needed: \<open>rand.Int\<close> may return any value below \<open>2^63\<close>, the sum with
  the loop index can wrap to a negative number, and then the index is negative and the lookup panics.
\<close>

lemma fetchClient_overflow_panics:
  "fetchClient (2 ^ 63 - 1) [Some ''c0'', None, Some ''c2''] (rlp_NewPool 3) = Inl IndexOutOfRange"
  by (simp add: fetchClient_def rlp_NewPool_def upt_rec int64_wrap_def int64_rem_def Let_def)

text \<open>The calls that an event of the finder makes on the pool.\<close>

lemma last_registered_append [simp]: "last_registered b (xs @ ys) r = last_registered b ys (last_registered b xs r)"
  by (induction b xs r rule: last_registered.induct) simp_all

lemma last_registered_regs [simp]: "last_registered b (map PoolRegister us) r \<longleftrightarrow> b \<in> set us \<or> r"
  by (induction us arbitrary: r) auto

lemma last_registered_closes [simp]: "last_registered b (map (\<lambda>i. PoolClose (f i)) is) r \<longleftrightarrow> b \<notin> f ` set is \<and> r"
  by (induction "is" arbitrary: r) auto

text \<open>Without streams, the registered addresses are those of the clients.\<close>

definition pool_in_sync :: "connector \<Rightarrow> bool" where
  "pool_in_sync c \<longleftrightarrow> clients_ok c \<and> (\<forall>i \<in> set (c_clients c). ci_refCount (c_heap c i) = 0) \<and>
     (\<forall>b. last_registered b (c_pool c) False \<longleftrightarrow> b \<in> uri_of c ` set (c_clients c))"

lemma finder_event_in_sync:
  assumes "pool_in_sync c" and "distinct uris"
  shows "pool_in_sync (handleFinderEvent uris c) \<and>
    uri_of (handleFinderEvent uris c) ` set (c_clients (handleFinderEvent uris c)) = set uris"
proof -
  let ?c = "handleFinderEvent uris c"
  have ok: "clients_ok c" and zero: "\<And>i. i \<in> set (c_clients c) \<Longrightarrow> ci_refCount (c_heap c i) = 0"
    using assms(1) by (auto simp: pool_in_sync_def)
  note eq = handleFinderEvent_eq [OF ok assms(2)]
  have lt: "\<And>i. i \<in> set (c_clients c) \<Longrightarrow> i < c_next c" using ok by (auto simp: clients_ok_def)
  have gone: "idle_gone uris c = filter (\<lambda>i. uri_of c i \<notin> set uris) (c_clients c)"
    unfolding idle_gone_def by (intro filter_cong refl) (auto simp: zero)
  have old: "uri_of ?c i = uri_of c i" if "i \<in> set (c_clients c)" for i
    using lt [OF that] by (simp add: handleFinderEvent_uri [OF ok assms(2)] new_ids_def)
  have new: "uri_of ?c ` set (new_ids uris c) = set (new_addrs uris c)"
    by (metis list.set_map new_ids_addrs [OF ok assms(2)])
  have cl: "c_clients ?c = filter (\<lambda>i. i \<notin> set (idle_gone uris c)) (c_clients c) @ new_ids uris c" by (simp add: eq)
  have "uri_of ?c ` set (c_clients ?c) = uri_of c ` {i \<in> set (c_clients c). uri_of c i \<in> set uris} \<union> set (new_addrs uris c)"
    by (auto simp: cl image_Un new gone old)
  also have "\<dots> = set uris" by (auto simp: new_addrs_def)
  finally have uris: "uri_of ?c ` set (c_clients ?c) = set uris" .
  have "last_registered b (c_pool ?c) False \<longleftrightarrow> b \<in> set uris" for b
    using assms(1) by (auto simp: eq pool_in_sync_def gone new_addrs_def)
  moreover have "ci_refCount (c_heap ?c i) = 0" if "i \<in> set (c_clients ?c)" for i
    using that by (auto simp: cl eq zero)
  ultimately show ?thesis
    using handleFinderEvent_clients_ok [OF ok assms(2)] uris by (simp add: pool_in_sync_def)
qed

lemma finder_events_in_sync:
  "\<forall>e \<in> set events. distinct e \<Longrightarrow>
   (let c = foldl (\<lambda>c uris. handleFinderEvent uris c) (new_connector n) events
    in pool_in_sync c \<and> uri_of c ` set (c_clients c) = set (if events = [] then [] else last events))"
proof (induction events rule: rev_induct)
  case Nil
  then show ?case by (simp add: pool_in_sync_def new_connector_def clients_ok_def)
next
  case (snoc e events)
  then show ?case using finder_event_in_sync [of _ e] by (simp add: Let_def)
qed

text \<open>
  C25. The connector and the pools together. A pool is called as a connector calls it, in any interleaving with the goroutines
  that connect, whose attempts may fail any number of times. For the calls that any sequence of finder events makes, each of
  distinct addresses, before any stream runs: an address that can be subscribed to is one of the last event, and once no
  goroutine runs any more all the addresses of the last event can be subscribed to. This holds for every run of the pool of the
  reverse log proxy, and for those runs of the pool of the traffic controller in which no address is closed while a goroutine
  still connects to it.
\<close>

theorem pools_follow_finder:
  assumes "\<forall>e \<in> set (events @ [uris]). distinct e" and "0 < sz"
    and "pool_calls evs = c_pool (foldl (\<lambda>c uris. handleFinderEvent uris c) (new_connector n) (events @ [uris]))"
    and "pool_calls evs' = c_pool (foldl (\<lambda>c uris. handleFinderEvent uris c) (new_connector n) (events @ [uris]))"
    and "pool_exec Pool_RegisterDoppler Pool_Close Pool_connectToDoppler pl_connecting pl_settled evs NewPool = Some p"
    and "pool_exec rlp_RegisterDoppler rlp_Pool_Close rlp_connectToDoppler rp_connecting (\<lambda>_ _. True) evs' (rlp_NewPool sz) = Some q"
  shows "(pl_available b p \<longrightarrow> b \<in> set uris) \<and> (pl_connecting p = [] \<longrightarrow> (pl_available b p \<longleftrightarrow> b \<in> set uris)) \<and>
    (rlp_available b q \<longrightarrow> b \<in> set uris) \<and> (rp_connecting q = [] \<longrightarrow> (rlp_available b q \<longleftrightarrow> b \<in> set uris))"
proof -
  have reg: "last_registered b (pool_calls evs) False \<longleftrightarrow> b \<in> set uris" "last_registered b (pool_calls evs') False \<longleftrightarrow> b \<in> set uris"
    using finder_events_in_sync [OF assms(1), of n] assms(3,4) by (simp_all add: Let_def pool_in_sync_def)
  have "\<not> (pl_available b NewPool \<or> b \<in> set (pl_connecting NewPool))" by (simp add: pl_available_def NewPool_def)
  note pl = plp.exec_available [OF assms(5) TrueI this]
  have "rlp_pool_inv (rlp_NewPool sz) \<and> rlp_filled (rlp_NewPool sz)" "\<not> map_of (rp_dopplers (rlp_NewPool sz)) b \<noteq> None"
    using assms(2) by (simp_all add: rlp_pool_inv_def rlp_filled_def rlp_NewPool_def)
  note rlp = rlpp.exec_available [OF assms(6) this]
  from pl rlp reg show ?thesis by blast
qed

theorem pools_follow_finder_witness:
  "\<exists>p q. pool_exec Pool_RegisterDoppler Pool_Close Pool_connectToDoppler pl_connecting pl_settled
       [PoolCalled (PoolRegister ''a''), Connecting ''a'' [Inl ''refused'', Inr (7::nat)], PoolCalled (PoolRegister ''b''),
        PoolCalled (PoolClose ''a''), Connecting ''b'' [Inr 8]] NewPool = Some p \<and>
     pool_exec rlp_RegisterDoppler rlp_Pool_Close rlp_connectToDoppler rp_connecting (\<lambda>_ _. True)
       [PoolCalled (PoolRegister ''a''), PoolCalled (PoolRegister ''b''), PoolCalled (PoolClose ''a''),
        Connecting (''a'', 0, 0) [Inr (7::nat)], Connecting (''b'', 1, 0) [Inr 8]] (rlp_NewPool 1) = Some q \<and>
     pl_available ''b'' p \<and> \<not> pl_available ''a'' p \<and> rlp_available ''b'' q \<and> \<not> rlp_available ''a'' q"
proof -
  let ?evs = "[PoolCalled (PoolRegister ''a''), Connecting ''a'' [Inl ''refused'', Inr (7::nat)], PoolCalled (PoolRegister ''b''),
      PoolCalled (PoolClose ''a''), Connecting ''b'' [Inr 8]]"
  let ?evs' = "[PoolCalled (PoolRegister ''a''), PoolCalled (PoolRegister ''b''), PoolCalled (PoolClose ''a''),
      Connecting (''a'', 0, 0) [Inr (7::nat)], Connecting (''b'', 1, 0) [Inr 8]]"
  let ?run = "pool_exec Pool_RegisterDoppler Pool_Close Pool_connectToDoppler pl_connecting pl_settled ?evs NewPool"
  let ?run' = "pool_exec rlp_RegisterDoppler rlp_Pool_Close rlp_connectToDoppler rp_connecting (\<lambda>_ _. True) ?evs' (rlp_NewPool 1)"
  have "case ?run of Some p \<Rightarrow> pl_connecting p = [] | None \<Rightarrow> False" by code_simp
  then obtain p where p: "?run = Some p" "pl_connecting p = []" by (auto split: option.splits)
  have "case ?run' of Some q \<Rightarrow> rp_connecting q = [] | None \<Rightarrow> False" by code_simp
  then obtain q where q: "?run' = Some q" "rp_connecting q = []" by (auto split: option.splits)
  have calls: "c_pool (foldl (\<lambda>c uris. handleFinderEvent uris c) (new_connector 1) ([[''a'']] @ [[''b'']])) =
      [PoolRegister ''a'', PoolRegister ''b'', PoolClose ''a'']" by code_simp
  have d: "\<forall>e \<in> set ([[''a'']] @ [[''b'']]). distinct e" by simp
  have c: "pool_calls ?evs = c_pool (foldl (\<lambda>c uris. handleFinderEvent uris c) (new_connector 1) ([[''a'']] @ [[''b'']]))"
    "pool_calls ?evs' = c_pool (foldl (\<lambda>c uris. handleFinderEvent uris c) (new_connector 1) ([[''a'']] @ [[''b'']]))"
    unfolding calls by simp_all
  note follows = pools_follow_finder [OF d zero_less_one c p(1) q(1)]
  from follows [of "''a''"] follows [of "''b''"] p q show ?thesis by simp
qed

text \<open>
  C37. A task that starts late breaks this: after its client was closed as idle and its address was
  registered again, it uses the new connection and closes it when it ends. The connector is then left
  with an enabled client whose address cannot be subscribed to, and its live consumer has neither a
  stream nor a task for it. In the run of the pool no address is closed while a goroutine connects to it, and all its
  goroutines have ended.
\<close>

theorem stale_task_closes_new_connection:
  "\<exists>c i k evs p. conn_reachable 1 c \<and> i \<in> set (c_clients c) \<and> \<not> ci_disconnect (c_heap c i) \<and>
     k \<in> set (live_consumers c) \<and> c_spawned c = [] \<and> c_entered c = [] \<and> c_active c = [] \<and>
     pool_calls evs = c_pool c \<and>
     pool_exec Pool_RegisterDoppler Pool_Close Pool_connectToDoppler pl_connecting pl_settled evs (NewPool :: nat pool) = Some p \<and>
     pl_connecting p = [] \<and> \<not> pl_available (uri_of c i) p"
proof -
  let ?c1 = "subscribe_connect 0 (fst (subscribe_register (handleFinderEvent [''a''] (new_connector 1))))"
  let ?c2 = "handleFinderEvent [''a''] (handleFinderEvent [] ?c1)"
  let ?c3 = "consume_enter (0, 1) (consume_enter (0, 0) ?c2)"
  let ?c4 = "consume_exit (0, 0) (consume_count (0, 0) ?c3)"
  let ?evs = "[PoolCalled (PoolRegister ''a''), Connecting ''a'' [Inr (0 :: nat)], PoolCalled (PoolClose ''a''),
      PoolCalled (PoolRegister ''a''), Connecting ''a'' [Inr 1], PoolCalled (PoolClose ''a'')]"
  let ?run = "pool_exec Pool_RegisterDoppler Pool_Close Pool_connectToDoppler pl_connecting pl_settled ?evs NewPool"
  note s = conn_reachable.step
  have "conn_reachable 1 (fst (subscribe_register (handleFinderEvent [''a''] (new_connector 1))))"
    by (intro s [OF s [OF conn_reachable.init conn_step.finder] conn_step.register]) simp
  then have "conn_reachable 1 ?c1" by (rule s) (rule conn_step.connect, code_simp)
  then have "conn_reachable 1 ?c2" by (intro s [OF s [OF _ conn_step.finder] conn_step.finder]) simp_all
  then have "conn_reachable 1 (consume_enter (0, 0) ?c2)" by (rule s) (rule conn_step.enter, code_simp)
  then have "conn_reachable 1 ?c3" by (rule s) (rule conn_step.enter, code_simp)
  then have "conn_reachable 1 (consume_count (0, 0) ?c3)" by (rule s) (rule conn_step.counted, code_simp)
  then have "conn_reachable 1 ?c4" by (rule s) (rule conn_step.leave, code_simp)
  moreover have "1 \<in> set (c_clients ?c4)" "\<not> ci_disconnect (c_heap ?c4 1)" "0 \<in> set (live_consumers ?c4)"
    "c_spawned ?c4 = []" "c_entered ?c4 = []" "c_active ?c4 = []" "uri_of ?c4 1 = ''a''" by code_simp+
  moreover have "pool_calls ?evs = c_pool ?c4" by code_simp
  moreover have "?run = Some \<lparr>pl_dopplers = [], pl_connecting = [], pl_closed = [0, 1]\<rparr>" by code_simp
  moreover have "\<not> pl_available ''a'' \<lparr>pl_dopplers = [], pl_connecting = [], pl_closed = [0 :: nat, 1]\<rparr>" by (simp add: pl_available_def)
  ultimately show ?thesis by (metis pool.select_convs(2))
qed

text \<open>
  C39. Closing an address while its connection is still being made does not stop the goroutine: the
  connection is stored after the close. In the pool of the traffic controller the closed address can be
  subscribed to again, and in that of the reverse log proxy the connection can neither be used nor closed.
\<close>

theorem close_before_connect_leaks:
  assumes "connect_loop results = Some conn" and "conn \<notin> set (pl_closed p)" and "map_of (pl_dopplers p) a = None"
    and "rp_size q = 1" and "rlp_pool_inv q" and "conn \<notin> set (rp_closed q)" and "map_of (rp_dopplers q) a = None"
  shows "let p' = Pool_connectToDoppler a results (Pool_Close a (Pool_RegisterDoppler a p));
             q' = rlp_connectToDoppler (a, rp_next q, 0) results (rlp_Pool_Close a (rlp_RegisterDoppler a q))
    in map_of (pl_dopplers p') a = Some conn \<and> conn \<notin> set (pl_closed p') \<and>
       rp_heap q' (rp_next q) = [Some conn] \<and> rp_next q \<notin> ran (map_of (rp_dopplers q')) \<and> conn \<notin> set (rp_closed q')"
proof -
  have "rp_next q \<notin> ran ((map_of (rp_dopplers q))(a := None))"
    using assms(5) by (auto simp: rlp_pool_inv_def ran_def)
  then show ?thesis
    using assms by (simp add: Let_def Pool_connectToDoppler_def Pool_Close_def Pool_RegisterDoppler_def
        rlp_connectToDoppler_def rlp_Pool_Close_def rlp_RegisterDoppler_def rlp_clients_def update_conv' delete_conv'
        map_filter_def)
qed

theorem close_before_connect_leaks_witness:
  "map_of (pl_dopplers (Pool_connectToDoppler ''a'' [Inl ''refused'', Inr (5::nat)]
     (Pool_Close ''a'' (Pool_RegisterDoppler ''a'' NewPool)))) ''a'' = Some 5"
  using close_before_connect_leaks [of "[Inl ''refused'', Inr (5::nat)]" 5 NewPool "''a''" "rlp_NewPool 1"]
  by (simp add: Let_def NewPool_def rlp_NewPool_def rlp_pool_inv_def)

end
