(* ===== verification/RlpEgress.thy ===== *)
theory RlpEgress
  imports Batching
begin

text \<open>
  The egress server of the reverse log proxy (\<open>rlp/internal/egress/server.go\<close>): the admission of streams, the
  selectors and the tags it converges, and its two receivers.

  Parameters: the receiver that yields envelopes (its results are a list of events), \<open>Send\<close> of the gRPC stream
  (its error), the clock, and \<open>fmt.Sprint\<close> on a \<open>float64\<close>. Between the goroutine that fills the channel
  \<open>buffer\<close> and the loop of the call any interleaving is allowed: a run is a list of events.
\<close>

section \<open>The server and its streams\<close>

datatype rlp_error =
    NilError
  | ResourceExhausted string
  | InvalidArgument string
  | PlainError string

record rlp_server =
  rs_egressMetric :: metric_Counter
  rs_droppedMetric :: metric_Counter
  rs_rejectedMetric :: metric_Counter
  rs_subscriptionsMetric :: metric_Gauge
  rs_batchSize :: int
  rs_batchInterval :: int
  rs_maxStreams :: int
  rs_subscriptions :: int

definition WithMaxStreams :: "int \<Rightarrow> rlp_server \<Rightarrow> rlp_server" where
  "WithMaxStreams conn s = s\<lparr>rs_maxStreams := conn\<rparr>"

definition rlp_NewServer :: "metric_Client \<Rightarrow> int \<Rightarrow> int \<Rightarrow> (rlp_server \<Rightarrow> rlp_server) list \<Rightarrow> rlp_server" where
  "rlp_NewServer m batchSize batchInterval opts =
     foldl (\<lambda>s opt. opt s)
       \<lparr>rs_egressMetric = Client_NewCounter ''egress'' [WithVersion 2 0] m,
        rs_droppedMetric = Client_NewCounter ''dropped'' [WithVersion 2 0, WithTags [(''direction'', ''egress'')]] m,
        rs_rejectedMetric = Client_NewCounter ''rejected_streams'' [WithVersion 2 0] m,
        rs_subscriptionsMetric = Client_NewGauge ''subscriptions'' ''total'' [WithVersion 2 0] m,
        rs_batchSize = batchSize, rs_batchInterval = batchInterval, rs_maxStreams = 500, rs_subscriptions = 0\<rparr> opts"

text \<open>The head of both receivers: the gauge and \<open>subCount\<close>; and what is deferred.\<close>

definition stream_open :: "(float64 \<Rightarrow> uint64) \<Rightarrow> float64 \<Rightarrow> rlp_server \<Rightarrow> int \<times> rlp_server" where
  "stream_open toUint64 one s =
     (rs_subscriptions s + 1,
      s\<lparr>rs_subscriptionsMetric := Gauge_Increment toUint64 one (rs_subscriptionsMetric s),
        rs_subscriptions := rs_subscriptions s + 1\<rparr>)"

definition stream_end :: "(float64 \<Rightarrow> uint64) \<Rightarrow> float64 \<Rightarrow> rlp_server \<Rightarrow> rlp_server" where
  "stream_end toUint64 one s =
     s\<lparr>rs_subscriptionsMetric := Gauge_Decrement toUint64 one (rs_subscriptionsMetric s),
       rs_subscriptions := rs_subscriptions s - 1\<rparr>"

definition convergeSelectors :: "Selector option \<Rightarrow> Selector list \<Rightarrow> Selector list" where
  "convergeSelectors legacy selectors =
     (if legacy \<noteq> None \<and> length selectors > 0 then selectors
      else case legacy of Some l \<Rightarrow> [l] | None \<Rightarrow> selectors)"

definition check_selectors :: "Selector list \<Rightarrow> rlp_error option" where
  "check_selectors selectors =
     (if length selectors = 0 then Some (InvalidArgument ''Selectors cannot be empty'')
      else if list_ex (\<lambda>s. Selector_Message s = None) selectors
      then Some (InvalidArgument ''Selectors must have a Message'')
      else None)"

text \<open>From the number of streams to the request that \<open>receiver.Subscribe\<close> gets.\<close>

definition check_streams :: "int \<Rightarrow> rlp_server \<Rightarrow> rlp_server \<times> rlp_error option" where
  "check_streams subCount s =
     (if subCount > rs_maxStreams s
      then (s\<lparr>rs_rejectedMetric := Counter_Increment 1 (rs_rejectedMetric s)\<rparr>,
            Some (ResourceExhausted (''unable to create stream, max egress streams reached: '' @ itoa (rs_maxStreams s))))
      else (s, None))"

definition rlp_Receiver_request :: "int \<Rightarrow> EgressRequest \<Rightarrow> rlp_server \<Rightarrow> rlp_server \<times> (rlp_error + EgressBatchRequest)" where
  "rlp_Receiver_request subCount r s =
     (case check_streams subCount s of
        (s, Some err) \<Rightarrow> (s, Inl err)
      | (s, None) \<Rightarrow>
          let r = r\<lparr>er_Selectors := convergeSelectors (er_LegacySelector r) (er_Selectors r), er_LegacySelector := None\<rparr>
          in case check_selectors (er_Selectors r) of
               Some err \<Rightarrow> (s, Inl err)
             | None \<Rightarrow>
                 (s, Inr \<lparr>ebr_ShardId = er_ShardId r, ebr_DeterministicName = [], ebr_LegacySelector = None,
                          ebr_Selectors = er_Selectors r, ebr_UsePreferredTags = er_UsePreferredTags r\<rparr>))"

definition rlp_BatchedReceiver_request ::
    "int \<Rightarrow> EgressBatchRequest \<Rightarrow> rlp_server \<Rightarrow> rlp_server \<times> (rlp_error + EgressBatchRequest)" where
  "rlp_BatchedReceiver_request subCount r s =
     (case check_streams subCount s of
        (s, Some err) \<Rightarrow> (s, Inl err)
      | (s, None) \<Rightarrow>
          let r = r\<lparr>ebr_Selectors := convergeSelectors (ebr_LegacySelector r) (ebr_Selectors r), ebr_LegacySelector := None\<rparr>
          in case check_selectors (ebr_Selectors r) of
               Some err \<Rightarrow> (s, Inl err)
             | None \<Rightarrow> (s, Inr r))"

text \<open>The error for a subscription that \<open>receiver.Subscribe\<close> refuses.\<close>

definition rlp_setup :: "string + 'rx \<Rightarrow> rlp_error + 'rx" where
  "rlp_setup subscribed =
     (case subscribed of Inl err \<Rightarrow> Inl (PlainError ''unable to setup subscription'') | Inr rx \<Rightarrow> Inr rx)"

section \<open>Tags\<close>

definition sprint_value :: "(float64 \<Rightarrow> string) \<Rightarrow> Value_Data \<Rightarrow> string" where
  "sprint_value sprintFloat x =
     (case x of Value_Decimal d \<Rightarrow> sprintFloat d | Value_Integer i \<Rightarrow> itoa (sint i) | Value_Text t \<Rightarrow> t)"

fun preferred_loop :: "(float64 \<Rightarrow> string) \<Rightarrow> (string, Value option) gomap \<Rightarrow> (string, string) gomap \<Rightarrow> (string, string) gomap go" where
  "preferred_loop sprintFloat [] ts = Inr ts"
| "preferred_loop sprintFloat ((name, v) # rest) ts =
     (case v of
        None \<Rightarrow> Inl NilDereference
      | Some v \<Rightarrow>
          preferred_loop sprintFloat rest
            (case Value_Data v of None \<Rightarrow> ts | Some x \<Rightarrow> gomap_set name (sprint_value sprintFloat x) ts))"

definition convergeTags :: "(float64 \<Rightarrow> string) \<Rightarrow> bool \<Rightarrow> Envelope \<Rightarrow> Envelope go" where
  "convergeTags sprintFloat usePreferred e =
     (if usePreferred
      then case preferred_loop sprintFloat (case DeprecatedTags e of None \<Rightarrow> [] | Some m \<Rightarrow> m)
               (case Tags e of None \<Rightarrow> [] | Some m \<Rightarrow> m) of
             Inl p \<Rightarrow> Inl p
           | Inr ts \<Rightarrow> Inr (e\<lparr>Tags := Some ts, DeprecatedTags := None\<rparr>)
      else Inr (e\<lparr>DeprecatedTags := Some (foldl (\<lambda>m (name, v). gomap_set name (Some \<lparr>Value_Data = Some (Value_Text v)\<rparr>) m)
                    (case DeprecatedTags e of None \<Rightarrow> [] | Some m \<Rightarrow> m)
                    (case Tags e of None \<Rightarrow> [] | Some m \<Rightarrow> m)),
                  Tags := None\<rparr>))"

section \<open>A stream\<close>

definition envelopeBufferSize :: nat where
  "envelopeBufferSize = 10000"

text \<open>
  The call (\<open>rl_stream\<close>, its channel of send errors in \<open>st_errStream\<close>), the channel \<open>buffer\<close>, the channel of
  receive errors and the counter of dropped envelopes; \<open>rl_received\<close> records what the receiver yielded, with
  its tags converged.
\<close>

record rlp_stream =
  rl_stream :: "(Envelope, rlp_error) stream_state"
  rl_buffer :: "Envelope list"
  rl_closed :: bool
  rl_receiveErr :: "string option"
  rl_dropped :: metric_Counter
  rl_received :: "Envelope list"

text \<open>A round of the goroutine that reads from the receiver; the batched one reports the error.\<close>

definition consume_rx ::
    "(float64 \<Rightarrow> string) \<Rightarrow> bool \<Rightarrow> bool \<Rightarrow> string + Envelope \<Rightarrow> rlp_stream \<Rightarrow> rlp_stream go" where
  "consume_rx sprintFloat reports usePreferred rx s =
     (case rx of
        Inl err \<Rightarrow> Inr (s\<lparr>rl_receiveErr := if reports then Some err else rl_receiveErr s, rl_closed := True\<rparr>)
      | Inr e \<Rightarrow>
          (case convergeTags sprintFloat usePreferred e of
             Inl p \<Rightarrow> Inl p
           | Inr e \<Rightarrow>
               let s = s\<lparr>rl_received := rl_received s @ [e]\<rparr>
               in if length (rl_buffer s) < envelopeBufferSize then Inr (s\<lparr>rl_buffer := rl_buffer s @ [e]\<rparr>)
                  else Inr (s\<lparr>rl_dropped := Counter_Increment 1 (rl_dropped s)\<rparr>)))"

definition consumeReceiver ::
    "(float64 \<Rightarrow> string) \<Rightarrow> bool \<Rightarrow> string + Envelope \<Rightarrow> rlp_stream \<Rightarrow> rlp_stream go" where
  "consumeReceiver sprintFloat = consume_rx sprintFloat False"

definition consumeBatchReceiver ::
    "(float64 \<Rightarrow> string) \<Rightarrow> bool \<Rightarrow> string + Envelope \<Rightarrow> rlp_stream \<Rightarrow> rlp_stream go" where
  "consumeBatchReceiver sprintFloat = consume_rx sprintFloat True"

definition rlp_batchWriter_Write ::
    "rlp_error option \<Rightarrow> Envelope list \<Rightarrow> (Envelope, rlp_error) stream_state \<Rightarrow> (Envelope, rlp_error) stream_state" where
  "rlp_batchWriter_Write err batch s =
     (let s = s\<lparr>st_tried := st_tried s @ [batch]\<rparr>
      in case err of
           None \<Rightarrow> s\<lparr>st_egress := Counter_Increment (of_nat (length batch)) (st_egress s), st_sent := st_sent s @ [batch]\<rparr>
         | Some e \<Rightarrow> if st_errStream s = None then s\<lparr>st_errStream := Some e\<rparr> else s)"

definition rlp_batched ::
    "rlp_error option \<Rightarrow> (Envelope Batcher \<Rightarrow> Envelope Batcher \<times> Envelope list list) \<Rightarrow>
     (Envelope, rlp_error) stream_state \<Rightarrow> (Envelope, rlp_error) stream_state" where
  "rlp_batched err f s =
     (let (b, batches) = f (st_batcher s)
      in foldl (\<lambda>s batch. rlp_batchWriter_Write err batch s) (s\<lparr>st_batcher := b\<rparr>) batches)"

text \<open>
  One envelope for the batcher, with two readings of the clock and the error of \<open>Send\<close>; and the rest of the
  channel, each envelope with its own.
\<close>

definition rlp_write ::
    "int \<times> int \<times> rlp_error option \<Rightarrow> Envelope \<Rightarrow> (Envelope, rlp_error) stream_state \<Rightarrow> (Envelope, rlp_error) stream_state" where
  "rlp_write t d s =
     (let (now, now', err) = t
      in rlp_batched err (V2EnvelopeBatcher_Write now now' d) (s\<lparr>st_got := st_got s @ [d]\<rparr>))"

fun rlp_drain ::
    "(nat \<Rightarrow> int \<times> int \<times> rlp_error option) \<Rightarrow> nat \<Rightarrow> Envelope list \<Rightarrow>
     (Envelope, rlp_error) stream_state \<Rightarrow> (Envelope, rlp_error) stream_state" where
  "rlp_drain ts k [] s = s"
| "rlp_drain ts k (d # ds) s = rlp_drain ts (Suc k) ds (rlp_write (ts k) d s)"

text \<open>The cases of the \<open>select\<close> of the batched receiver; \<open>None\<close> is a case that is not ready.\<close>

datatype rlp_case =
    FromBuffer "int \<times> int \<times> rlp_error option"
  | FromSenderErr
  | FromReceiveErr "nat \<Rightarrow> int \<times> int \<times> rlp_error option" int "rlp_error option"
  | FromTimer int int "rlp_error option"

definition rlp_select :: "(float64 \<Rightarrow> uint64) \<Rightarrow> float64 \<Rightarrow> rlp_case \<Rightarrow> rlp_stream \<Rightarrow> rlp_stream option" where
  "rlp_select toUint64 one c s =
     (if st_status (rl_stream s) \<noteq> Running then None
      else case c of
        FromBuffer t \<Rightarrow>
          (case rl_buffer s of
             [] \<Rightarrow> if rl_closed s then Some s else None
           | d # ds \<Rightarrow> Some (s\<lparr>rl_buffer := ds, rl_stream := rlp_write t d (rl_stream s)\<rparr>))
      | FromSenderErr \<Rightarrow>
          (case st_errStream (rl_stream s) of
             None \<Rightarrow> None
           | Some err \<Rightarrow>
               Some (s\<lparr>rl_stream := leave_stream toUint64 one (PlainError ''unexpected EOF'') ((rl_stream s)\<lparr>st_errStream := None\<rparr>)\<rparr>))
      | FromReceiveErr ts now err \<Rightarrow>
          (case rl_receiveErr s of
             None \<Rightarrow> None
           | Some _ \<Rightarrow>
               Some (s\<lparr>rl_receiveErr := None, rl_buffer := [],
                       rl_stream := leave_stream toUint64 one NilError
                         (rlp_batched err (Batcher_ForcedFlush now) (rlp_drain ts 0 (rl_buffer s) (rl_stream s)))\<rparr>))
      | FromTimer now now' err \<Rightarrow> Some (s\<lparr>rl_stream := rlp_batched err (Batcher_Flush now now') (rl_stream s)\<rparr>))"

text \<open>A round of the loop of the other receiver, which sends every envelope on its own.\<close>

definition rlp_Receiver_round ::
    "(float64 \<Rightarrow> uint64) \<Rightarrow> float64 \<Rightarrow> rlp_error option \<Rightarrow> rlp_stream \<Rightarrow> rlp_stream option" where
  "rlp_Receiver_round toUint64 one err s =
     (if st_status (rl_stream s) \<noteq> Running then None
      else case rl_buffer s of
        [] \<Rightarrow> if rl_closed s then Some (s\<lparr>rl_stream := leave_stream toUint64 one NilError (rl_stream s)\<rparr>) else None
      | d # ds \<Rightarrow>
          let st = (rl_stream s)\<lparr>st_got := st_got (rl_stream s) @ [d], st_tried := st_tried (rl_stream s) @ [[d]]\<rparr>
          in case err of
               Some _ \<Rightarrow> Some (s\<lparr>rl_buffer := ds, rl_stream := leave_stream toUint64 one (PlainError ''unexpected EOF'') st\<rparr>)
             | None \<Rightarrow>
                 Some (s\<lparr>rl_buffer := ds,
                         rl_stream := st\<lparr>st_egress := Counter_Increment 1 (st_egress st), st_sent := st_sent st @ [[d]]\<rparr>\<rparr>))"

text \<open>
  A run: rounds of the reading goroutine, which ends when the channel is closed, and of the loop. \<open>None\<close> when
  an event is not possible, and a panic of the goroutine stops everything.
\<close>

datatype rlp_event = Rx "string + Envelope" | Case rlp_case | Round "rlp_error option"

definition rlp_step ::
    "(float64 \<Rightarrow> string) \<Rightarrow> (float64 \<Rightarrow> uint64) \<Rightarrow> float64 \<Rightarrow> bool \<Rightarrow> bool \<Rightarrow> rlp_event \<Rightarrow> rlp_stream \<Rightarrow> rlp_stream go option" where
  "rlp_step sprintFloat toUint64 one isBatched usePreferred ev s =
     (case ev of
        Rx rx \<Rightarrow> if rl_closed s then None
                 else Some ((if isBatched then consumeBatchReceiver else consumeReceiver) sprintFloat usePreferred rx s)
      | Case c \<Rightarrow> if isBatched then map_option Inr (rlp_select toUint64 one c s) else None
      | Round err \<Rightarrow> if isBatched then None else map_option Inr (rlp_Receiver_round toUint64 one err s))"

fun rlp_run ::
    "(float64 \<Rightarrow> string) \<Rightarrow> (float64 \<Rightarrow> uint64) \<Rightarrow> float64 \<Rightarrow> bool \<Rightarrow> bool \<Rightarrow> rlp_event list \<Rightarrow> rlp_stream \<Rightarrow> rlp_stream go option" where
  "rlp_run sf f one b p [] s = Some (Inr s)"
| "rlp_run sf f one b p (ev # evs) s =
     (case rlp_step sf f one b p ev s of
        None \<Rightarrow> None
      | Some (Inl panic) \<Rightarrow> Some (Inl panic)
      | Some (Inr s) \<Rightarrow> rlp_run sf f one b p evs s)"

definition rlp_start ::
    "(float64 \<Rightarrow> uint64) \<Rightarrow> float64 \<Rightarrow> int \<Rightarrow> rlp_server \<Rightarrow> rlp_stream" where
  "rlp_start toUint64 one now s =
     \<lparr>rl_stream = enter_stream toUint64 one (NewV2EnvelopeBatcher (rs_batchSize s) (rs_batchInterval s) now)
        (rs_egressMetric s) (rs_subscriptionsMetric s),
      rl_buffer = [], rl_closed = False, rl_receiveErr = None, rl_dropped = rs_droppedMetric s, rl_received = []\<rparr>"

section \<open>Lemmas\<close>

text \<open>The batch writer is the one of the router, except that a full channel of errors does not block.\<close>

lemma rlp_batchWriter_Write_eq:
  "rlp_batchWriter_Write err batch s = (batchWriter_Write err batch s)\<lparr>st_status := st_status s\<rparr>"
  by (simp add: rlp_batchWriter_Write_def batchWriter_Write_def Let_def split: option.splits)

lemma stream_inv_Running:
  "stream_inv f one sz c0 g0 s \<Longrightarrow> (\<forall>e. st_status s \<noteq> Returned e) \<Longrightarrow> stream_inv f one sz c0 g0 (s\<lparr>st_status := Running\<rparr>)"
  by (cases "st_status s") (simp_all add: stream_inv_def)

lemma rlp_batched_eq:
  assumes "f (st_batcher s) = (b', bs)" and "bs = [] \<or> (\<exists>x. bs = [x])" and "st_status s = Running"
  shows "rlp_batched err f s = (batched err f s)\<lparr>st_status := Running\<rparr>"
    and "\<forall>e. st_status (batched err f s) \<noteq> Returned e"
  using assms by (auto simp: rlp_batched_def batched_def rlp_batchWriter_Write_eq batchWriter_Write_status split: if_splits)

lemma batcher_ops_single:
  "\<exists>b' bs. Batcher_Write now now' x b = (b', bs) \<and> (bs = [] \<or> (\<exists>x. bs = [x]))"
  "\<exists>b' bs. Batcher_ForcedFlush now b = (b', bs) \<and> (bs = [] \<or> (\<exists>x. bs = [x]))"
  "\<exists>b' bs. Batcher_Flush now now' b = (b', bs) \<and> (bs = [] \<or> (\<exists>x. bs = [x]))"
  by (auto simp: Batcher_Write_def Batcher_ForcedFlush_def Batcher_Flush_def writeBatch_def Let_def)

lemma rlp_batched_inv:
  assumes "stream_inv f one sz c0 g0 (batched err g s)" and "\<exists>b' bs. g (st_batcher s) = (b', bs) \<and> (bs = [] \<or> (\<exists>x. bs = [x]))"
    and "st_status s = Running"
  shows "stream_inv f one sz c0 g0 (rlp_batched err g s) \<and> st_status (rlp_batched err g s) = Running"
proof -
  obtain b' bs where g: "g (st_batcher s) = (b', bs)" "bs = [] \<or> (\<exists>x. bs = [x])" using assms(2) by blast
  show ?thesis
    using stream_inv_Running [OF assms(1) rlp_batched_eq(2) [where f = g and s = s, OF g assms(3)]]
    by (simp add: rlp_batched_eq(1) [where f = g and s = s, OF g assms(3)])
qed

lemma rlp_batched_got [simp]: "st_got (rlp_batched err g s) = st_got s"
proof -
  have "st_got (foldl (\<lambda>s batch. rlp_batchWriter_Write err batch s) s bs) = st_got s" for bs s
    by (induction bs arbitrary: s) (simp_all add: rlp_batchWriter_Write_eq batchWriter_Write_sel)
  then show ?thesis by (simp add: rlp_batched_def split: prod.splits)
qed

lemma rlp_write_inv:
  assumes "stream_inv f one sz c0 g0 s" and "st_status s = Running"
  shows "stream_inv f one sz c0 g0 (rlp_write t d s) \<and> st_status (rlp_write t d s) = Running"
proof -
  obtain now now' err where t: "t = (now, now', err)" by (cases t)
  have "rlp_write t d s = rlp_batched err (Batcher_Write now now' d) (s\<lparr>st_got := st_got s @ [d]\<rparr>)"
    by (simp add: t rlp_write_def V2EnvelopeBatcher_Write_def [abs_def])
  then show ?thesis
    using rlp_batched_inv [OF stream_inv_Write [OF assms] batcher_ops_single(1)] assms(2) by simp
qed

lemma rlp_write_got [simp]: "st_got (rlp_write t d s) = st_got s @ [d]"
  by (simp add: rlp_write_def split: prod.splits)

lemma rlp_drain_inv:
  assumes "stream_inv f one sz c0 g0 s" and "st_status s = Running"
  shows "stream_inv f one sz c0 g0 (rlp_drain ts k ds s) \<and> st_status (rlp_drain ts k ds s) = Running \<and>
    st_got (rlp_drain ts k ds s) = st_got s @ ds"
  using assms by (induction ts k ds s rule: rlp_drain.induct) (auto simp: rlp_write_inv)

lemma rlp_flush_inv:
  assumes "stream_inv f one sz c0 g0 s" and "st_status s = Running"
  shows "stream_inv f one sz c0 g0 (rlp_batched err (Batcher_ForcedFlush now) s)"
    and "st_status (rlp_batched err (Batcher_ForcedFlush now) s) = Running"
    and "bt_batch (st_batcher (rlp_batched err (Batcher_ForcedFlush now) s)) = []"
    and "stream_inv f one sz c0 g0 (rlp_batched err (Batcher_Flush now now') s)"
    and "st_status (rlp_batched err (Batcher_Flush now now') s) = Running"
  using rlp_batched_inv [OF stream_inv_flush(1) [OF assms] batcher_ops_single(2) assms(2)]
    rlp_batched_inv [OF stream_inv_flush(2) [OF assms] batcher_ops_single(3) assms(2)]
  by (auto simp: rlp_batched_def Batcher_ForcedFlush_def writeBatch_def rlp_batchWriter_Write_eq batchWriter_Write_sel)

section \<open>The invariant of a stream\<close>

definition rlp_inv ::
    "bool \<Rightarrow> (float64 \<Rightarrow> uint64) \<Rightarrow> float64 \<Rightarrow> int \<Rightarrow> metric_Counter \<Rightarrow> metric_Gauge \<Rightarrow> uint64 \<Rightarrow> rlp_stream \<Rightarrow> bool" where
  "rlp_inv b f one sz c0 g0 d0 s \<longleftrightarrow>
     (b \<or> bt_batch (st_batcher (rl_stream s)) = []) \<and>
     stream_inv f one sz c0 g0 (rl_stream s) \<and> st_status (rl_stream s) \<noteq> Blocked \<and>
     length (rl_buffer s) \<le> envelopeBufferSize \<and>
     subseq (st_got (rl_stream s) @ rl_buffer s) (rl_received s) \<and>
     mc_delta (rl_dropped s) + of_nat (length (st_got (rl_stream s) @ rl_buffer s)) = d0 + of_nat (length (rl_received s)) \<and>
     (rl_receiveErr s \<noteq> None \<longrightarrow> rl_closed s) \<and>
     (st_status (rl_stream s) = Returned NilError \<longrightarrow>
        rl_closed s \<and> rl_buffer s = [] \<and> bt_batch (st_batcher (rl_stream s)) = [])"

lemma rlp_inv_start:
  "rlp_inv b f one (rs_batchSize srv) (rs_egressMetric srv) (rs_subscriptionsMetric srv) (mc_delta (rs_droppedMetric srv))
     (rlp_start f one now srv)"
  using stream_inv_enter [of f one "rs_batchSize srv" "rs_egressMetric srv" "rs_subscriptionsMetric srv" "rs_batchInterval srv" now]
  by (simp add: rlp_inv_def rlp_start_def NewV2EnvelopeBatcher_def NewBatcher_def enter_stream_def)

lemma rlp_inv_rx:
  assumes "rlp_inv b f one sz c0 g0 d0 s" and "consume_rx sf reports p rx s = Inr s'" and "\<not> rl_closed s"
  shows "rlp_inv b f one sz c0 g0 d0 s'"
proof (cases rx)
  case (Inl err)
  then show ?thesis using assms by (auto simp: consume_rx_def rlp_inv_def)
next
  case (Inr e)
  then obtain e' where e': "convergeTags sf p e = Inr e'" using assms(2) by (cases "convergeTags sf p e") (auto simp: consume_rx_def)
  let ?k = "st_got (rl_stream s) @ rl_buffer s"
  have "subseq ?k (rl_received s)" using assms(1) by (simp add: rlp_inv_def)
  then have sub: "subseq (?k @ [e']) (rl_received s @ [e'])" "subseq ?k (rl_received s @ [e'])"
    using list_emb_append_mono [of "(=)" ?k "rl_received s" "[e']" "[e']"]
      list_emb_append_mono [of "(=)" ?k "rl_received s" "[]" "[e']"] by simp_all
  show ?thesis
  proof (cases "length (rl_buffer s) < envelopeBufferSize")
    case True
    then have "s' = s\<lparr>rl_received := rl_received s @ [e'], rl_buffer := rl_buffer s @ [e']\<rparr>"
      using assms(2) Inr e' by (simp add: consume_rx_def Let_def)
    then show ?thesis using assms True sub by (auto simp: rlp_inv_def algebra_simps)
  next
    case False
    then have "s' = s\<lparr>rl_received := rl_received s @ [e'], rl_dropped := Counter_Increment 1 (rl_dropped s)\<rparr>"
      using assms(2) Inr e' by (simp add: consume_rx_def Let_def)
    then show ?thesis using assms sub by (auto simp: rlp_inv_def Counter_Increment_def algebra_simps)
  qed
qed

lemma rlp_inv_select:
  assumes "rlp_inv b f one sz c0 g0 d0 s" and "rlp_select f one c s = Some s'" and "b"
  shows "rlp_inv b f one sz c0 g0 d0 s'"
proof -
  have run: "st_status (rl_stream s) = Running" using assms(2) by (auto simp: rlp_select_def split: if_splits)
  have inv: "stream_inv f one sz c0 g0 (rl_stream s)" using assms(1) by (simp add: rlp_inv_def)
  show ?thesis
  proof (cases c)
    case (FromBuffer t)
    show ?thesis
    proof (cases "rl_buffer s")
      case Nil
      then show ?thesis using assms FromBuffer run by (auto simp: rlp_select_def split: if_splits)
    next
      case (Cons d ds)
      then have "s' = s\<lparr>rl_buffer := ds, rl_stream := rlp_write t d (rl_stream s)\<rparr>"
        using assms(2) FromBuffer run by (simp add: rlp_select_def)
      then show ?thesis using assms(1,3) rlp_write_inv [OF inv run, of t d] Cons by (auto simp: rlp_inv_def)
    qed
  next
    case FromSenderErr
    then obtain e where "s' = s\<lparr>rl_stream := leave_stream f one (PlainError ''unexpected EOF'') ((rl_stream s)\<lparr>st_errStream := None\<rparr>)\<rparr>"
      using assms(2) run by (auto simp: rlp_select_def split: option.splits)
    then show ?thesis
      using assms(1,3) run stream_inv_leave [OF stream_inv_errStream [OF inv]] by (auto simp: rlp_inv_def leave_stream_def)
  next
    case (FromReceiveErr ts now err)
    let ?d = "rlp_drain ts 0 (rl_buffer s) (rl_stream s)"
    let ?b = "rlp_batched err (Batcher_ForcedFlush now) ?d"
    note d = rlp_drain_inv [OF inv run, of ts 0 "rl_buffer s"]
    have fl: "stream_inv f one sz c0 g0 ?b" "st_status ?b = Running" "bt_batch (st_batcher ?b) = []"
      using rlp_flush_inv(1-3) [of f one sz c0 g0 ?d] d by simp_all
    have s': "s' = s\<lparr>rl_receiveErr := None, rl_buffer := [], rl_stream := leave_stream f one NilError ?b\<rparr>"
      and cl: "rl_closed s"
      using assms(1,2) FromReceiveErr run by (auto simp: rlp_select_def rlp_inv_def split: option.splits)
    have "stream_inv f one sz c0 g0 (leave_stream f one NilError ?b)" using stream_inv_leave [OF fl(1)] fl(2) by simp
    moreover have "st_got (leave_stream f one NilError ?b) = st_got (rl_stream s) @ rl_buffer s"
      "st_batcher (leave_stream f one NilError ?b) = st_batcher ?b" using d by (simp_all add: leave_stream_def)
    ultimately show ?thesis using assms(1,3) fl(3) cl by (simp add: s' rlp_inv_def)
  next
    case (FromTimer now now' err)
    then have "s' = s\<lparr>rl_stream := rlp_batched err (Batcher_Flush now now') (rl_stream s)\<rparr>"
      using assms(2) run by (simp add: rlp_select_def)
    then show ?thesis using assms(1,3) rlp_flush_inv(4,5) [OF inv run] by (auto simp: rlp_inv_def)
  qed
qed

lemma rlp_inv_round:
  assumes "rlp_inv False f one sz c0 g0 d0 s" and "rlp_Receiver_round f one err s = Some s'"
  shows "rlp_inv False f one sz c0 g0 d0 s'"
proof -
  have run: "st_status (rl_stream s) = Running" using assms(2) by (auto simp: rlp_Receiver_round_def split: if_splits)
  have inv: "stream_inv f one sz c0 g0 (rl_stream s)" and nb: "bt_batch (st_batcher (rl_stream s)) = []"
    using assms(1) by (simp_all add: rlp_inv_def)
  show ?thesis
  proof (cases "rl_buffer s")
    case Nil
    then have "s' = s\<lparr>rl_stream := leave_stream f one NilError (rl_stream s)\<rparr>" "rl_closed s"
      using assms(2) run by (auto simp: rlp_Receiver_round_def split: if_splits)
    then show ?thesis using assms(1) nb Nil run stream_inv_leave [OF inv] by (auto simp: rlp_inv_def leave_stream_def)
  next
    case (Cons d ds)
    let ?st = "(rl_stream s)\<lparr>st_got := st_got (rl_stream s) @ [d], st_tried := st_tried (rl_stream s) @ [[d]]\<rparr>"
    have st: "stream_inv f one sz c0 g0 ?st"
      using inv nb by (auto simp: stream_inv_def)
    show ?thesis
    proof (cases err)
      case (Some e)
      then have "s' = s\<lparr>rl_buffer := ds, rl_stream := leave_stream f one (PlainError ''unexpected EOF'') ?st\<rparr>"
        using assms(2) run Cons by (simp add: rlp_Receiver_round_def Let_def)
      then show ?thesis using assms(1) nb Cons run stream_inv_leave [OF st] by (auto simp: rlp_inv_def leave_stream_def)
    next
      case None
      let ?st' = "?st\<lparr>st_egress := Counter_Increment 1 (st_egress ?st), st_sent := st_sent ?st @ [[d]]\<rparr>"
      have "subseq (st_sent (rl_stream s) @ [[d]]) (st_tried (rl_stream s) @ [[d]])"
        using inv by (simp add: stream_inv_def list_emb_append_mono)
      then have "stream_inv f one sz c0 g0 ?st'"
        using st by (simp add: stream_inv_def Counter_Increment_def)
      moreover have "s' = s\<lparr>rl_buffer := ds, rl_stream := ?st'\<rparr>"
        using assms(2) run Cons None by (simp add: rlp_Receiver_round_def Let_def)
      ultimately show ?thesis using assms(1) nb Cons run by (auto simp: rlp_inv_def)
    qed
  qed
qed

fun rx_inputs :: "rlp_event list \<Rightarrow> Envelope list" where
  "rx_inputs [] = []"
| "rx_inputs (Rx (Inr e) # evs) = e # rx_inputs evs"
| "rx_inputs (_ # evs) = rx_inputs evs"

lemma rx_inputs_Cons: "rx_inputs (ev # evs) = rx_inputs [ev] @ rx_inputs evs"
  by (cases ev) (auto split: sum.splits, metis rx_inputs.simps sum.exhaust append_Cons append_Nil)

lemma rlp_run_inv:
  assumes "rlp_run sf f one b p evs s = Some (Inr s')" and "rlp_inv b f one sz c0 g0 d0 s"
  shows "rlp_inv b f one sz c0 g0 d0 s' \<and>
    map Inr (rl_received s') = map Inr (rl_received s) @ map (convergeTags sf p) (rx_inputs evs)"
  using assms
proof (induction evs arbitrary: s)
  case (Cons ev evs)
  then obtain s1 where st: "rlp_step sf f one b p ev s = Some (Inr s1)" and run: "rlp_run sf f one b p evs s1 = Some (Inr s')"
    by (auto split: option.splits sum.splits)
  have "rlp_inv b f one sz c0 g0 d0 s1 \<and>
      map Inr (rl_received s1) = map Inr (rl_received s) @ map (convergeTags sf p) (rx_inputs [ev])"
  proof (cases ev)
    case (Rx rx)
    then have c: "consume_rx sf b p rx s = Inr s1" "\<not> rl_closed s"
      using st by (cases b; auto simp: rlp_step_def consumeReceiver_def consumeBatchReceiver_def split: if_splits)+
    have "map Inr (rl_received s1) = map Inr (rl_received s) @ map (convergeTags sf p) (rx_inputs [ev])"
      using c(1) Rx by (cases rx) (auto simp: consume_rx_def Let_def split: sum.splits if_splits)
    then show ?thesis using rlp_inv_rx [OF Cons.prems(2) c] by blast
  next
    case (Case c)
    then have b and c: "rlp_select f one c s = Some s1" using st by (auto simp: rlp_step_def split: if_splits)
    have "rl_received s1 = rl_received s"
      using c by (auto simp: rlp_select_def split: if_splits rlp_case.splits list.splits option.splits)
    then show ?thesis using rlp_inv_select [OF Cons.prems(2) c \<open>b\<close>] Case by simp
  next
    case (Round err)
    then have b: "\<not> b" and c: "rlp_Receiver_round f one err s = Some s1" using st by (auto simp: rlp_step_def split: if_splits)
    have "rl_received s1 = rl_received s"
      using c by (auto simp: rlp_Receiver_round_def Let_def split: if_splits list.splits option.splits)
    then show ?thesis using rlp_inv_round [OF _ c] Cons.prems(2) b Round by simp
  qed
  with Cons.IH [OF run] show ?case by (simp add: rx_inputs_Cons [of ev evs])
qed simp

section \<open>Properties\<close>

text \<open>
  C17. A stream of the reverse log proxy, batched or not, under any interleaving of its two goroutines: it
  never blocks on its error channel; what is passed to \<open>Send\<close>, what waits in the batch and what waits in the
  channel is, in this order, a part of what the receiver yielded, and the counter of dropped envelopes
  accounts for the rest; batches are not empty and not longer than the batch size, the egress counter
  counts what was sent, the gauge is restored on return; and when the call returns without an error,
  everything that was not dropped has been passed to \<open>Send\<close>.
\<close>

theorem rlp_stream_conserves:
  assumes "rlp_run sf f one b p evs (rlp_start f one now srv) = Some (Inr s)"
  shows "\<exists>received. map Inr received = map (convergeTags sf p) (rx_inputs evs) \<and>
    (let st = rl_stream s; kept = concat (st_tried st) @ bt_batch (st_batcher st) @ rl_buffer s in
       st_status st \<noteq> Blocked \<and> subseq kept received \<and> length (rl_buffer s) \<le> envelopeBufferSize \<and>
       mc_delta (rl_dropped s) + of_nat (length kept) = mc_delta (rs_droppedMetric srv) + of_nat (length received) \<and>
       (\<forall>x \<in> set (st_tried st). x \<noteq> [] \<and> int (length x) \<le> max 1 (rs_batchSize srv)) \<and>
       subseq (st_sent st) (st_tried st) \<and>
       mc_delta (st_egress st) = mc_delta (rs_egressMetric srv) + of_nat (length (concat (st_sent st))) \<and>
       (\<forall>e. st_status st = Returned e \<longrightarrow> mg_value (st_subscriptions st) = mg_value (rs_subscriptionsMetric srv)) \<and>
       (st_status st = Returned NilError \<longrightarrow> kept = concat (st_tried st)))"
proof -
  note r = rlp_run_inv [OF assms rlp_inv_start]
  have rec: "map Inr (rl_received s) = map (convergeTags sf p) (rx_inputs evs)"
    using r by (simp add: rlp_start_def)
  have inv: "rlp_inv b f one (rs_batchSize srv) (rs_egressMetric srv) (rs_subscriptionsMetric srv)
      (mc_delta (rs_droppedMetric srv)) s" using r by blast
  then have got: "concat (st_tried (rl_stream s)) @ bt_batch (st_batcher (rl_stream s)) = st_got (rl_stream s)"
    by (simp add: rlp_inv_def stream_inv_def)
  then have kept: "concat (st_tried (rl_stream s)) @ bt_batch (st_batcher (rl_stream s)) @ rl_buffer s =
      st_got (rl_stream s) @ rl_buffer s" by (metis append_assoc)
  have last: "rl_buffer s = [] \<and> bt_batch (st_batcher (rl_stream s)) = []" if "st_status (rl_stream s) = Returned NilError"
    using inv that by (simp add: rlp_inv_def)
  have si: "stream_inv f one (rs_batchSize srv) (rs_egressMetric srv) (rs_subscriptionsMetric srv) (rl_stream s)"
    and i: "st_status (rl_stream s) \<noteq> Blocked" "length (rl_buffer s) \<le> envelopeBufferSize"
      "subseq (st_got (rl_stream s) @ rl_buffer s) (rl_received s)"
      "mc_delta (rl_dropped s) + of_nat (length (st_got (rl_stream s) @ rl_buffer s)) =
         mc_delta (rs_droppedMetric srv) + of_nat (length (rl_received s))"
    using inv unfolding rlp_inv_def by blast+
  have t: "\<forall>x \<in> set (st_tried (rl_stream s)). x \<noteq> [] \<and> int (length x) \<le> max 1 (rs_batchSize srv)"
      "subseq (st_sent (rl_stream s)) (st_tried (rl_stream s))"
      "mc_delta (st_egress (rl_stream s)) = mc_delta (rs_egressMetric srv) + of_nat (length (concat (st_sent (rl_stream s))))"
    using si unfolding stream_inv_def by blast+
  have g: "mg_value (st_subscriptions (rl_stream s)) = mg_value (rs_subscriptionsMetric srv)"
    if "st_status (rl_stream s) = Returned e" for e using si that by (simp add: stream_inv_def)
  have l: "st_got (rl_stream s) @ rl_buffer s = concat (st_tried (rl_stream s))"
    if "st_status (rl_stream s) = Returned NilError" using last [OF that] got by simp
  show ?thesis unfolding Let_def kept
    by (intro exI [of _ "rl_received s"] conjI allI impI rec i t g l)
qed

theorem rlp_stream_conserves_witness:
  "\<exists>s. rlp_run (\<lambda>_. []) (\<lambda>x. x) 1 True True
      [Rx (Inr Envelope_empty), Rx (Inl ''EOF''), Case (FromReceiveErr (\<lambda>_. (0, 0, None)) 0 None)]
      (rlp_start (\<lambda>x. x) 1 0 (rlp_NewServer \<lparr>cl_pulseInterval = 0, cl_dialOpts = [], cl_sourceID = [], cl_tags = []\<rparr> 5 10 [])) =
        Some (Inr s) \<and>
     mc_delta (rl_dropped s) + of_nat (length (concat (st_tried (rl_stream s)))) = 1"
proof -
  let ?srv = "rlp_NewServer \<lparr>cl_pulseInterval = 0, cl_dialOpts = [], cl_sourceID = [], cl_tags = []\<rparr> 5 10 []"
  let ?evs = "[Rx (Inr Envelope_empty), Rx (Inl ''EOF''), Case (FromReceiveErr (\<lambda>_. (0, 0, None)) 0 None)]"
  let ?run = "rlp_run (\<lambda>_. []) (\<lambda>x. x) 1 True True ?evs (rlp_start (\<lambda>x. x) 1 0 ?srv)"
  have "case ?run of Some (Inr s) \<Rightarrow> st_status (rl_stream s) = Returned NilError | _ \<Rightarrow> False" by code_simp
  then obtain s where run: "?run = Some (Inr s)" and nil: "st_status (rl_stream s) = Returned NilError"
    by (auto split: option.splits sum.splits)
  have "mc_delta (rs_droppedMetric ?srv) = 0" by code_simp
  moreover have "length (received :: Envelope list) = 1"
    if "map Inr received = map (convergeTags (\<lambda>_. []) True) (rx_inputs ?evs)" for received
    using arg_cong [OF that, of length] by simp
  ultimately have "mc_delta (rl_dropped s) + of_nat (length (concat (st_tried (rl_stream s)))) = 1"
    using rlp_stream_conserves [OF run] nil by (auto simp: Let_def)
  then show ?thesis using run by blast
qed

text \<open>The tags of an envelope as maps.\<close>

definition tags_of :: "Envelope \<Rightarrow> string \<rightharpoonup> string" where
  "tags_of e = map_of (case Tags e of None \<Rightarrow> [] | Some m \<Rightarrow> m)"

definition deprecated_of :: "Envelope \<Rightarrow> string \<rightharpoonup> Value option" where
  "deprecated_of e = map_of (case DeprecatedTags e of None \<Rightarrow> [] | Some m \<Rightarrow> m)"

definition text_of :: "(float64 \<Rightarrow> string) \<Rightarrow> Value option \<Rightarrow> string option" where
  "text_of sf v = (case v of None \<Rightarrow> None | Some v \<Rightarrow> map_option (sprint_value sf) (Value_Data v))"

definition tags_wf :: "Envelope \<Rightarrow> bool" where
  "tags_wf e \<longleftrightarrow> gomap_wf (case Tags e of None \<Rightarrow> [] | Some m \<Rightarrow> m) \<and>
     gomap_wf (case DeprecatedTags e of None \<Rightarrow> [] | Some m \<Rightarrow> m) \<and> None \<notin> ran (deprecated_of e)"

lemma preferred_loop_spec:
  assumes "gomap_wf dep" and "None \<notin> snd ` set dep"
  shows "\<exists>ts'. preferred_loop sf dep ts = Inr ts' \<and>
    map_of ts' = (\<lambda>k. case map_of dep k of None \<Rightarrow> map_of ts k
      | Some v \<Rightarrow> (case text_of sf v of None \<Rightarrow> map_of ts k | Some t \<Rightarrow> Some t))"
  using assms
proof (induction dep arbitrary: ts)
  case (Cons nv dep)
  obtain name v where nv: "nv = (name, Some v)" using Cons.prems(2) by (cases nv; cases "snd nv") auto
  have wf: "gomap_wf dep" "map_of dep name = None" "None \<notin> snd ` set dep"
    using Cons.prems nv by (auto simp: gomap_wf_def map_of_eq_None_iff)
  let ?ts = "case Value_Data v of None \<Rightarrow> ts | Some x \<Rightarrow> gomap_set name (sprint_value sf x) ts"
  obtain ts' where "preferred_loop sf dep ?ts = Inr ts'"
    and ts': "map_of ts' = (\<lambda>k. case map_of dep k of None \<Rightarrow> map_of ?ts k
      | Some v \<Rightarrow> (case text_of sf v of None \<Rightarrow> map_of ?ts k | Some t \<Rightarrow> Some t))"
    using Cons.IH [OF wf(1,3), of ?ts] by blast
  moreover have "map_of ts' k = (case map_of (nv # dep) k of None \<Rightarrow> map_of ts k
      | Some v \<Rightarrow> (case text_of sf v of None \<Rightarrow> map_of ts k | Some t \<Rightarrow> Some t))" for k
    by (cases "Value_Data v") (auto simp: ts' nv wf(2) text_of_def update_conv' split: option.splits)
  ultimately show ?case by (auto simp: nv)
qed simp

lemma legacy_loop_spec:
  "gomap_wf ts \<Longrightarrow> map_of (foldl (\<lambda>m (name, v). gomap_set name (Some \<lparr>Value_Data = Some (Value_Text v)\<rparr>) m) dep ts) =
    (\<lambda>k. case map_of ts k of None \<Rightarrow> map_of dep k | Some t \<Rightarrow> Some (Some \<lparr>Value_Data = Some (Value_Text t)\<rparr>))"
proof (induction ts arbitrary: dep)
  case (Cons nv ts)
  obtain name v where nv: "nv = (name, v)" by (cases nv)
  have wf: "gomap_wf ts" "map_of ts name = None" using Cons.prems nv by (auto simp: gomap_wf_def map_of_eq_None_iff)
  show ?case using Cons.IH [OF wf(1)] by (auto simp: nv fun_eq_iff update_conv' wf(2) split: option.splits)
qed simp

lemma gomap_wf_legacy: "gomap_wf dep \<Longrightarrow> gomap_wf (foldl (\<lambda>m (name, v). gomap_set name (Some \<lparr>Value_Data = Some (Value_Text v)\<rparr>) m) dep ts)"
  by (induction ts arbitrary: dep) (auto simp: gomap_wf_set)

lemma map_of_ran_snd: "gomap_wf m \<Longrightarrow> v \<in> snd ` set m \<longleftrightarrow> v \<in> ran (map_of m)"
  by (auto simp: gomap_wf_def ran_distinct)

lemma convergeTags_preferred:
  assumes "tags_wf e"
  shows "\<exists>e'. convergeTags sf True e = Inr e' \<and> DeprecatedTags e' = None \<and> Message e' = Message e \<and>
    tags_of e' = (\<lambda>k. case deprecated_of e k of None \<Rightarrow> tags_of e k
      | Some v \<Rightarrow> (case text_of sf v of None \<Rightarrow> tags_of e k | Some t \<Rightarrow> Some t))"
proof -
  let ?dep = "case DeprecatedTags e of None \<Rightarrow> [] | Some m \<Rightarrow> m"
  have "gomap_wf ?dep" "None \<notin> snd ` set ?dep"
    using assms map_of_ran_snd [of ?dep None] by (auto simp: tags_wf_def deprecated_of_def)
  from preferred_loop_spec [OF this, of sf "case Tags e of None \<Rightarrow> [] | Some m \<Rightarrow> m"] show ?thesis
    unfolding tags_of_def deprecated_of_def by (auto simp: convergeTags_def)
qed

lemma convergeTags_legacy:
  assumes "tags_wf e"
  shows "\<exists>e'. convergeTags sf False e = Inr e' \<and> Tags e' = None \<and> tags_wf e' \<and> Message e' = Message e \<and>
    deprecated_of e' = (\<lambda>k. case tags_of e k of None \<Rightarrow> deprecated_of e k | Some t \<Rightarrow> Some (Some \<lparr>Value_Data = Some (Value_Text t)\<rparr>))"
proof -
  let ?dep = "case DeprecatedTags e of None \<Rightarrow> [] | Some m \<Rightarrow> m"
  let ?ts = "case Tags e of None \<Rightarrow> [] | Some m \<Rightarrow> m"
  let ?e = "e\<lparr>DeprecatedTags := Some (foldl (\<lambda>m (name, v). gomap_set name (Some \<lparr>Value_Data = Some (Value_Text v)\<rparr>) m) ?dep ?ts),
      Tags := None\<rparr>"
  have wf: "gomap_wf ?ts" "gomap_wf ?dep" "None \<notin> ran (map_of ?dep)"
    using assms unfolding tags_wf_def deprecated_of_def by blast+
  have dep: "deprecated_of ?e = (\<lambda>k. case tags_of e k of None \<Rightarrow> deprecated_of e k | Some t \<Rightarrow> Some (Some \<lparr>Value_Data = Some (Value_Text t)\<rparr>))"
    using legacy_loop_spec [OF wf(1), of ?dep] unfolding deprecated_of_def tags_of_def by simp
  have "None \<notin> ran (deprecated_of ?e)"
    using wf(3) unfolding dep by (auto simp: ran_def deprecated_of_def split: option.splits)
  then have "tags_wf ?e" using gomap_wf_legacy [OF wf(2), of ?ts] by (simp add: tags_wf_def)
  then show ?thesis using dep by (intro exI [of _ ?e]) (simp add: convergeTags_def)
qed

text \<open>
  C33. What converging the tags of an envelope does to every name. With deprecated tags asked for, the result has a text tag for
  every tag, which replaces a deprecated tag of the same name, and the other deprecated tags as they were. With preferred tags
  asked for, the result has the text of every deprecated tag that has data, which replaces a tag of the same name, and the
  other tags; a deprecated tag without data is dropped. An envelope that one hop converges to deprecated tags and the next to
  preferred tags ends with its tags and with the text of those deprecated tags that clash with none of them; so for every
  name that is not in both maps the detour makes no difference, and for a name in both the tag wins on the detour and the
  deprecated tag (if it has data) directly.
\<close>

theorem convergeTags_roundtrip:
  assumes "tags_wf e"
  shows "\<exists>legacy preferred preferred'.
    convergeTags sf False e = Inr legacy \<and> Tags legacy = None \<and>
    convergeTags sf True legacy = Inr preferred \<and> DeprecatedTags preferred = None \<and>
    convergeTags sf True e = Inr preferred' \<and> DeprecatedTags preferred' = None \<and>
    (\<forall>k. deprecated_of legacy k =
           (case tags_of e k of Some t \<Rightarrow> Some (Some \<lparr>Value_Data = Some (Value_Text t)\<rparr>) | None \<Rightarrow> deprecated_of e k) \<and>
         tags_of preferred' k = (case Option.bind (deprecated_of e k) (text_of sf) of Some t \<Rightarrow> Some t | None \<Rightarrow> tags_of e k) \<and>
         tags_of preferred k = (case tags_of e k of Some t \<Rightarrow> Some t | None \<Rightarrow> Option.bind (deprecated_of e k) (text_of sf)) \<and>
         (tags_of e k = None \<or> deprecated_of e k = None \<longrightarrow> tags_of preferred k = tags_of preferred' k))"
proof -
  obtain l where l: "convergeTags sf False e = Inr l" "Tags l = None" "tags_wf l"
      "deprecated_of l = (\<lambda>k. case tags_of e k of None \<Rightarrow> deprecated_of e k | Some t \<Rightarrow> Some (Some \<lparr>Value_Data = Some (Value_Text t)\<rparr>))"
    using convergeTags_legacy [OF assms] by blast
  obtain p1 where p1: "convergeTags sf True l = Inr p1" "DeprecatedTags p1 = None"
      "tags_of p1 = (\<lambda>k. case deprecated_of l k of None \<Rightarrow> tags_of l k
        | Some v \<Rightarrow> (case text_of sf v of None \<Rightarrow> tags_of l k | Some t \<Rightarrow> Some t))"
    using convergeTags_preferred [OF l(3)] by blast
  obtain p2 where p2: "convergeTags sf True e = Inr p2" "DeprecatedTags p2 = None"
      "tags_of p2 = (\<lambda>k. case deprecated_of e k of None \<Rightarrow> tags_of e k
        | Some v \<Rightarrow> (case text_of sf v of None \<Rightarrow> tags_of e k | Some t \<Rightarrow> Some t))"
    using convergeTags_preferred [OF assms] by blast
  have none: "tags_of l = (\<lambda>_. None)" using l(2) by (simp add: tags_of_def fun_eq_iff)
  have direct: "tags_of p2 k = (case Option.bind (deprecated_of e k) (text_of sf) of Some t \<Rightarrow> Some t | None \<Rightarrow> tags_of e k)" for k
    by (simp add: p2(3) split: option.splits)
  have detour: "tags_of p1 k = (case tags_of e k of Some t \<Rightarrow> Some t | None \<Rightarrow> Option.bind (deprecated_of e k) (text_of sf))" for k
    by (auto simp: p1(3) l(4) none text_of_def sprint_value_def split: option.splits)
  have "tags_of e k = None \<or> deprecated_of e k = None \<longrightarrow> tags_of p1 k = tags_of p2 k" for k
    by (auto simp: direct detour split: option.splits)
  then show ?thesis using l(1,2,4) p1(1,2) p2(1,2) direct detour by auto
qed

text \<open>A name \<open>c\<close> in both maps, and a deprecated tag \<open>z\<close> without data.\<close>

theorem convergeTags_roundtrip_witness:
  "\<exists>l p p'. let e = Envelope_empty\<lparr>Tags := Some [(''a'', ''x''), (''c'', ''t'')],
       DeprecatedTags := Some [(''n'', Some \<lparr>Value_Data = Some (Value_Integer (- 3))\<rparr>),
         (''c'', Some \<lparr>Value_Data = Some (Value_Text ''d'')\<rparr>), (''z'', Some \<lparr>Value_Data = None\<rparr>)]\<rparr>
     in convergeTags (\<lambda>_. []) False e = Inr l \<and> convergeTags (\<lambda>_. []) True l = Inr p \<and> convergeTags (\<lambda>_. []) True e = Inr p' \<and>
       tags_of p ''n'' = Some ''-3'' \<and> tags_of p' ''n'' = Some ''-3'' \<and> tags_of p ''c'' = Some ''t'' \<and> tags_of p' ''c'' = Some ''d'' \<and>
       tags_of p ''z'' = None \<and> tags_of p' ''z'' = None"
proof -
  let ?e = "Envelope_empty\<lparr>Tags := Some [(''a'', ''x''), (''c'', ''t'')],
       DeprecatedTags := Some [(''n'', Some \<lparr>Value_Data = Some (Value_Integer (- 3))\<rparr>),
         (''c'', Some \<lparr>Value_Data = Some (Value_Text ''d'')\<rparr>), (''z'', Some \<lparr>Value_Data = None\<rparr>)]\<rparr>"
  have "None \<notin> ran (deprecated_of ?e)" by (auto simp: ran_def deprecated_of_def split: if_splits)
  then have "tags_wf ?e" by (simp add: tags_wf_def gomap_wf_def)
  from convergeTags_roundtrip [OF this, of "\<lambda>_. []"] obtain l p p' where
    run: "convergeTags (\<lambda>_. []) False ?e = Inr l" "convergeTags (\<lambda>_. []) True l = Inr p" "convergeTags (\<lambda>_. []) True ?e = Inr p'"
    and p: "\<And>k. tags_of p k = (case tags_of ?e k of Some t \<Rightarrow> Some t | None \<Rightarrow> Option.bind (deprecated_of ?e k) (text_of (\<lambda>_. [])))"
      "\<And>k. tags_of p' k = (case Option.bind (deprecated_of ?e k) (text_of (\<lambda>_. [])) of Some t \<Rightarrow> Some t | None \<Rightarrow> tags_of ?e k)"
    by blast
  have v: "text_of (\<lambda>_. []) (Some \<lparr>Value_Data = Some (Value_Integer (- 3))\<rparr>) = Some ''-3''" by code_simp
  have "tags_of p ''n'' = Some ''-3''" "tags_of p' ''n'' = Some ''-3''" "tags_of p ''c'' = Some ''t''" "tags_of p' ''c'' = Some ''d''"
    "tags_of p ''z'' = None" "tags_of p' ''z'' = None"
    unfolding p by (simp_all add: tags_of_def deprecated_of_def v) (simp_all add: text_of_def sprint_value_def tags_of_def)
  with run show ?thesis by (auto simp: Let_def)
qed

section \<open>Admission\<close>

text \<open>
  Many streams at once: a call counts itself, later compares its count with the limit, and ends at some
  point. A state has the calls in the order in which they counted themselves.
\<close>

datatype stream_phase = Opened | Admitted | Rejected

inductive adm_step ::
    "(float64 \<Rightarrow> uint64) \<Rightarrow> float64 \<Rightarrow> rlp_server \<times> (int \<times> stream_phase) list \<Rightarrow>
     rlp_server \<times> (int \<times> stream_phase) list \<Rightarrow> bool" for f one where
  opens: "stream_open f one s = (n, s') \<Longrightarrow> adm_step f one (s, os) (s', os @ [(n, Opened)])"
| checks: "i < length os \<Longrightarrow> os ! i = (n, Opened) \<Longrightarrow> check_streams n s = (s', err) \<Longrightarrow>
    adm_step f one (s, os) (s', os[i := (n, if err = None then Admitted else Rejected)])"
| ends: "i < length os \<Longrightarrow> adm_step f one (s, os) (stream_end f one s, remove_nth i os)"

definition adm_inv ::
    "(float64 \<Rightarrow> uint64) \<Rightarrow> float64 \<Rightarrow> rlp_server \<Rightarrow> rlp_server \<times> (int \<times> stream_phase) list \<Rightarrow> bool" where
  "adm_inv f one s0 = (\<lambda>(s, os).
     rs_maxStreams s = rs_maxStreams s0 \<and> rs_subscriptions s = int (length os) \<and>
     mg_value (rs_subscriptionsMetric s) = mg_value (rs_subscriptionsMetric s0) + of_nat (length os) * f one \<and>
     (\<forall>i < length os. int i < fst (os ! i) \<and> (snd (os ! i) = Admitted \<longrightarrow> fst (os ! i) \<le> rs_maxStreams s0)))"

lemma adm_step_inv: "adm_step f one x y \<Longrightarrow> adm_inv f one s0 x \<Longrightarrow> adm_inv f one s0 y"
proof (induction rule: adm_step.induct)
  case (opens s n s' os)
  then show ?case
    by (auto simp: adm_inv_def stream_open_def Gauge_Increment_def nth_append algebra_simps less_Suc_eq)
next
  case (checks i os n s s' err)
  have "int i < n" using checks by (auto simp: adm_inv_def)
  moreover have "rs_maxStreams s' = rs_maxStreams s" "rs_subscriptions s' = rs_subscriptions s"
      "rs_subscriptionsMetric s' = rs_subscriptionsMetric s" "err = None \<Longrightarrow> n \<le> rs_maxStreams s"
    using checks(3) by (auto simp: check_streams_def split: if_splits)
  ultimately show ?case using checks(1,4) by (auto simp: adm_inv_def nth_list_update)
next
  case (ends i os s)
  have len: "length os = Suc (length (remove_nth i os))" using ends(1) by auto
  have nth: "remove_nth i os ! j = (if j < i then os ! j else os ! Suc j)" if "j < length (remove_nth i os)" for j
    using ends(1) that by (auto simp: remove_nth_def nth_append min_def)
  have old: "rs_maxStreams s = rs_maxStreams s0" "rs_subscriptions s = int (length os)"
      "mg_value (rs_subscriptionsMetric s) = mg_value (rs_subscriptionsMetric s0) + of_nat (length os) * f one"
      "\<And>j. j < length os \<Longrightarrow> int j < fst (os ! j) \<and> (snd (os ! j) = Admitted \<longrightarrow> fst (os ! j) \<le> rs_maxStreams s0)"
    using ends(2) by (auto simp: adm_inv_def)
  have "mg_value (rs_subscriptionsMetric (stream_end f one s)) =
      mg_value (rs_subscriptionsMetric s0) + of_nat (length (remove_nth i os)) * f one"
  proof -
    have "(of_nat (length os) :: uint64) = of_nat (length (remove_nth i os)) + 1" using len by (metis of_nat_Suc add.commute)
    then show ?thesis using old(3)
      by (simp only: stream_end_def Gauge_Decrement_def not_eq_complement rlp_server.simps metric_Gauge.simps)
        (simp add: algebra_simps del: length_remove_nth)
  qed
  moreover have "int j < fst (remove_nth i os ! j) \<and>
      (snd (remove_nth i os ! j) = Admitted \<longrightarrow> fst (remove_nth i os ! j) \<le> rs_maxStreams s0)"
    if "j < length (remove_nth i os)" for j
  proof -
    have "Suc j < length os" using that len by arith
    then show ?thesis using old(4) [of j] old(4) [of "Suc j"] nth [OF that] by (cases "j < i") auto
  qed
  moreover have "rs_subscriptions (stream_end f one s) = int (length (remove_nth i os))"
    using old(2) ends(1) by (auto simp: stream_end_def of_nat_diff)
  ultimately show ?case using old(1) by (simp add: adm_inv_def stream_end_def)
qed

lemma adm_reachable_inv: "(adm_step f one)\<^sup>*\<^sup>* x y \<Longrightarrow> adm_inv f one s0 x \<Longrightarrow> adm_inv f one s0 y"
  by (induction rule: rtranclp_induct) (auto intro: adm_step_inv)

lemma length_filter_prefix:
  assumes "\<And>i. i < length xs \<Longrightarrow> P (xs ! i) \<Longrightarrow> i < m"
  shows "length (filter P xs) \<le> m"
proof -
  have "filter P (drop m xs) = []"
    using assms by (fastforce simp: filter_empty_conv in_set_conv_nth less_diff_conv add.commute)
  then have "filter P xs = filter P (take m xs)" by (metis append_Nil2 append_take_drop_id filter_append)
  then show ?thesis using length_filter_le [of P "take m xs"] by simp
qed

text \<open>
  C26. However the calls interleave, at most \<open>maxStreams\<close> streams are admitted at a time; the counter of
  subscriptions is the number of calls that have not ended, rejected ones included, and so is the gauge.
\<close>

theorem rlp_streams_bounded:
  assumes "(adm_step f one)\<^sup>*\<^sup>* (rlp_NewServer m batchSize batchInterval [WithMaxStreams conn], []) (s, os)"
  shows "int (length (filter (\<lambda>c. snd c = Admitted) os)) \<le> max 0 conn \<and> rs_subscriptions s = int (length os) \<and>
    mg_value (rs_subscriptionsMetric s) = of_nat (length os) * f one"
proof -
  let ?s0 = "rlp_NewServer m batchSize batchInterval [WithMaxStreams conn]"
  have "adm_inv f one ?s0 (?s0, [])" by (simp add: adm_inv_def rlp_NewServer_def WithMaxStreams_def)
  then have inv: "adm_inv f one ?s0 (s, os)" using assms adm_reachable_inv by blast
  then have "i < nat conn" if "i < length os" "snd (os ! i) = Admitted" for i
    using that by (auto simp: adm_inv_def rlp_NewServer_def WithMaxStreams_def)
  then have "length (filter (\<lambda>c. snd c = Admitted) os) \<le> nat conn" by (rule length_filter_prefix)
  moreover have "mg_value (rs_subscriptionsMetric ?s0) = 0"
    by (simp add: rlp_NewServer_def WithMaxStreams_def Client_NewGauge_def NewGauge_def)
  ultimately show ?thesis using inv by (auto simp: adm_inv_def)
qed

theorem rlp_streams_bounded_witness:
  "\<exists>s. (adm_step (\<lambda>x. x) 1)\<^sup>*\<^sup>*
      (rlp_NewServer \<lparr>cl_pulseInterval = 0, cl_dialOpts = [], cl_sourceID = [], cl_tags = []\<rparr> 5 10 [WithMaxStreams 1], [])
      (s, [(1, Opened)]) \<and> rs_subscriptions s = 1"
proof -
  let ?s0 = "rlp_NewServer \<lparr>cl_pulseInterval = 0, cl_dialOpts = [], cl_sourceID = [], cl_tags = []\<rparr> 5 10 [WithMaxStreams 1]"
  obtain n s where o: "stream_open (\<lambda>x. x) 1 ?s0 = (n, s)" by fastforce
  then have "n = 1" by (simp add: stream_open_def rlp_NewServer_def WithMaxStreams_def)
  then have st: "(adm_step (\<lambda>x. x) 1)\<^sup>*\<^sup>* (?s0, []) (s, [(1, Opened)])"
    using adm_step.opens [OF o, of "[]"] by auto
  from rlp_streams_bounded [OF st] st show ?thesis by auto
qed

text \<open>
  The request of an unbatched call keeps the shard, the converged selectors and the kind of tags, but not
  the name that deterministic routing uses.
\<close>

lemma rlp_Receiver_drops_name:
  "rlp_Receiver_request n r s = (s', Inr br) \<Longrightarrow>
     ebr_DeterministicName br = [] \<and> ebr_ShardId br = er_ShardId r \<and> ebr_Selectors br \<noteq> [] \<and>
     ebr_UsePreferredTags br = er_UsePreferredTags r"
  by (auto simp: rlp_Receiver_request_def check_selectors_def Let_def split: prod.splits option.splits if_splits)

section \<open>Types of tags\<close>

text \<open>
  The two forms that an envelope can leave the proxy in: with preferred tags, which are texts, or with deprecated
  tags, which are values. In either, the map is there, it has no key twice and no nil value, and the other map is nil.
\<close>

definition tags_form :: "bool \<Rightarrow> Envelope \<Rightarrow> bool" where
  "tags_form usePreferred e \<longleftrightarrow> tags_wf e \<and>
     (if usePreferred then Tags e \<noteq> None \<and> DeprecatedTags e = None else Tags e = None \<and> DeprecatedTags e \<noteq> None)"

lemma gomap_wf_preferred: "preferred_loop sf dep ts = Inr ts' \<Longrightarrow> gomap_wf ts \<Longrightarrow> gomap_wf ts'"
  by (induction sf dep ts rule: preferred_loop.induct) (auto simp: gomap_wf_set split: option.splits)

lemma convergeTags_form:
  assumes "tags_wf e"
  shows "\<exists>e'. convergeTags sf p e = Inr e' \<and> tags_form p e'"
proof (cases p)
  case True
  obtain e' where e': "convergeTags sf True e = Inr e'" "DeprecatedTags e' = None" using convergeTags_preferred [OF assms] by blast
  from e'(1) obtain ts where ts: "preferred_loop sf (case DeprecatedTags e of None \<Rightarrow> [] | Some m \<Rightarrow> m)
      (case Tags e of None \<Rightarrow> [] | Some m \<Rightarrow> m) = Inr ts" "Tags e' = Some ts"
    by (auto simp: convergeTags_def split: sum.splits)
  have "gomap_wf ts" using gomap_wf_preferred [OF ts(1)] assms unfolding tags_wf_def by blast
  with e' ts(2) True show ?thesis by (auto simp: tags_form_def tags_wf_def deprecated_of_def ran_def)
next
  case False
  obtain e' where e': "convergeTags sf False e = Inr e'" "Tags e' = None" "tags_wf e'" using convergeTags_legacy [OF assms] by blast
  then have "DeprecatedTags e' \<noteq> None" by (auto simp: convergeTags_def)
  with e' False show ?thesis by (auto simp: tags_form_def)
qed

lemma rlp_step_no_panic:
  assumes "\<forall>e \<in> set (rx_inputs [ev]). tags_wf e"
  shows "rlp_step sf f one b p ev s \<noteq> Some (Inl panic)"
proof (cases ev)
  case (Rx rx)
  show ?thesis
  proof (cases rx)
    case (Inr e)
    with Rx assms convergeTags_form [of e sf p] show ?thesis
      by (cases b) (auto simp: rlp_step_def consumeReceiver_def consumeBatchReceiver_def consume_rx_def Let_def split: if_splits)
  qed (use Rx in \<open>cases b; auto simp: rlp_step_def consumeReceiver_def consumeBatchReceiver_def consume_rx_def\<close>)
qed (auto simp: rlp_step_def)

lemma rlp_run_no_panic: "\<forall>e \<in> set (rx_inputs evs). tags_wf e \<Longrightarrow> rlp_run sf f one b p evs s \<noteq> Some (Inl panic)"
proof (induction evs arbitrary: s)
  case (Cons ev evs)
  then have "\<forall>e \<in> set (rx_inputs [ev]). tags_wf e" "\<forall>e \<in> set (rx_inputs evs). tags_wf e"
    by (simp_all add: rx_inputs_Cons [of ev evs])
  with Cons.IH rlp_step_no_panic [of ev] show ?case by (auto split: option.splits sum.splits)
qed simp

text \<open>
  C32. Type soundness of a stream of the reverse log proxy: if the envelopes that it receives have maps of tags without a
  nil value, no interleaving of its goroutines panics, and everything that it has buffered, batched or passed
  to \<open>Send\<close> has the form of tags that the request asks for.
\<close>

theorem rlp_stream_typed:
  assumes "\<forall>e \<in> set (rx_inputs evs). tags_wf e"
  shows "case rlp_run sf f one b p evs (rlp_start f one now srv) of
      Some (Inl panic) \<Rightarrow> False
    | Some (Inr s) \<Rightarrow>
        list_all (tags_form p) (concat (st_tried (rl_stream s)) @ bt_batch (st_batcher (rl_stream s)) @ rl_buffer s) \<and>
        list_all (list_all (tags_form p)) (st_sent (rl_stream s))
    | None \<Rightarrow> True"
proof (cases "rlp_run sf f one b p evs (rlp_start f one now srv)")
  case (Some res)
  then obtain s where run: "rlp_run sf f one b p evs (rlp_start f one now srv) = Some (Inr s)"
    using rlp_run_no_panic [OF assms] by (cases res) auto
  note r = rlp_run_inv [OF run rlp_inv_start]
  then have rec: "map Inr (rl_received s) = map (convergeTags sf p) (rx_inputs evs)" by (simp add: rlp_start_def)
  have form: "tags_form p e" if "e \<in> set (rl_received s)" for e
  proof -
    have "Inr e \<in> set (map (convergeTags sf p) (rx_inputs evs))" unfolding rec [symmetric] using that by simp
    then obtain e0 where "e0 \<in> set (rx_inputs evs)" "convergeTags sf p e0 = Inr e" by auto
    then show ?thesis using assms convergeTags_form [of e0 sf p] by auto
  qed
  from r have inv: "rlp_inv b f one (rs_batchSize srv) (rs_egressMetric srv) (rs_subscriptionsMetric srv) (mc_delta (rs_droppedMetric srv)) s"
    by blast
  then have got: "subseq (st_got (rl_stream s) @ rl_buffer s) (rl_received s)"
    "concat (st_tried (rl_stream s)) @ bt_batch (st_batcher (rl_stream s)) = st_got (rl_stream s)"
    "subseq (st_sent (rl_stream s)) (st_tried (rl_stream s))"
    by (auto simp: rlp_inv_def stream_inv_def)
  have in_got: "set (concat (st_tried (rl_stream s)) @ bt_batch (st_batcher (rl_stream s)) @ rl_buffer s) \<subseteq> set (rl_received s)"
    using list_emb_set [OF got(1)] unfolding got(2) [symmetric] by auto
  moreover have "set (st_sent (rl_stream s)) \<subseteq> set (st_tried (rl_stream s))" using list_emb_set [OF got(3)] by auto
  ultimately show ?thesis using form by (auto simp: run list_all_iff)
qed simp

theorem rlp_stream_typed_witness:
  "\<exists>s. rlp_run (\<lambda>_. []) (\<lambda>x. x) 1 True True [Rx (Inr (Envelope_empty\<lparr>DeprecatedTags := Some [(''a'', Some \<lparr>Value_Data = Some (Value_Text ''x'')\<rparr>)]\<rparr>))]
      (rlp_start (\<lambda>x. x) 1 0 (rlp_NewServer \<lparr>cl_pulseInterval = 0, cl_dialOpts = [], cl_sourceID = [], cl_tags = []\<rparr> 100 0 [])) = Some (Inr s) \<and>
    list_all (tags_form True) (rl_buffer s) \<and> length (rl_buffer s) = 1"
proof -
  let ?e = "Envelope_empty\<lparr>DeprecatedTags := Some [(''a'', Some \<lparr>Value_Data = Some (Value_Text ''x'')\<rparr>)]\<rparr>"
  let ?srv = "rlp_NewServer \<lparr>cl_pulseInterval = 0, cl_dialOpts = [], cl_sourceID = [], cl_tags = []\<rparr> 100 0 []"
  have wf: "\<forall>e \<in> set (rx_inputs [Rx (Inr ?e)]). tags_wf e" by (simp add: tags_wf_def gomap_wf_def deprecated_of_def Envelope_empty_def)
  have "case rlp_run (\<lambda>_. []) (\<lambda>x. x) 1 True True [Rx (Inr ?e)] (rlp_start (\<lambda>x. x) 1 0 ?srv) of
    Some (Inr s) \<Rightarrow> length (rl_buffer s) = 1 | _ \<Rightarrow> False" by code_simp
  with rlp_stream_typed [OF wf, where sf = "\<lambda>_. []" and f = "\<lambda>x. x" and one = 1 and b = True and p = True and now = 0 and srv = ?srv] show ?thesis by (auto split: option.splits sum.splits)
qed

end
