(* ===== verification/FanIn.thy ===== *)
theory FanIn
  imports Metrics
begin

text \<open>
  The data plane of one subscription of a connector (\<open>plumbing/grpc_connector.go\<close>,
  \<open>rlp/internal/ingress/grpc_connector.go\<close>; the code of the two is the same but for the type of the data). Each router
  that the connector has reached is read by a \<open>readStream\<close> of its own; all of them put what they receive into the
  channel \<open>data\<close> of the consumer, from which one consumer takes it with \<open>Recv\<close>.

  A run is any interleaving of the readers and of the consumer; \<open>None\<close> means that an event is not possible. An element
  of the channel is tagged with the reader that put it there, which the code does not see. The consumer is a state
  with a step function (\<open>step\<close>), an event for each result of \<open>Recv\<close> (\<open>rx\<close>) and a test for these events (\<open>isRx\<close>); the locale
  \<open>receiver\<close> says what they have to be. It is interpreted on the egress server of the reverse log proxy (\<open>RlpFlow\<close>)
  and on the web socket of the traffic controller (\<open>TcFlow\<close>).
\<close>

section \<open>The model\<close>

text \<open>
  A \<open>readStream\<close>: in \<open>Recv\<close>, putting the rest of a batch of some size, or returned, with what it did not put
  of a batch of some size.
\<close>

datatype 'a reader_pc = Waiting | Putting "'a list" nat | Ended "'a list" nat

record ('a, 't) plane =
  pl_readers :: "'a reader_pc list"
  pl_data :: "(nat \<times> 'a) list"
  pl_bufferSize :: nat
  pl_ingress :: metric_Counter
  pl_ctxDone :: bool
  pl_stream :: 't

datatype ('a, 'e) plane_event =
    Connect
  | Receive nat "string + 'a list"
  | Put nat
  | Leave nat
  | Yield
  | YieldErr string
  | Cancel
  | Serve 'e

datatype ('a, 'e) plane_obs = PReceived nat "'a list" | PYielded nat 'a | PStream 'e

text \<open>\<open>NewGRPCConnector\<close>, as both programs call it, and \<open>Subscribe\<close>, for a consumer in a given state.\<close>

definition plane_open :: "metric_Client \<Rightarrow> 't \<Rightarrow> ('a, 't) plane" where
  "plane_open m st =
     \<lparr>pl_readers = [], pl_data = [], pl_bufferSize = 1000,
      pl_ingress = Client_NewCounter ''ingress'' [WithTags [(''protocol'', ''grpc'')], WithVersion 2 0] m,
      pl_ctxDone = False, pl_stream = st\<rparr>"

text \<open>\<open>Recv\<close> of a reader: an error ends it.\<close>

definition reader_receive ::
    "nat \<Rightarrow> string + 'a list \<Rightarrow> ('a, 't) plane \<Rightarrow> (('a, 't) plane \<times> ('a, 'e) plane_obs list) option" where
  "reader_receive k r s =
     (if k < length (pl_readers s) \<and> (case pl_readers s ! k of Waiting \<Rightarrow> True | _ \<Rightarrow> False) then
        case r of
          Inl err \<Rightarrow> Some (s\<lparr>pl_readers := (pl_readers s)[k := Ended [] 0]\<rparr>, [])
        | Inr es \<Rightarrow> Some (s\<lparr>pl_readers := (pl_readers s)[k := Putting es (length es)]\<rparr>, [PReceived k es])
      else None)"

text \<open>The case of the \<open>select\<close> that puts an element, when there is room; the counter after the batch.\<close>

definition reader_put :: "nat \<Rightarrow> ('a, 't) plane \<Rightarrow> ('a, 't) plane option" where
  "reader_put k s =
     (if k < length (pl_readers s) then
        case pl_readers s ! k of
          Putting (e # es) n \<Rightarrow>
            if length (pl_data s) < pl_bufferSize s
            then Some (s\<lparr>pl_data := pl_data s @ [(k, e)], pl_readers := (pl_readers s)[k := Putting es n]\<rparr>) else None
        | Putting [] n \<Rightarrow>
            Some (s\<lparr>pl_ingress := Counter_Increment (of_nat n) (pl_ingress s), pl_readers := (pl_readers s)[k := Waiting]\<rparr>)
        | _ \<Rightarrow> None
      else None)"

text \<open>The case of the \<open>select\<close> that the context is done.\<close>

definition reader_leave :: "nat \<Rightarrow> ('a, 't) plane \<Rightarrow> ('a, 't) plane option" where
  "reader_leave k s =
     (if k < length (pl_readers s) \<and> pl_ctxDone s then
        case pl_readers s ! k of
          Putting (e # es) n \<Rightarrow> Some (s\<lparr>pl_readers := (pl_readers s)[k := Ended (e # es) n]\<rparr>)
        | _ \<Rightarrow> None
      else None)"

text \<open>A step of the consumer; its own events are observed.\<close>

definition plane_serve ::
    "('e \<Rightarrow> 't \<Rightarrow> 't go option) \<Rightarrow> 'e \<Rightarrow> ('a, 't) plane \<Rightarrow> (('a, 't) plane \<times> ('a, 'e) plane_obs list) go option" where
  "plane_serve step ev s = map_option (map_sum id (\<lambda>st. (s\<lparr>pl_stream := st\<rparr>, [PStream ev]))) (step ev (pl_stream s))"

definition plane_step ::
    "('e \<Rightarrow> 't \<Rightarrow> 't go option) \<Rightarrow> (string + 'a \<Rightarrow> 'e) \<Rightarrow> ('e \<Rightarrow> bool) \<Rightarrow> ('a, 'e) plane_event \<Rightarrow> ('a, 't) plane \<Rightarrow>
     (('a, 't) plane \<times> ('a, 'e) plane_obs list) go option" where
  "plane_step step rx isRx ev s =
     (case ev of
        Connect \<Rightarrow> Some (Inr (s\<lparr>pl_readers := pl_readers s @ [Waiting]\<rparr>, []))
      | Receive k r \<Rightarrow> map_option Inr (reader_receive k r s)
      | Put k \<Rightarrow> map_option (\<lambda>s. Inr (s, [])) (reader_put k s)
      | Leave k \<Rightarrow> map_option (\<lambda>s. Inr (s, [])) (reader_leave k s)
      | Yield \<Rightarrow>
          (case pl_data s of
             [] \<Rightarrow> None
           | (k, e) # ds \<Rightarrow>
               map_option (map_sum id (\<lambda>(s, os). (s, PYielded k e # os))) (plane_serve step (rx (Inr e)) (s\<lparr>pl_data := ds\<rparr>)))
      | YieldErr err \<Rightarrow> if pl_ctxDone s then plane_serve step (rx (Inl err)) s else None
      | Cancel \<Rightarrow> Some (Inr (s\<lparr>pl_ctxDone := True\<rparr>, []))
      | Serve e \<Rightarrow> if isRx e then None else plane_serve step e s)"

fun plane_run ::
    "('e \<Rightarrow> 't \<Rightarrow> 't go option) \<Rightarrow> (string + 'a \<Rightarrow> 'e) \<Rightarrow> ('e \<Rightarrow> bool) \<Rightarrow> ('a, 'e) plane_event list \<Rightarrow> ('a, 't) plane \<Rightarrow>
     (('a, 't) plane \<times> ('a, 'e) plane_obs list) go option" where
  "plane_run step rx isRx [] s = Some (Inr (s, []))"
| "plane_run step rx isRx (ev # evs) s =
     (case plane_step step rx isRx ev s of
        None \<Rightarrow> None
      | Some (Inl panic) \<Rightarrow> Some (Inl panic)
      | Some (Inr (s, os)) \<Rightarrow> map_option (map_sum id (\<lambda>(s', os'). (s', os @ os'))) (plane_run step rx isRx evs s))"

text \<open>The consumer alone.\<close>

fun consumer_run :: "('e \<Rightarrow> 't \<Rightarrow> 't go option) \<Rightarrow> 'e list \<Rightarrow> 't \<Rightarrow> 't go option" where
  "consumer_run step [] st = Some (Inr st)"
| "consumer_run step (ev # evs) st =
     (case step ev st of
        None \<Rightarrow> None
      | Some (Inl panic) \<Rightarrow> Some (Inl panic)
      | Some (Inr st) \<Rightarrow> consumer_run step evs st)"

section \<open>What is observed\<close>

definition received_from :: "nat \<Rightarrow> ('a, 'e) plane_obs list \<Rightarrow> 'a list" where
  "received_from k os = concat (map (\<lambda>x. case x of PReceived k' es \<Rightarrow> if k' = k then es else [] | _ \<Rightarrow> []) os)"

definition received_all :: "('a, 'e) plane_obs list \<Rightarrow> 'a list" where
  "received_all os = concat (map (\<lambda>x. case x of PReceived _ es \<Rightarrow> es | _ \<Rightarrow> []) os)"

definition yields :: "('a, 'e) plane_obs list \<Rightarrow> (nat \<times> 'a) list" where
  "yields os = concat (map (\<lambda>x. case x of PYielded k e \<Rightarrow> [(k, e)] | _ \<Rightarrow> []) os)"

definition served :: "('a, 'e) plane_obs list \<Rightarrow> 'e list" where
  "served os = concat (map (\<lambda>x. case x of PStream ev \<Rightarrow> [ev] | _ \<Rightarrow> []) os)"

text \<open>The part of a tagged list that one reader put there, and what a reader still has of a batch.\<close>

definition part_of :: "nat \<Rightarrow> (nat \<times> 'a) list \<Rightarrow> 'a list" where
  "part_of k xs = map snd (filter (\<lambda>x. fst x = k) xs)"

fun unput :: "'a reader_pc \<Rightarrow> 'a list" where
  "unput Waiting = []"
| "unput (Putting es n) = es"
| "unput (Ended es n) = es"

fun uncounted :: "'a reader_pc \<Rightarrow> nat" where
  "uncounted Waiting = 0"
| "uncounted (Putting es n) = n"
| "uncounted (Ended es n) = n"

lemmas plane_obs_defs = received_from_def received_all_def yields_def served_def

lemma plane_obs_append:
  "received_from k (xs @ ys) = received_from k xs @ received_from k ys"
  "received_all (xs @ ys) = received_all xs @ received_all ys"
  "yields (xs @ ys) = yields xs @ yields ys" "served (xs @ ys) = served xs @ served ys"
  by (simp_all add: plane_obs_defs)

lemma plane_obs_Nil: "received_from k [] = []" "received_all [] = []" "yields [] = []" "served [] = []"
  by (simp_all add: plane_obs_defs)

lemma plane_obs_Cons:
  "received_from k (x # os) = (case x of PReceived k' es \<Rightarrow> if k' = k then es else [] | _ \<Rightarrow> []) @ received_from k os"
  "received_all (x # os) = (case x of PReceived _ es \<Rightarrow> es | _ \<Rightarrow> []) @ received_all os"
  "yields (x # os) = (case x of PYielded k e \<Rightarrow> [(k, e)] | _ \<Rightarrow> []) @ yields os"
  "served (x # os) = (case x of PStream ev \<Rightarrow> [ev] | _ \<Rightarrow> []) @ served os"
  by (simp_all add: plane_obs_defs)

lemmas plane_obs_simps = plane_obs_append plane_obs_Nil plane_obs_Cons

lemma part_of_simps [simp]:
  "part_of k [] = []" "part_of k (x # xs) = (if fst x = k then [snd x] else []) @ part_of k xs"
  "part_of k (xs @ ys) = part_of k xs @ part_of k ys"
  by (simp_all add: part_of_def)

section \<open>The invariant\<close>

definition reader_ok :: "('a, 'e) plane_obs list \<Rightarrow> (nat \<times> 'a) list \<Rightarrow> bool \<Rightarrow> nat \<Rightarrow> 'a reader_pc \<Rightarrow> bool" where
  "reader_ok os data cancelled k r \<longleftrightarrow>
     received_from k os = part_of k (yields os) @ part_of k data @ unput r \<and>
     (\<not> cancelled \<longrightarrow> (\<forall>es n. r = Ended es n \<longrightarrow> es = [] \<and> n = 0))"

definition readers_inv :: "('a, 'e) plane_obs list \<Rightarrow> ('a, 't) plane \<Rightarrow> bool" where
  "readers_inv os s \<longleftrightarrow>
     (\<forall>k < length (pl_readers s). reader_ok os (pl_data s) (pl_ctxDone s) k (pl_readers s ! k)) \<and>
     (\<forall>k \<ge> length (pl_readers s). received_from k os = []) \<and>
     (\<forall>x \<in> set (yields os @ pl_data s). fst x < length (pl_readers s)) \<and>
     length (pl_data s) \<le> pl_bufferSize s"

definition count_inv :: "uint64 \<Rightarrow> ('a, 'e) plane_obs list \<Rightarrow> ('a, 't) plane \<Rightarrow> bool" where
  "count_inv c0 os s \<longleftrightarrow>
     mc_delta (pl_ingress s) + of_nat (sum_list (map uncounted (pl_readers s))) = c0 + of_nat (length (received_all os))"

lemma sum_uncounted_update:
  assumes "k < length rs"
  shows "sum_list (map uncounted (rs[k := r])) + uncounted (rs ! k) = sum_list (map uncounted rs) + uncounted r"
  using assms
proof (induction rs arbitrary: k)
  case (Cons x xs)
  then show ?case by (cases k) auto
qed simp

lemma count_inv_update:
  assumes "count_inv c0 os s" and "k < length (pl_readers s)"
    and "mc_delta (pl_ingress s') + of_nat (uncounted r) + of_nat (length (received_all os)) =
      mc_delta (pl_ingress s) + of_nat (uncounted (pl_readers s ! k)) + of_nat (length (received_all (os @ os')))"
    and "pl_readers s' = (pl_readers s)[k := r]"
  shows "count_inv c0 (os @ os') s'"
proof -
  let ?u = "\<lambda>rs. of_nat (sum_list (map uncounted rs)) :: uint64"
  have "?u (pl_readers s') + of_nat (uncounted (pl_readers s ! k)) = ?u (pl_readers s) + of_nat (uncounted r)"
    unfolding assms(4) of_nat_add [symmetric] sum_uncounted_update [OF assms(2)] ..
  then have u: "?u (pl_readers s') = ?u (pl_readers s) + of_nat (uncounted r) - of_nat (uncounted (pl_readers s ! k))"
    by (simp only: eq_diff_eq)
  have m: "mc_delta (pl_ingress s') = mc_delta (pl_ingress s) + of_nat (uncounted (pl_readers s ! k)) +
      of_nat (length (received_all (os @ os'))) - of_nat (length (received_all os)) - of_nat (uncounted r)"
    using assms(3) by (simp only: eq_diff_eq ac_simps)
  have c: "mc_delta (pl_ingress s) = c0 + of_nat (length (received_all os)) - ?u (pl_readers s)"
    using assms(1) by (simp add: count_inv_def eq_diff_eq)
  show ?thesis unfolding count_inv_def u m c by simp
qed

lemma reader_update:
  assumes inv: "readers_inv os s" and k: "k < length (pl_readers s)"
    and s': "pl_readers s' = (pl_readers s)[k := r]" "pl_ctxDone s' = pl_ctxDone s" "pl_bufferSize s' = pl_bufferSize s"
      "pl_data s' = pl_data s @ xs" "length (pl_data s') \<le> pl_bufferSize s"
    and xs: "\<forall>x \<in> set xs. fst x = k" and os': "yields os' = []" "\<And>j. j \<noteq> k \<Longrightarrow> received_from j os' = []"
    and eq: "unput (pl_readers s ! k) @ received_from k os' = map snd xs @ unput r"
    and ended: "\<not> pl_ctxDone s \<Longrightarrow> \<forall>es n. r = Ended es n \<longrightarrow> es = [] \<and> n = 0"
  shows "readers_inv (os @ os') s'"
proof -
  have part: "part_of k xs = map snd xs" "\<And>j. j \<noteq> k \<Longrightarrow> part_of j xs = []"
    using xs by (auto simp: part_of_def filter_id_conv filter_empty_conv)
  have "reader_ok (os @ os') (pl_data s') (pl_ctxDone s') j (pl_readers s' ! j)" if "j < length (pl_readers s)" for j
  proof (cases "j = k")
    case True
    from inv k have "received_from k os = part_of k (yields os) @ part_of k (pl_data s) @ unput (pl_readers s ! k)"
      by (simp add: readers_inv_def reader_ok_def)
    with True k eq ended part show ?thesis by (simp add: reader_ok_def s' plane_obs_append os')
  next
    case False
    with inv that part os' show ?thesis by (simp add: readers_inv_def reader_ok_def s' plane_obs_append)
  qed
  moreover have "received_from j (os @ os') = []" if "length (pl_readers s) \<le> j" for j
    using inv that os'(2) [of j] k by (auto simp: readers_inv_def plane_obs_append)
  ultimately show ?thesis
    using inv k xs s'(5) by (auto simp: readers_inv_def s'(1-4) plane_obs_append os')
qed

lemma reader_receive_ok:
  assumes inv: "readers_inv os s" "count_inv c0 os s" and step: "reader_receive k r s = Some (s', os')"
  shows "readers_inv (os @ os') s' \<and> count_inv c0 (os @ os') s' \<and> served os' = [] \<and> yields os' = [] \<and>
    pl_stream s' = pl_stream s \<and> pl_bufferSize s' = pl_bufferSize s"
proof -
  from step have k: "k < length (pl_readers s)" "pl_readers s ! k = Waiting" by (auto simp: reader_receive_def split: if_splits reader_pc.splits)
  have data: "length (pl_data s) \<le> pl_bufferSize s" using inv(1) by (simp add: readers_inv_def)
  show ?thesis
  proof (cases r)
    case (Inl err)
    with step k have s': "s' = s\<lparr>pl_readers := (pl_readers s)[k := Ended [] 0]\<rparr>" "os' = []" by (simp_all add: reader_receive_def)
    with k data show ?thesis
      using reader_update [OF inv(1) k(1), where os' = "[]" and xs = "[]" and r = "Ended [] 0" and s' = s']
        count_inv_update [OF inv(2) k(1), where os' = "[]" and r = "Ended [] 0" and s' = s']
      by (simp add: plane_obs_simps)
  next
    case (Inr es)
    with step k have "s' = s\<lparr>pl_readers := (pl_readers s)[k := Putting es (length es)]\<rparr>" "os' = [PReceived k es]"
      by (simp_all add: reader_receive_def)
    with k data show ?thesis
      by (auto simp: plane_obs_simps intro!: reader_update [OF inv(1) k(1), where xs = "[]"] count_inv_update [OF inv(2) k(1)])
  qed
qed

lemma reader_put_ok:
  assumes inv: "readers_inv os s" "count_inv c0 os s" and step: "reader_put k s = Some s'"
  shows "readers_inv os s' \<and> count_inv c0 os s' \<and> pl_stream s' = pl_stream s \<and> pl_bufferSize s' = pl_bufferSize s"
proof -
  have data: "length (pl_data s) \<le> pl_bufferSize s" using inv(1) by (simp add: readers_inv_def)
  from step have k: "k < length (pl_readers s)" by (auto simp: reader_put_def split: if_splits)
  from step k obtain es n where pc: "pl_readers s ! k = Putting es n" by (auto simp: reader_put_def split: reader_pc.splits)
  note R = reader_update [OF inv(1) k, where os' = "[]", simplified append_Nil2] and
    C = count_inv_update [OF inv(2) k, where os' = "[]", simplified append_Nil2]
  show ?thesis
  proof (cases es)
    case Nil
    with step k pc have "s' = s\<lparr>pl_ingress := Counter_Increment (of_nat n) (pl_ingress s), pl_readers := (pl_readers s)[k := Waiting]\<rparr>"
      by (simp add: reader_put_def)
    with pc Nil data show ?thesis
      by (auto simp: plane_obs_simps Counter_Increment_def intro!: R [where xs = "[]" and r = Waiting] C [where r = Waiting])
  next
    case (Cons e es')
    with step k pc have "s' = s\<lparr>pl_data := pl_data s @ [(k, e)], pl_readers := (pl_readers s)[k := Putting es' n]\<rparr>"
      "length (pl_data s) < pl_bufferSize s"
      by (auto simp: reader_put_def split: if_splits)
    with pc Cons show ?thesis
      by (auto simp: plane_obs_simps intro!: R [where xs = "[(k, e)]" and r = "Putting es' n"] C [where r = "Putting es' n"])
  qed
qed

lemma reader_leave_ok:
  assumes inv: "readers_inv os s" "count_inv c0 os s" and step: "reader_leave k s = Some s'"
  shows "readers_inv os s' \<and> count_inv c0 os s' \<and> pl_stream s' = pl_stream s \<and> pl_bufferSize s' = pl_bufferSize s"
proof -
  have data: "length (pl_data s) \<le> pl_bufferSize s" using inv(1) by (simp add: readers_inv_def)
  from step have k: "k < length (pl_readers s)" "pl_ctxDone s" by (auto simp: reader_leave_def split: if_splits)
  from step k obtain e es n where pc: "pl_readers s ! k = Putting (e # es) n" "s' = s\<lparr>pl_readers := (pl_readers s)[k := Ended (e # es) n]\<rparr>"
    by (auto simp: reader_leave_def split: reader_pc.splits list.splits)
  then show ?thesis
    using k data reader_update [OF inv(1) k(1), where os' = "[]" and xs = "[]" and r = "Ended (e # es) n" and s' = s']
      count_inv_update [OF inv(2) k(1), where os' = "[]" and r = "Ended (e # es) n" and s' = s']
    by (simp add: plane_obs_simps)
qed

lemma consumer_run_snoc:
  "consumer_run step evs s = Some (Inr s1) \<Longrightarrow> step ev s1 = Some (Inr s2) \<Longrightarrow> consumer_run step (evs @ [ev]) s = Some (Inr s2)"
  by (induction evs arbitrary: s) (auto split: option.splits sum.splits)

section \<open>The contract of a consumer\<close>

text \<open>\<open>got\<close> is what an event hands to the consumer: one element for a result of \<open>Recv\<close> that has one, nothing otherwise.\<close>

locale receiver =
  fixes rx :: "string + 'a \<Rightarrow> 'e" and isRx :: "'e \<Rightarrow> bool" and got :: "'e \<Rightarrow> 'a list"
  assumes got_data: "got (rx (Inr x)) = [x]" and got_error: "got (rx (Inl err)) = []"
    and got_other: "\<not> isRx e \<Longrightarrow> got e = []"
begin

definition plane_inv :: "('e \<Rightarrow> 't \<Rightarrow> 't go option) \<Rightarrow> 't \<Rightarrow> ('a, 'e) plane_obs list \<Rightarrow> ('a, 't) plane \<Rightarrow> bool" where
  "plane_inv step st0 os s \<longleftrightarrow>
     readers_inv os s \<and> count_inv 0 os s \<and> pl_bufferSize s = 1000 \<and>
     consumer_run step (served os) st0 = Some (Inr (pl_stream s)) \<and> concat (map got (served os)) = map snd (yields os)"

lemma plane_inv_open: "plane_inv step st0 [] (plane_open m st0)"
  by (simp add: plane_inv_def plane_open_def readers_inv_def count_inv_def plane_obs_simps Client_NewCounter_def NewCounter_def)

text \<open>A step of the consumer, after the element it takes has left the channel.\<close>

lemma plane_serve_ok:
  assumes inv: "plane_inv step st0 os s" and step: "plane_serve step ev (s\<lparr>pl_data := ds\<rparr>) = Some (Inr (s', os'))"
    and data: "pl_data s = xs @ ds" and ev: "got ev = map snd xs" and xs: "xs = [] \<or> (\<exists>x. xs = [x])"
  shows "plane_inv step st0 (os @ map (\<lambda>(k, e). PYielded k e) xs @ os') s'"
proof -
  define ys where "ys = map (\<lambda>(k, e). PYielded k e) xs @ os'"
  from step obtain st where st: "step ev (pl_stream s) = Some (Inr st)"
    and s': "s' = s\<lparr>pl_data := ds, pl_stream := st\<rparr>" "os' = [PStream ev]"
    by (auto simp: plane_serve_def dest!: map_sum_Inr)
  have o: "received_from k ys = []" "received_all ys = []" "yields ys = xs" "served ys = [ev]" for k
    using xs by (auto simp: ys_def s' plane_obs_simps)
  have "readers_inv (os @ ys) s'"
    using inv data by (auto simp: plane_inv_def readers_inv_def reader_ok_def s'(1) plane_obs_append o)
  moreover have "count_inv 0 (os @ ys) s'" using inv by (simp add: plane_inv_def count_inv_def s'(1) plane_obs_append o)
  moreover have "consumer_run step (served (os @ ys)) st0 = Some (Inr (pl_stream s'))"
    using inv consumer_run_snoc [where step = step and ev = ev, OF _ st, of "served os" st0] by (simp add: plane_inv_def plane_obs_append o s'(1))
  ultimately show ?thesis unfolding ys_def [symmetric] using inv ev by (simp add: plane_inv_def plane_obs_append o s'(1))
qed

lemma plane_step_ok:
  assumes inv: "plane_inv step st0 os s" and step: "plane_step step rx isRx ev s = Some (Inr (s', os'))"
  shows "plane_inv step st0 (os @ os') s'"
proof -
  from inv have i: "readers_inv os s" "count_inv 0 os s" by (simp_all add: plane_inv_def)
  have same: "s\<lparr>pl_data := pl_data s\<rparr> = s" by simp
  note serve = plane_serve_ok [OF inv, where xs = "[]" and ds = "pl_data s", unfolded same, simplified]
  show ?thesis
  proof (cases ev)
    case Connect
    then have s': "s' = s\<lparr>pl_readers := pl_readers s @ [Waiting]\<rparr>" "os' = []" using step by (simp_all add: plane_step_def)
    have "\<forall>x \<in> set (yields os @ pl_data s). fst x \<noteq> length (pl_readers s)" using i(1) unfolding readers_inv_def by (metis nat_neq_iff)
    then have "part_of (length (pl_readers s)) (yields os) = []" "part_of (length (pl_readers s)) (pl_data s) = []"
      by (auto simp: part_of_def filter_empty_conv)
    then have "readers_inv os s'"
      using i(1) by (auto simp: readers_inv_def reader_ok_def s' nth_append less_Suc_eq)
    with inv show ?thesis by (simp add: plane_inv_def count_inv_def s')
  next
    case (Receive k r)
    with step reader_receive_ok [OF i, of k r s' os'] inv show ?thesis by (auto simp: plane_step_def plane_inv_def plane_obs_append)
  next
    case (Put k)
    with step reader_put_ok [OF i, of k s'] inv show ?thesis by (auto simp: plane_step_def plane_inv_def)
  next
    case (Leave k)
    with step reader_leave_ok [OF i, of k s'] inv show ?thesis by (auto simp: plane_step_def plane_inv_def)
  next
    case Yield
    with step obtain k e ds os1 where y: "pl_data s = (k, e) # ds"
      "plane_serve step (rx (Inr e)) (s\<lparr>pl_data := ds\<rparr>) = Some (Inr (s', os1))" "os' = PYielded k e # os1"
      by (auto simp: plane_step_def dest!: map_sum_Inr split: list.splits)
    from plane_serve_ok [OF inv y(2), of "[(k, e)]"] y(1,3) show ?thesis by (simp add: got_data)
  next
    case (YieldErr err)
    with step serve [of "rx (Inl err)" s' os'] show ?thesis by (auto simp: plane_step_def got_error split: if_splits)
  next
    case Cancel
    then have s': "s' = s\<lparr>pl_ctxDone := True\<rparr>" "os' = []" using step by (simp_all add: plane_step_def)
    have "readers_inv os s'" using i(1) by (simp add: readers_inv_def reader_ok_def s')
    with inv show ?thesis by (simp add: plane_inv_def count_inv_def s')
  next
    case (Serve e)
    with step serve [of e s' os'] show ?thesis by (auto simp: plane_step_def got_other split: if_splits)
  qed
qed

lemma plane_run_ok:
  assumes "plane_run step rx isRx evs s = Some (Inr (s', os'))" and "plane_inv step st0 os s"
  shows "plane_inv step st0 (os @ os') s'"
  using assms
proof (induction evs arbitrary: s os os')
  case (Cons ev evs)
  then obtain s1 os1 os2 where st: "plane_step step rx isRx ev s = Some (Inr (s1, os1))"
    and run: "plane_run step rx isRx evs s1 = Some (Inr (s', os2))" "os' = os1 @ os2"
    by (auto split: option.splits sum.splits dest!: map_sum_Inr)
  from Cons.IH [OF run(1) plane_step_ok [OF Cons.prems(2) st]] run(2) show ?case by simp
qed simp

text \<open>
  What every consumer can rely on: from each reader it gets, in order and without gaps, what that reader received;
  the rest waits in the bounded channel or at the reader.
\<close>

lemma fan_in:
  assumes "plane_run step rx isRx evs (plane_open m st0) = Some (Inr (s, os))"
  shows "(\<forall>k < length (pl_readers s).
        received_from k os = part_of k (yields os) @ part_of k (pl_data s) @ unput (pl_readers s ! k) \<and>
        (\<forall>es n. pl_readers s ! k = Ended es n \<and> es \<noteq> [] \<longrightarrow> pl_ctxDone s)) \<and>
    length (pl_data s) \<le> 1000 \<and>
    mc_delta (pl_ingress s) + of_nat (sum_list (map uncounted (pl_readers s))) = of_nat (length (received_all os))"
    and "consumer_run step (served os) st0 = Some (Inr (pl_stream s))"
    and "concat (map got (served os)) = map snd (yields os)"
  using plane_run_ok [OF assms plane_inv_open]
  by (auto simp: plane_inv_def readers_inv_def reader_ok_def count_inv_def)

lemma yields_from_readers:
  assumes "plane_run step rx isRx evs (plane_open m st0) = Some (Inr (s, os))" and "(k, x) \<in> set (yields os)"
  shows "k < length (pl_readers s) \<and> x \<in> set (received_from k os)"
proof -
  have "readers_inv os s" using plane_run_ok [OF assms(1) plane_inv_open] by (simp add: plane_inv_def)
  then have "\<forall>y \<in> set (yields os). fst y < length (pl_readers s)" by (simp add: readers_inv_def)
  with assms(2) have "k < length (pl_readers s)" by auto
  moreover have "x \<in> set (part_of k (yields os))" using assms(2) by (force simp: part_of_def)
  ultimately show ?thesis using fan_in(1) [OF assms(1)] by auto
qed

end

end
