(* ===== verification/RlpFlow.thy ===== *)
theory RlpFlow
  imports RlpEgress FanIn
begin

text \<open>
  One subscription of the reverse log proxy from the routers to the client (\<open>rlp/app/rlp.go\<close>,
  \<open>rlp/internal/ingress/grpc_connector.go\<close>, \<open>rlp/internal/egress/server.go\<close>): the data plane of \<open>FanIn\<close> with the egress
  server as its consumer.
\<close>

section \<open>The model\<close>

definition is_rx :: "rlp_event \<Rightarrow> bool" where
  "is_rx ev = (case ev of Rx _ \<Rightarrow> True | _ \<Rightarrow> False)"

type_synonym rlp_plane = "(Envelope, rlp_stream) plane"

text \<open>\<open>setupIngress\<close>, \<open>setupEgress\<close> and \<open>Subscribe\<close> for an admitted stream.\<close>

definition plane_start :: "(float64 \<Rightarrow> uint64) \<Rightarrow> float64 \<Rightarrow> int \<Rightarrow> metric_Client \<Rightarrow> int \<Rightarrow> rlp_plane" where
  "plane_start toUint64 one now m maxEgressStreams =
     plane_open m (rlp_start toUint64 one now (rlp_NewServer m 100 100000000 [WithMaxStreams maxEgressStreams]))"

definition rlp_plane_run ::
    "(float64 \<Rightarrow> string) \<Rightarrow> (float64 \<Rightarrow> uint64) \<Rightarrow> float64 \<Rightarrow> bool \<Rightarrow> bool \<Rightarrow> (Envelope, rlp_event) plane_event list \<Rightarrow> rlp_plane \<Rightarrow>
     (rlp_plane \<times> (Envelope, rlp_event) plane_obs list) go option" where
  "rlp_plane_run sf f one b p = plane_run (rlp_step sf f one b p) Rx is_rx"

section \<open>The egress server as a consumer\<close>

definition rlp_got :: "rlp_event \<Rightarrow> Envelope list" where
  "rlp_got ev = (case ev of Rx (Inr e) \<Rightarrow> [e] | _ \<Rightarrow> [])"

interpretation rlp: receiver Rx is_rx rlp_got
  by unfold_locales (simp_all add: rlp_got_def is_rx_def split: rlp_event.splits)

lemma consumer_run_rlp: "consumer_run (rlp_step sf f one b p) evs st = rlp_run sf f one b p evs st"
  by (induction evs arbitrary: st) (auto split: option.splits sum.splits)

lemma rx_inputs_got: "rx_inputs evs = concat (map rlp_got evs)"
  by (induction evs rule: rx_inputs.induct) (simp_all add: rlp_got_def)

lemma plane_flow:
  assumes "rlp_plane_run sf f one b p evs (plane_start f one now m maxStreams) = Some (Inr (s, os))"
  shows "(\<forall>k < length (pl_readers s).
        received_from k os = part_of k (yields os) @ part_of k (pl_data s) @ unput (pl_readers s ! k) \<and>
        (\<forall>es n. pl_readers s ! k = Ended es n \<and> es \<noteq> [] \<longrightarrow> pl_ctxDone s)) \<and>
    length (pl_data s) \<le> 1000 \<and>
    mc_delta (pl_ingress s) + of_nat (sum_list (map uncounted (pl_readers s))) = of_nat (length (received_all os)) \<and>
    (\<exists>taken. map Inr taken = map (convergeTags sf p \<circ> snd) (yields os) \<and>
       subseq (concat (st_sent (rl_stream (pl_stream s)))) taken \<and>
       (let st = rl_stream (pl_stream s); kept = concat (st_tried st) @ bt_batch (st_batcher st) @ rl_buffer (pl_stream s)
        in subseq kept taken \<and> mc_delta (rl_dropped (pl_stream s)) + of_nat (length kept) = of_nat (length taken)))"
proof -
  let ?srv = "rlp_NewServer m 100 100000000 [WithMaxStreams maxStreams]" and ?st = "rl_stream (pl_stream s)"
  note f = rlp.fan_in [OF assms [unfolded rlp_plane_run_def plane_start_def]]
  have r: "rlp_run sf f one b p (served os) (rlp_start f one now ?srv) = Some (Inr (pl_stream s))"
    "rx_inputs (served os) = map snd (yields os)"
    using f(2,3) by (simp_all add: consumer_run_rlp rx_inputs_got)
  note run = rlp_run_inv [OF r(1) rlp_inv_start]
  define taken where "taken = rl_received (pl_stream s)"
  have rec: "map Inr taken = map (convergeTags sf p \<circ> snd) (yields os)"
    using run r(2) by (simp add: rlp_start_def taken_def)
  from run have si: "stream_inv f one (rs_batchSize ?srv) (rs_egressMetric ?srv) (rs_subscriptionsMetric ?srv) ?st"
    and k: "subseq (st_got ?st @ rl_buffer (pl_stream s)) taken"
      "mc_delta (rl_dropped (pl_stream s)) + of_nat (length (st_got ?st @ rl_buffer (pl_stream s))) =
        mc_delta (rs_droppedMetric ?srv) + of_nat (length taken)"
    unfolding rlp_inv_def taken_def by blast+
  from si have got: "concat (st_tried ?st) @ bt_batch (st_batcher ?st) = st_got ?st" "subseq (st_sent ?st) (st_tried ?st)"
    by (simp_all add: stream_inv_def)
  have kept: "concat (st_tried ?st) @ bt_batch (st_batcher ?st) @ rl_buffer (pl_stream s) = st_got ?st @ rl_buffer (pl_stream s)"
    unfolding got(1) [symmetric] by simp
  have "subseq (concat (st_tried ?st)) (st_got ?st @ rl_buffer (pl_stream s))"
    unfolding kept [symmetric] by (rule prefix_imp_subseq) simp
  with subseq_concat [OF got(2)] k(1) have sent: "subseq (concat (st_sent ?st)) taken" by (meson subseq_order.trans)
  have "mc_delta (rs_droppedMetric ?srv) = 0"
    by (simp add: rlp_NewServer_def WithMaxStreams_def Client_NewCounter_def NewCounter_def)
  with rec sent k have t: "\<exists>taken. map Inr taken = map (convergeTags sf p \<circ> snd) (yields os) \<and>
       subseq (concat (st_sent ?st)) taken \<and>
       (let st = ?st; kept = concat (st_tried st) @ bt_batch (st_batcher st) @ rl_buffer (pl_stream s)
        in subseq kept taken \<and> mc_delta (rl_dropped (pl_stream s)) + of_nat (length kept) = of_nat (length taken))"
    unfolding Let_def kept by (intro exI [of _ taken]) simp
  with f(1) show ?thesis by blast
qed

section \<open>Properties\<close>

text \<open>
  C14. The reverse log proxy from end to end: under every interleaving of the readers of any number of routers,
  of the egress server and of the client, what was received from a router is, in order, what the egress
  server took, what waits in the channel, and what its reader still has to put; a reader gives up an
  envelope only after the subscription was cancelled. The channel never has more than its 1000 places, the
  ingress counter is the number of envelopes in completed batches, and the batches passed to \<open>Send\<close>
  hold, in order, envelopes that were taken, with their tags converged; what is missing was counted as dropped.
\<close>

theorem rlp_end_to_end:
  assumes "rlp_plane_run sf f one b p evs (plane_start f one now m maxStreams) = Some (Inr (s, os))"
  shows "(\<forall>k < length (pl_readers s).
        received_from k os = part_of k (yields os) @ part_of k (pl_data s) @ unput (pl_readers s ! k) \<and>
        (\<forall>es n. pl_readers s ! k = Ended es n \<and> es \<noteq> [] \<longrightarrow> pl_ctxDone s)) \<and>
    length (pl_data s) \<le> 1000 \<and>
    mc_delta (pl_ingress s) + of_nat (sum_list (map uncounted (pl_readers s))) = of_nat (length (received_all os)) \<and>
    (\<exists>taken. map Inr taken = map (convergeTags sf p \<circ> snd) (yields os) \<and>
       subseq (concat (st_sent (rl_stream (pl_stream s)))) taken \<and>
       (let st = rl_stream (pl_stream s); kept = concat (st_tried st) @ bt_batch (st_batcher st) @ rl_buffer (pl_stream s)
        in subseq kept taken \<and> mc_delta (rl_dropped (pl_stream s)) + of_nat (length kept) = of_nat (length taken)))"
  by (rule plane_flow [OF assms])

theorem rlp_end_to_end_witness:
  "\<exists>s os. rlp_plane_run (\<lambda>_. []) (\<lambda>x. x) 1 True True
      [Connect, Connect, Receive 0 (Inr [Envelope_empty]), Put 0, Put 0, Yield, Cancel, YieldErr ''EOF'',
       Serve (Case (FromReceiveErr (\<lambda>_. (0, 0, None)) 0 None))]
      (plane_start (\<lambda>x. x) 1 0 \<lparr>cl_pulseInterval = 0, cl_dialOpts = [], cl_sourceID = [], cl_tags = []\<rparr> 500) = Some (Inr (s, os)) \<and>
     mc_delta (pl_ingress s) = 1 \<and> (\<exists>taken. subseq (concat (st_sent (rl_stream (pl_stream s)))) taken \<and> length taken = 1)"
proof -
  let ?evs = "[Connect, Connect, Receive 0 (Inr [Envelope_empty]), Put 0, Put 0, Yield, Cancel, YieldErr ''EOF'',
       Serve (Case (FromReceiveErr (\<lambda>_. (0, 0, None)) 0 None))]"
  let ?run = "rlp_plane_run (\<lambda>_. []) (\<lambda>x. x) 1 True True ?evs
      (plane_start (\<lambda>x. x) 1 0 \<lparr>cl_pulseInterval = 0, cl_dialOpts = [], cl_sourceID = [], cl_tags = []\<rparr> 500)"
  have "case ?run of Some (Inr (s, os)) \<Rightarrow>
      length (yields os) = 1 \<and> sum_list (map uncounted (pl_readers s)) = 0 \<and> length (received_all os) = 1 | _ \<Rightarrow> False"
    by code_simp
  then obtain s os where run: "?run = Some (Inr (s, os))" and l: "length (yields os) = 1"
    "sum_list (map uncounted (pl_readers s)) = 0" "length (received_all os) = 1"
    by (auto split: option.splits sum.splits)
  note all = rlp_end_to_end [OF run]
  then obtain taken where t: "map Inr taken = map (convergeTags (\<lambda>_. []) True \<circ> snd) (yields os)"
    "subseq (concat (st_sent (rl_stream (pl_stream s)))) taken" by blast
  have "length taken = 1" using arg_cong [OF t(1), of length] l(1) by simp
  moreover have "mc_delta (pl_ingress s) = 1" using all l(2,3) by simp
  ultimately show ?thesis using run t(2) by blast
qed

end
