(* ===== verification/Http.thy ===== *)
theory Http
  imports Prelude
begin

text \<open>
  What the gateway and the traffic controller use of the standard library around HTTP: requests and their
  headers, cookies and queries, responses and their writers, outgoing requests, escaping of query strings,
  and the regular expression for GUIDs that both compile.

  Strings are byte strings. Header keys are in canonical form. A handler is a function of the request and
  the response writer; it returns the writer and the list of what it did elsewhere (the subscriptions that
  it opened).
\<close>

section \<open>Requests and responses\<close>

type_synonym header = "(string, string list) gomap"

record http_request =
  rq_Method :: string
  rq_Path :: string
  rq_RawQuery :: string
  rq_Query :: "(string, string list) gomap"
  rq_Header :: header
  rq_RemoteAddr :: string
  rq_Cookies :: "(string \<times> string) list"

text \<open>\<open>Header.Get\<close> and \<open>Values.Get\<close>: the first value, or the empty string.\<close>

definition values_get :: "(string, string list) gomap \<Rightarrow> string \<Rightarrow> string" where
  "values_get m k = (case map_of m k of Some (v # _) \<Rightarrow> v | _ \<Rightarrow> [])"

text \<open>A response writer: the status is fixed by the first \<open>WriteHeader\<close>, \<open>Write\<close> or \<open>Flush\<close>.\<close>

record response_writer =
  rw_status :: "int option"
  rw_header :: header
  rw_body :: string
  rw_flushed :: nat

definition response_new :: response_writer where
  "response_new = \<lparr>rw_status = None, rw_header = [], rw_body = [], rw_flushed = 0\<rparr>"

definition Header_Set :: "string \<Rightarrow> string \<Rightarrow> response_writer \<Rightarrow> response_writer" where
  "Header_Set k v w = w\<lparr>rw_header := gomap_set k [v] (rw_header w)\<rparr>"

definition Header_Add :: "string \<Rightarrow> string \<Rightarrow> response_writer \<Rightarrow> response_writer" where
  "Header_Add k v w =
     w\<lparr>rw_header := gomap_set k ((case map_of (rw_header w) k of None \<Rightarrow> [] | Some vs \<Rightarrow> vs) @ [v]) (rw_header w)\<rparr>"

definition WriteHeader :: "int \<Rightarrow> response_writer \<Rightarrow> response_writer" where
  "WriteHeader code w = (if rw_status w = None then w\<lparr>rw_status := Some code\<rparr> else w)"

definition rw_Write :: "string \<Rightarrow> response_writer \<Rightarrow> response_writer" where
  "rw_Write s w = (let w = WriteHeader 200 w in w\<lparr>rw_body := rw_body w @ s\<rparr>)"

definition rw_Flush :: "response_writer \<Rightarrow> response_writer" where
  "rw_Flush w = (let w = WriteHeader 200 w in w\<lparr>rw_flushed := length (rw_body w)\<rparr>)"

definition newline :: string where
  "newline = [CHR 0x0A]"

definition http_Error :: "string \<Rightarrow> int \<Rightarrow> response_writer \<Rightarrow> response_writer" where
  "http_Error err code w =
     rw_Write (err @ newline) (WriteHeader code
       (Header_Set ''X-Content-Type-Options'' ''nosniff'' (Header_Set ''Content-Type'' ''text/plain; charset=utf-8'' w)))"

type_synonym 'e handler = "http_request \<Rightarrow> response_writer \<Rightarrow> response_writer \<times> 'e list"

text \<open>Outgoing requests and their responses; \<open>SetBasicAuth\<close> keeps the pair.\<close>

record client_request =
  cr_Method :: string
  cr_URL :: string
  cr_Header :: "(string \<times> string) list"
  cr_BasicAuth :: "(string \<times> string) option"
  cr_Body :: string

record http_response =
  hr_StatusCode :: int
  hr_Body :: string

section \<open>Strings\<close>

definition is_space :: "char \<Rightarrow> bool" where
  "is_space c \<longleftrightarrow> c \<in> {CHR '' '', CHR 0x09, CHR 0x0A, CHR 0x0B, CHR 0x0C, CHR 0x0D}"

text \<open>\<open>strings.TrimSpace\<close> (on ASCII).\<close>

definition trim_space :: "string \<Rightarrow> string" where
  "trim_space s = rev (dropWhile is_space (rev (dropWhile is_space s)))"

definition is_alnum :: "char \<Rightarrow> bool" where
  "is_alnum c =
     (let n = of_char c :: nat
      in (97 \<le> n \<and> n \<le> 122) \<or> (65 \<le> n \<and> n \<le> 90) \<or> (48 \<le> n \<and> n \<le> 57))"

definition hex_upper :: "nat \<Rightarrow> char" where
  "hex_upper n = (if n < 10 then char_of (48 + n) else char_of (55 + n))"

definition hex_value :: "char \<Rightarrow> nat option" where
  "hex_value c =
     (let n = of_char c :: nat
      in if 48 \<le> n \<and> n \<le> 57 then Some (n - 48)
         else if 65 \<le> n \<and> n \<le> 70 then Some (n - 55)
         else if 97 \<le> n \<and> n \<le> 102 then Some (n - 87)
         else None)"

text \<open>\<open>url.QueryEscape\<close> and \<open>url.QueryUnescape\<close> (\<open>None\<close> for an \<open>EscapeError\<close>).\<close>

fun query_escape :: "string \<Rightarrow> string" where
  "query_escape [] = []"
| "query_escape (c # cs) =
     (if is_alnum c \<or> c \<in> set ''-_.~'' then c # query_escape cs
      else if c = CHR '' '' then CHR ''+'' # query_escape cs
      else CHR ''%'' # hex_upper (of_char c div 16) # hex_upper (of_char c mod 16) # query_escape cs)"

fun query_unescape :: "string \<Rightarrow> string option" where
  "query_unescape [] = Some []"
| "query_unescape (c # cs) =
     (if c = CHR ''%'' then
        (case cs of
           h # l # rest \<Rightarrow>
             (case (hex_value h, hex_value l) of
                (Some a, Some b) \<Rightarrow> map_option (\<lambda>s. char_of (16 * a + b) # s) (query_unescape rest)
              | _ \<Rightarrow> None)
         | _ \<Rightarrow> None)
      else map_option (\<lambda>s. (if c = CHR ''+'' then CHR '' '' else c) # s) (query_unescape cs))"

section \<open>GUIDs\<close>

text \<open>\<open>^[[:xdigit:]]{8}-[[:xdigit:]]{4}-[[:xdigit:]]{4}-[[:xdigit:]]{4}-[[:xdigit:]]{12}$\<close>\<close>

fun match_hex :: "nat \<Rightarrow> string \<Rightarrow> string option" where
  "match_hex 0 s = Some s"
| "match_hex (Suc n) [] = None"
| "match_hex (Suc n) (c # s) = (if hex_value c = None then None else match_hex n s)"

fun match_dash :: "string \<Rightarrow> string option" where
  "match_dash [] = None"
| "match_dash (c # s) = (if c = CHR ''-'' then Some s else None)"

definition is_guid :: "string \<Rightarrow> bool" where
  "is_guid s =
     (Option.bind (match_hex 8 s) (\<lambda>s. Option.bind (match_dash s) (\<lambda>s.
      Option.bind (match_hex 4 s) (\<lambda>s. Option.bind (match_dash s) (\<lambda>s.
      Option.bind (match_hex 4 s) (\<lambda>s. Option.bind (match_dash s) (\<lambda>s.
      Option.bind (match_hex 4 s) (\<lambda>s. Option.bind (match_dash s) (\<lambda>s. match_hex 12 s)))))))) = Some [])"

section \<open>Lemmas\<close>

lemma match_hex_length: "match_hex n s = Some t \<Longrightarrow> length s = n + length t"
  by (induction n s rule: match_hex.induct) (auto split: if_splits)

lemma match_dash_length: "match_dash s = Some t \<Longrightarrow> length s = Suc (length t)"
  by (cases s) (auto split: if_splits)

lemma is_guid_length: "is_guid s \<Longrightarrow> length s = 36"
  by (auto simp: is_guid_def bind_eq_Some_conv dest!: match_hex_length match_dash_length)

lemma hex_value_upper [simp]: "n < 16 \<Longrightarrow> hex_value (hex_upper n) = Some n"
  by (simp add: hex_value_def hex_upper_def Let_def)

lemma query_unescape_escape [simp]: "query_unescape (query_escape s) = Some s"
proof (induction s)
  case (Cons c s)
  have "\<not> is_alnum (CHR ''%'')" "\<not> is_alnum (CHR ''+'')" "char_of (43::nat) = CHR ''+''" "char_of (37::nat) = CHR ''%''"
    by code_simp+
  moreover have "(of_char c :: nat) div 16 < 16" by (rule less_mult_imp_div_less) simp
  moreover have "char_of (16 * (of_char c div 16 :: nat) + of_char c mod 16) = c" by simp
  ultimately show ?case using Cons by auto
qed simp

end
