(* ===== verification/GatewayAuth.thy ===== *)
theory GatewayAuth
  imports Http
begin

text \<open>
  The clients of the gateway for the authorization server (\<open>rlp-gateway/internal/auth/uaa_client.go\<close>) and for
  the Cloud Controller (\<open>capi_client.go\<close>).

  Parameters: the HTTP client (\<open>Do\<close>, an error or a response for each request), the parser of URLs (\<open>validURL\<close>:
  \<open>http.NewRequest\<close> fails on an invalid one) and the JSON decoder for each response type (an error or the
  decoded fields). Every operation also returns the latency gauges that it sets, in order.
\<close>

section \<open>UAA\<close>

record Oauth2Client =
  IsAdmin :: bool
  ClientID :: string
  UserID :: string

record UAAClient =
  uaa_url :: string
  uaa_client :: string
  uaa_clientSecret :: string

text \<open>\<open>checkToken\<close> parses an address and replaces its path by \<open>check_token\<close>; a failure is fatal.\<close>

definition NewUAAClient :: "(string \<Rightarrow> string option) \<Rightarrow> string \<Rightarrow> string \<Rightarrow> string \<Rightarrow> UAAClient option" where
  "NewUAAClient checkToken uaaAddr client clientSecret =
     map_option (\<lambda>u. \<lparr>uaa_url = u, uaa_client = client, uaa_clientSecret = clientSecret\<rparr>) (checkToken uaaAddr)"

definition trimBearer :: "string \<Rightarrow> string" where
  "trimBearer authToken = trim_space (trim_prefix authToken ''bearer'')"

record uaaResponse =
  ur_Scopes :: "string list"
  ur_UserID :: string
  ur_ClientID :: string

definition hasDopplerScope :: "uaaResponse \<Rightarrow> bool" where
  "hasDopplerScope r = list_ex (\<lambda>scope. scope = ''doppler.firehose'' \<or> scope = ''logs.admin'') (ur_Scopes r)"

definition parseResponse :: "(string \<Rightarrow> string + uaaResponse) \<Rightarrow> string \<Rightarrow> string + uaaResponse" where
  "parseResponse decode body = (case decode body of Inl err \<Rightarrow> Inl err | Inr resp \<Rightarrow> Inr resp)"

definition uaa_request :: "UAAClient \<Rightarrow> string \<Rightarrow> client_request" where
  "uaa_request c token =
     \<lparr>cr_Method = ''POST'', cr_URL = uaa_url c, cr_Header = [(''Content-Type'', ''application/x-www-form-urlencoded'')],
      cr_BasicAuth = Some (uaa_client c, uaa_clientSecret c), cr_Body = ''token='' @ query_escape (trimBearer token)\<rparr>"

definition UAAClient_Read ::
    "(string \<Rightarrow> bool) \<Rightarrow> (client_request \<Rightarrow> string + http_response) \<Rightarrow> (string \<Rightarrow> string + uaaResponse) \<Rightarrow>
     UAAClient \<Rightarrow> string \<Rightarrow> (string + Oauth2Client) \<times> string list" where
  "UAAClient_Read validURL Do decode c token =
     (if token = [] then (Inl ''missing token'', [])
      else if \<not> validURL (uaa_url c) then (Inl ''invalid URL'', [])
      else
        (case Do (uaa_request c token) of
           Inl err \<Rightarrow> Inl err
         | Inr resp \<Rightarrow>
             (case parseResponse decode (hr_Body resp) of
                Inl err \<Rightarrow> Inl err
              | Inr uaaR \<Rightarrow>
                  Inr \<lparr>IsAdmin = (hr_StatusCode resp = 200 \<and> hasDopplerScope uaaR),
                       ClientID = ur_ClientID uaaR, UserID = ur_UserID uaaR\<rparr>),
         [''LastUAALatency'']))"

section \<open>CAPI\<close>

record CAPIClient =
  capi_addr :: string
  capi_externalAddr :: string

definition NewCAPIClient :: "(string \<Rightarrow> bool) \<Rightarrow> string \<Rightarrow> string \<Rightarrow> CAPIClient option" where
  "NewCAPIClient validURL capiAddr externalCapiAddr =
     (if \<not> validURL capiAddr then None
      else if \<not> validURL externalCapiAddr then None
      else Some \<lparr>capi_addr = capiAddr, capi_externalAddr = externalCapiAddr\<rparr>)"

definition capi_get :: "string \<Rightarrow> string \<Rightarrow> client_request" where
  "capi_get uri token =
     \<lparr>cr_Method = ''GET'', cr_URL = uri, cr_Header = [(''Authorization'', token)], cr_BasicAuth = None, cr_Body = []\<rparr>"

definition log_access_uri :: "CAPIClient \<Rightarrow> string \<Rightarrow> string" where
  "log_access_uri c sourceID = capi_addr c @ ''/internal/v4/log_access/'' @ sourceID"

definition service_instance_uri :: "CAPIClient \<Rightarrow> string \<Rightarrow> string" where
  "service_instance_uri c sourceID = capi_externalAddr c @ ''/v3/service_instances/'' @ sourceID"

definition CAPIClient_IsAuthorized ::
    "(string \<Rightarrow> bool) \<Rightarrow> (client_request \<Rightarrow> string + http_response) \<Rightarrow> CAPIClient \<Rightarrow> string \<Rightarrow> string \<Rightarrow> bool \<times> string list" where
  "CAPIClient_IsAuthorized validURL Do c sourceID token =
     (let uri = log_access_uri c sourceID
      in if \<not> validURL uri then (False, [])
         else case Do (capi_get uri token) of
           Inl err \<Rightarrow> (False, [''LastCAPIV4LogAccessLatency''])
         | Inr resp \<Rightarrow>
             if hr_StatusCode resp = 200 then (True, [''LastCAPIV4LogAccessLatency''])
             else
               let uri = service_instance_uri c sourceID
               in if \<not> validURL uri then (False, [''LastCAPIV4LogAccessLatency''])
                  else
                    (case Do (capi_get uri token) of
                       Inl err \<Rightarrow> False
                     | Inr resp \<Rightarrow> hr_StatusCode resp = 200,
                     [''LastCAPIV4LogAccessLatency'', ''LastCAPIV2ServiceInstancesLatency'']))"

text \<open>
  One of the two listings of \<open>AvailableSourceIDs\<close>: \<open>None\<close> on any failure. The decoder returns the GUIDs and its
  error; reaching the end of the body (\<open>EOF\<close>) is not a failure.
\<close>

definition list_guids ::
    "(string \<Rightarrow> bool) \<Rightarrow> (client_request \<Rightarrow> string + http_response) \<Rightarrow> (string \<Rightarrow> string list \<times> string option) \<Rightarrow>
     string \<Rightarrow> string \<Rightarrow> string \<Rightarrow> string list option \<times> string list" where
  "list_guids validURL Do decode latency uri token =
     (if \<not> validURL uri then (None, [])
      else
        (case Do (capi_get uri token) of
           Inl err \<Rightarrow> None
         | Inr resp \<Rightarrow>
             if hr_StatusCode resp \<noteq> 200 then None
             else case decode (hr_Body resp) of
               (guids, Some err) \<Rightarrow> if err \<noteq> ''EOF'' then None else Some guids
             | (guids, None) \<Rightarrow> Some guids,
         [latency]))"

definition AvailableSourceIDs ::
    "(string \<Rightarrow> bool) \<Rightarrow> (client_request \<Rightarrow> string + http_response) \<Rightarrow> (string \<Rightarrow> string list \<times> string option) \<Rightarrow>
     (string \<Rightarrow> string list \<times> string option) \<Rightarrow> CAPIClient \<Rightarrow> string \<Rightarrow> string list \<times> string list" where
  "AvailableSourceIDs validURL Do decodeApps decodeServices c token =
     (case list_guids validURL Do decodeApps ''LastCAPIV3AppsLatency'' (capi_externalAddr c @ ''/v3/apps'') token of
        (None, latencies) \<Rightarrow> ([], latencies)
      | (Some apps, latencies) \<Rightarrow>
          (case list_guids validURL Do decodeServices ''LastCAPIV2ListServiceInstancesLatency''
                  (capi_externalAddr c @ ''/v3/service_instances'') token of
             (None, latencies') \<Rightarrow> ([], latencies @ latencies')
           | (Some services, latencies') \<Rightarrow> (apps @ services, latencies @ latencies')))"

section \<open>Lemmas\<close>

text \<open>What a positive answer of the two servers rests on.\<close>

lemma UAAClient_Read_admin:
  assumes "fst (UAAClient_Read validURL Do decode c token) = Inr client" and "IsAdmin client"
  shows "\<exists>resp uaaR. Do (uaa_request c token) = Inr resp \<and> hr_StatusCode resp = 200 \<and>
    decode (hr_Body resp) = Inr uaaR \<and> (''doppler.firehose'' \<in> set (ur_Scopes uaaR) \<or> ''logs.admin'' \<in> set (ur_Scopes uaaR))"
  using assms
  by (auto simp: UAAClient_Read_def parseResponse_def hasDopplerScope_def list_ex_iff split: if_splits sum.splits)

lemma CAPIClient_IsAuthorized_iff:
  "fst (CAPIClient_IsAuthorized validURL Do c sourceID token) \<longleftrightarrow>
     validURL (log_access_uri c sourceID) \<and>
     (\<exists>resp. Do (capi_get (log_access_uri c sourceID) token) = Inr resp \<and>
        (hr_StatusCode resp = 200 \<or>
         validURL (service_instance_uri c sourceID) \<and>
         (\<exists>resp. Do (capi_get (service_instance_uri c sourceID) token) = Inr resp \<and> hr_StatusCode resp = 200)))"
  by (auto simp: CAPIClient_IsAuthorized_def Let_def split: sum.splits)

end
