(* ===== verification/GatewayWeb.thy ===== *)
theory GatewayWeb
  imports GatewayAuth RlpEgress
begin

text \<open>
  The web front of the gateway: errors (\<open>rlp-gateway/internal/web/json_error.go\<close>), selectors from a query
  (\<open>selector_builder.go\<close>), the server-sent events of \<open>/v2/read\<close> (\<open>read.go\<close>), authorization
  (\<open>cf_auth_middleware.go\<close>), the handler that puts them together (\<open>handler.go\<close>) and the client of the logs
  provider (\<open>ingress/log_client.go\<close>).

  Parameters: the logs provider (\<open>Stream\<close> returns an error or opens a stream), the JSON form of a batch
  (\<open>Marshal\<close>), the readers of tokens and of log access, and the router of \<open>gorilla/mux\<close>, of which one route is
  used. The effects of a handler are the requests that it passes to the logs provider.
\<close>

section \<open>Errors\<close>

record jsonError =
  je_Code :: int
  je_Message :: string
  je_Name :: string

definition newJSONError :: "int \<Rightarrow> string \<Rightarrow> string \<Rightarrow> jsonError" where
  "newJSONError code name msg = \<lparr>je_Code = code, je_Message = msg, je_Name = name\<rparr>"

definition errMethodNotAllowed :: jsonError where
  "errMethodNotAllowed = newJSONError 405 ''method_not_allowed'' ''method not allowed''"

definition errEmptyQuery :: jsonError where
  "errEmptyQuery = newJSONError 400 ''empty_query'' ''query cannot be empty''"

definition errMissingType :: jsonError where
  "errMissingType = newJSONError 400 ''missing_envelope_type'' ''query must provide at least one envelope type''"

definition errCounterNamePresentButEmpty :: jsonError where
  "errCounterNamePresentButEmpty = newJSONError 400 ''missing_counter_name'' ''counter.name is invalid without value''"

definition errGaugeNamePresentButEmpty :: jsonError where
  "errGaugeNamePresentButEmpty = newJSONError 400 ''missing_gauge_name'' ''gauge.name is invalid without value''"

definition errStreamingUnsupported :: jsonError where
  "errStreamingUnsupported = newJSONError 500 ''streaming_unsupported'' ''request does not support streaming''"

definition errStreamingUnavailable :: jsonError where
  "errStreamingUnavailable = newJSONError 503 ''streaming_unavailable'' ''streaming is temporarily unavailable''"

definition errNotFound :: jsonError where
  "errNotFound = newJSONError 404 ''not_found'' ''resource not found''"

text \<open>A JSON string as \<open>encoding/json\<close> writes it (on ASCII).\<close>

definition hex_lower :: "nat \<Rightarrow> char" where
  "hex_lower n = (if n < 10 then char_of (48 + n) else char_of (87 + n))"

definition json_char :: "char \<Rightarrow> string" where
  "json_char c =
     (if c = CHR 0x22 \<or> c = CHR 0x5C then [CHR 0x5C, c]
      else if c = CHR 0x08 then [CHR 0x5C, CHR ''b'']
      else if c = CHR 0x0C then [CHR 0x5C, CHR ''f'']
      else if c = CHR 0x0A then [CHR 0x5C, CHR ''n'']
      else if c = CHR 0x0D then [CHR 0x5C, CHR ''r'']
      else if c = CHR 0x09 then [CHR 0x5C, CHR ''t'']
      else if (of_char c :: nat) < 32 \<or> c \<in> set ''<>&''
      then [CHR 0x5C] @ ''u00'' @ [hex_lower (of_char c div 16), hex_lower (of_char c mod 16)]
      else [c])"

definition json_string :: "string \<Rightarrow> string" where
  "json_string s = [CHR 0x22] @ concat (map json_char s) @ [CHR 0x22]"

definition jsonError_Error :: "jsonError \<Rightarrow> string" where
  "jsonError_Error e =
     ''{'' @ json_string ''message'' @ '':'' @ json_string (je_Message e) @ '','' @
     json_string ''error'' @ '':'' @ json_string (je_Name e) @ ''}'' @ newline"

definition jsonError_Write :: "jsonError \<Rightarrow> response_writer \<Rightarrow> response_writer" where
  "jsonError_Write e w = http_Error (jsonError_Error e) (je_Code e) w"

section \<open>Selectors\<close>

definition envelopeTypes :: "string list" where
  "envelopeTypes = [''log'', ''counter'', ''gauge'', ''timer'', ''event'']"

type_synonym url_Values = "(string, string list) gomap"

definition hasKey :: "url_Values \<Rightarrow> string \<Rightarrow> bool" where
  "hasKey v envType = (map_of v envType \<noteq> None)"

definition containsEnvelopeType :: "url_Values \<Rightarrow> bool" where
  "containsEnvelopeType v =
     (if map_of v ''counter.name'' \<noteq> None then True
      else if map_of v ''gauge.name'' \<noteq> None then True
      else list_ex (\<lambda>t. map_of v t \<noteq> None) envelopeTypes)"

definition presentButEmpty :: "url_Values \<Rightarrow> string \<Rightarrow> bool" where
  "presentButEmpty v key = (case map_of v key of Some n \<Rightarrow> length n = 0 | None \<Rightarrow> False)"

definition addLogSelector :: "Selector list \<Rightarrow> string \<Rightarrow> Selector list" where
  "addLogSelector selectors sourceID = selectors @ [\<lparr>Selector_SourceId = sourceID, Selector_Message = Some Selector_Log\<rparr>]"

text \<open>The names are nil (\<open>None\<close>) when the query does not have the key.\<close>

definition addCounterSelector :: "Selector list \<Rightarrow> string \<Rightarrow> string list option \<Rightarrow> Selector list" where
  "addCounterSelector selectors sourceID names =
     (case names of
        None \<Rightarrow> selectors @ [\<lparr>Selector_SourceId = sourceID,
          Selector_Message = Some (Selector_Counter (Some \<lparr>CounterSelector_Name = []\<rparr>))\<rparr>]
      | Some names \<Rightarrow>
          foldl (\<lambda>selectors n. selectors @ [\<lparr>Selector_SourceId = sourceID,
            Selector_Message = Some (Selector_Counter (Some \<lparr>CounterSelector_Name = n\<rparr>))\<rparr>]) selectors names)"

definition addGaugeSelector :: "Selector list \<Rightarrow> string \<Rightarrow> string list option \<Rightarrow> Selector list" where
  "addGaugeSelector selectors sourceID names =
     (if length (case names of None \<Rightarrow> [] | Some ns \<Rightarrow> ns) = 0
      then selectors @ [\<lparr>Selector_SourceId = sourceID,
        Selector_Message = Some (Selector_Gauge (Some \<lparr>GaugeSelector_Names = []\<rparr>))\<rparr>]
      else
        foldl (\<lambda>selectors name. selectors @ [\<lparr>Selector_SourceId = sourceID,
          Selector_Message = Some (Selector_Gauge (Some \<lparr>GaugeSelector_Names = split_on (CHR '','') name\<rparr>))\<rparr>])
          selectors (case names of None \<Rightarrow> [] | Some ns \<Rightarrow> ns))"

definition addTimerSelector :: "Selector list \<Rightarrow> string \<Rightarrow> Selector list" where
  "addTimerSelector selectors sourceID = selectors @ [\<lparr>Selector_SourceId = sourceID, Selector_Message = Some Selector_Timer\<rparr>]"

definition addEventSelector :: "Selector list \<Rightarrow> string \<Rightarrow> Selector list" where
  "addEventSelector selectors sourceID = selectors @ [\<lparr>Selector_SourceId = sourceID, Selector_Message = Some Selector_Event\<rparr>]"

text \<open>The body of the loop over the source IDs, and the whole function.\<close>

definition add_selectors :: "url_Values \<Rightarrow> Selector list \<Rightarrow> string \<Rightarrow> Selector list" where
  "add_selectors v selectors sid =
     (let selectors = (if hasKey v ''log'' then addLogSelector selectors sid else selectors);
          selectors = (if hasKey v ''counter'' \<or> hasKey v ''counter.name''
            then addCounterSelector selectors sid (map_of v ''counter.name'') else selectors);
          selectors = (if hasKey v ''gauge'' \<or> hasKey v ''gauge.name''
            then addGaugeSelector selectors sid (map_of v ''gauge.name'') else selectors);
          selectors = (if hasKey v ''timer'' then addTimerSelector selectors sid else selectors)
      in (if hasKey v ''event'' then addEventSelector selectors sid else selectors))"

definition source_ids :: "url_Values \<Rightarrow> string list" where
  "source_ids v = (case map_of v ''source_id'' of None \<Rightarrow> [] | Some sourceIDs \<Rightarrow> sourceIDs)"

definition BuildSelector :: "url_Values \<Rightarrow> jsonError + Selector list" where
  "BuildSelector v =
     (if length v = 0 then Inl errEmptyQuery
      else if \<not> containsEnvelopeType v then Inl errMissingType
      else if presentButEmpty v ''counter.name'' then Inl errCounterNamePresentButEmpty
      else if presentButEmpty v ''gauge.name'' then Inl errGaugeNamePresentButEmpty
      else
        let sourceIDs = source_ids v;
            sourceIDs = (if length sourceIDs = 0 then [[]] else sourceIDs)
        in Inr (foldl (add_selectors v) [] sourceIDs))"

section \<open>Reading\<close>

text \<open>The goroutine that receives batches: nil batches are skipped; it ends on an error.\<close>

fun read_receive :: "(string + Envelope list option) list \<Rightarrow> Envelope list list \<times> string option" where
  "read_receive [] = ([], None)"
| "read_receive (Inl err # rs) = ([], Some err)"
| "read_receive (Inr None # rs) = read_receive rs"
| "read_receive (Inr (Some batch) # rs) = (let (bs, err) = read_receive rs in (batch # bs, err))"

text \<open>The cases of the \<open>select\<close>; the heartbeat has the Unix time.\<close>

datatype read_event = ReadDone | ReadErr string | ReadBatch "Envelope list" | ReadTimeout | ReadHeartbeat int

fun read_loop :: "(Envelope list \<Rightarrow> string + string) \<Rightarrow> read_event list \<Rightarrow> response_writer \<Rightarrow> response_writer" where
  "read_loop Marshal [] w = w"
| "read_loop Marshal (ReadDone # evs) w = w"
| "read_loop Marshal (ReadErr err # evs) w = w"
| "read_loop Marshal (ReadBatch batch # evs) w =
     (case Marshal batch of
        Inl err \<Rightarrow> w
      | Inr d \<Rightarrow> read_loop Marshal evs (rw_Flush (rw_Write (''data: '' @ d @ newline @ newline) w)))"
| "read_loop Marshal (ReadTimeout # evs) w =
     rw_Flush (rw_Write (''event: closing'' @ newline @ ''data: closing due to stream timeout'' @ newline @ newline) w)"
| "read_loop Marshal (ReadHeartbeat t # evs) w =
     read_loop Marshal evs
       (rw_Flush (rw_Write (''event: heartbeat'' @ newline @ ''data: '' @ itoa t @ newline @ newline) w))"

definition ReadHandler ::
    "(EgressBatchRequest \<Rightarrow> bool) \<Rightarrow> bool \<Rightarrow> (Envelope list \<Rightarrow> string + string) \<Rightarrow> read_event list \<Rightarrow> EgressBatchRequest handler" where
  "ReadHandler Stream flusher Marshal evs r w =
     (if rq_Method r \<noteq> ''GET'' then (jsonError_Write errMethodNotAllowed w, [])
      else case BuildSelector (rq_Query r) of
        Inl err \<Rightarrow> (http_Error (jsonError_Error err) 400 w, [])
      | Inr s \<Rightarrow>
          if \<not> flusher then (jsonError_Write errStreamingUnsupported w, [])
          else
            let req = \<lparr>ebr_ShardId = values_get (rq_Query r) ''shard_id'',
                       ebr_DeterministicName = values_get (rq_Query r) ''deterministic_name'',
                       ebr_LegacySelector = None, ebr_Selectors = s, ebr_UsePreferredTags = True\<rparr>
            in if \<not> Stream req then (jsonError_Write errStreamingUnavailable w, [req])
               else
                 (read_loop Marshal evs
                    (rw_Flush (Header_Set ''Connection'' ''keep-alive'' (Header_Set ''Cache-Control'' ''no-cache''
                      (Header_Set ''Content-Type'' ''text/event-stream'' w)))),
                  [req]))"

section \<open>Authorization\<close>

definition Middleware ::
    "(string \<Rightarrow> string + Oauth2Client) \<Rightarrow> (string \<Rightarrow> string \<Rightarrow> bool) \<Rightarrow> 'e handler \<Rightarrow> 'e handler" where
  "Middleware Read IsAuthorized h r w =
     (let authToken = values_get (rq_Header r) ''Authorization''
      in if authToken = [] then (jsonError_Write errNotFound w, [])
         else case Read authToken of
           Inl err \<Rightarrow> (jsonError_Write errNotFound w, [])
         | Inr c \<Rightarrow>
             let sourceIDs = source_ids (rq_Query r)
             in if \<not> IsAdmin c \<and> length sourceIDs = 0 then (jsonError_Write errNotFound w, [])
                else if list_ex (\<lambda>sourceID. \<not> IsAdmin c \<and> (\<not> IsAuthorized sourceID authToken \<or> \<not> is_guid sourceID)) sourceIDs
                then (jsonError_Write errNotFound w, [])
                else h r w)"

text \<open>
  The gateway: the middleware on its route, around the handler's own mux, which has the same path; any other
  path is not found.
\<close>

definition not_found :: "response_writer \<Rightarrow> response_writer" where
  "not_found w = http_Error ''404 page not found'' 404 w"

definition Handler_ServeHTTP :: "'e handler \<Rightarrow> 'e handler" where
  "Handler_ServeHTTP read r w = (if rq_Path r = ''/v2/read'' then read r w else (not_found w, []))"

definition gateway_ServeHTTP ::
    "(string \<Rightarrow> string + Oauth2Client) \<Rightarrow> (string \<Rightarrow> string \<Rightarrow> bool) \<Rightarrow> 'e handler \<Rightarrow> 'e handler" where
  "gateway_ServeHTTP Read IsAuthorized read r w =
     (if rq_Path r = ''/v2/read'' then Middleware Read IsAuthorized (Handler_ServeHTTP read) r w else (not_found w, []))"

text \<open>\<open>LogClient.Stream\<close>: whether \<open>BatchedReceiver\<close> of the generated client opens a stream.\<close>

definition LogClient_Stream :: "(EgressBatchRequest \<Rightarrow> string + 'rx) \<Rightarrow> EgressBatchRequest \<Rightarrow> string + 'rx" where
  "LogClient_Stream BatchedReceiver req = (case BatchedReceiver req of Inl err \<Rightarrow> Inl err | Inr receiver \<Rightarrow> Inr receiver)"

section \<open>The contract of the authorizers\<close>

text \<open>
  What the middleware relies on: a token is read as an administrator's only if it is one (\<open>admin\<close>), and access
  to a source is confirmed only if it was granted (\<open>granted\<close>).
\<close>

locale log_authorizer =
  fixes Read :: "string \<Rightarrow> string + Oauth2Client" and IsAuthorized :: "string \<Rightarrow> string \<Rightarrow> bool"
    and admin :: "string \<Rightarrow> bool" and granted :: "string \<Rightarrow> string \<Rightarrow> bool"
  assumes Read_admin: "Read token = Inr c \<Longrightarrow> IsAdmin c \<Longrightarrow> admin token"
    and IsAuthorized_granted: "IsAuthorized sourceID token \<Longrightarrow> granted sourceID token"
begin

lemma Middleware_forwards:
  assumes "Middleware Read IsAuthorized h r w = (w', es)" and "es \<noteq> []"
  shows "values_get (rq_Header r) ''Authorization'' \<noteq> [] \<and> h r w = (w', es) \<and>
    (admin (values_get (rq_Header r) ''Authorization'') \<or>
     source_ids (rq_Query r) \<noteq> [] \<and>
     (\<forall>sid \<in> set (source_ids (rq_Query r)). is_guid sid \<and> granted sid (values_get (rq_Header r) ''Authorization'')))"
  using assms
  by (auto simp: Middleware_def Let_def list_ex_iff intro: Read_admin IsAuthorized_granted split: if_splits sum.splits)

end

definition uaa_admin ::
    "(client_request \<Rightarrow> string + http_response) \<Rightarrow> (string \<Rightarrow> string + uaaResponse) \<Rightarrow> UAAClient \<Rightarrow> string \<Rightarrow> bool" where
  "uaa_admin Do decode c token \<longleftrightarrow>
     (\<exists>resp uaaR. Do (uaa_request c token) = Inr resp \<and> hr_StatusCode resp = 200 \<and> decode (hr_Body resp) = Inr uaaR \<and>
        (''doppler.firehose'' \<in> set (ur_Scopes uaaR) \<or> ''logs.admin'' \<in> set (ur_Scopes uaaR)))"

definition capi_granted :: "(client_request \<Rightarrow> string + http_response) \<Rightarrow> CAPIClient \<Rightarrow> string \<Rightarrow> string \<Rightarrow> bool" where
  "capi_granted Do c sourceID token \<longleftrightarrow>
     (\<exists>uri \<in> {log_access_uri c sourceID, service_instance_uri c sourceID}.
        \<exists>resp. Do (capi_get uri token) = Inr resp \<and> hr_StatusCode resp = 200)"

interpretation gw: log_authorizer "\<lambda>token. fst (UAAClient_Read validURL uaaDo decode uaa token)"
    "\<lambda>sourceID token. fst (CAPIClient_IsAuthorized validURL capiDo capi sourceID token)"
    "uaa_admin uaaDo decode uaa" "capi_granted capiDo capi" for validURL uaaDo decode uaa capiDo capi
  by unfold_locales
    (auto simp: uaa_admin_def capi_granted_def CAPIClient_IsAuthorized_iff dest: UAAClient_Read_admin)

section \<open>Selectors of a query\<close>

text \<open>The messages that a query asks for, in the order in which they are added.\<close>

definition wanted :: "url_Values \<Rightarrow> Selector_Message list" where
  "wanted v =
     (if hasKey v ''log'' then [Selector_Log] else []) @
     (case map_of v ''counter.name'' of
        Some names \<Rightarrow> map (\<lambda>n. Selector_Counter (Some \<lparr>CounterSelector_Name = n\<rparr>)) names
      | None \<Rightarrow> if hasKey v ''counter'' then [Selector_Counter (Some \<lparr>CounterSelector_Name = []\<rparr>)] else []) @
     (case map_of v ''gauge.name'' of
        Some names \<Rightarrow> map (\<lambda>n. Selector_Gauge (Some \<lparr>GaugeSelector_Names = split_on (CHR '','') n\<rparr>)) names
      | None \<Rightarrow> if hasKey v ''gauge'' then [Selector_Gauge (Some \<lparr>GaugeSelector_Names = []\<rparr>)] else []) @
     (if hasKey v ''timer'' then [Selector_Timer] else []) @
     (if hasKey v ''event'' then [Selector_Event] else [])"

lemma foldl_snoc: "foldl (\<lambda>acc x. acc @ [f x]) acc xs = acc @ map f xs"
  by (induction xs arbitrary: acc) simp_all

abbreviation selector_for :: "string \<Rightarrow> Selector_Message \<Rightarrow> Selector" where
  "selector_for sid m \<equiv> \<lparr>Selector_SourceId = sid, Selector_Message = Some m\<rparr>"

lemma addCounterSelector_eq:
  "addCounterSelector ss sid names = ss @ map (selector_for sid)
    (case names of None \<Rightarrow> [Selector_Counter (Some \<lparr>CounterSelector_Name = []\<rparr>)]
     | Some ns \<Rightarrow> map (\<lambda>n. Selector_Counter (Some \<lparr>CounterSelector_Name = n\<rparr>)) ns)"
  by (cases names) (simp_all add: addCounterSelector_def foldl_snoc)

lemma addGaugeSelector_eq:
  "names \<noteq> Some [] \<Longrightarrow> addGaugeSelector ss sid names = ss @ map (selector_for sid)
    (case names of None \<Rightarrow> [Selector_Gauge (Some \<lparr>GaugeSelector_Names = []\<rparr>)]
     | Some ns \<Rightarrow> map (\<lambda>n. Selector_Gauge (Some \<lparr>GaugeSelector_Names = split_on (CHR '','') n\<rparr>)) ns)"
  by (cases names) (simp_all add: addGaugeSelector_def foldl_snoc)

lemma add_selectors_eq:
  assumes "\<not> presentButEmpty v ''gauge.name''"
  shows "add_selectors v selectors sid = selectors @ map (selector_for sid) (wanted v)"
proof -
  have "map_of v ''gauge.name'' \<noteq> Some []" using assms by (auto simp: presentButEmpty_def)
  then show ?thesis
    by (cases "map_of v ''counter.name''"; cases "map_of v ''gauge.name''")
      (simp_all add: add_selectors_def wanted_def hasKey_def addCounterSelector_eq addGaugeSelector_eq
        addLogSelector_def addTimerSelector_def addEventSelector_def Let_def)
qed

lemma foldl_add_selectors:
  "\<not> presentButEmpty v ''gauge.name'' \<Longrightarrow> foldl (add_selectors v) acc sids =
    acc @ concat (map (\<lambda>sid. map (\<lambda>m. \<lparr>Selector_SourceId = sid, Selector_Message = Some m\<rparr>) (wanted v)) sids)"
  by (induction sids arbitrary: acc) (simp_all add: add_selectors_eq)

lemma wanted_nonempty:
  "containsEnvelopeType v \<Longrightarrow> \<not> presentButEmpty v ''counter.name'' \<Longrightarrow> \<not> presentButEmpty v ''gauge.name'' \<Longrightarrow> wanted v \<noteq> []"
  by (auto simp: containsEnvelopeType_def presentButEmpty_def wanted_def hasKey_def envelopeTypes_def split: option.splits if_splits)

lemma BuildSelector_eq:
  "BuildSelector v =
     (if v = [] then Inl errEmptyQuery
      else if \<not> containsEnvelopeType v then Inl errMissingType
      else if presentButEmpty v ''counter.name'' then Inl errCounterNamePresentButEmpty
      else if presentButEmpty v ''gauge.name'' then Inl errGaugeNamePresentButEmpty
      else Inr (concat (map (\<lambda>sid. map (\<lambda>m. \<lparr>Selector_SourceId = sid, Selector_Message = Some m\<rparr>) (wanted v))
             (if source_ids v = [] then [[]] else source_ids v))))"
  by (simp add: BuildSelector_def foldl_add_selectors Let_def)

text \<open>What the gateway passes on.\<close>

lemma gateway_authorized:
  assumes "gateway_ServeHTTP (\<lambda>token. fst (UAAClient_Read validURL uaaDo decode uaa token))
      (\<lambda>sourceID token. fst (CAPIClient_IsAuthorized validURL capiDo capi sourceID token))
      (ReadHandler Stream flusher Marshal evs) r w = (w', reqs)"
    and "req \<in> set reqs" and "sel \<in> set (ebr_Selectors req)"
  shows "let token = values_get (rq_Header r) ''Authorization''; sid = Selector_SourceId sel in
    token \<noteq> [] \<and> (uaa_admin uaaDo decode uaa token \<or> is_guid sid \<and> capi_granted capiDo capi sid token)"
proof -
  let ?token = "values_get (rq_Header r) ''Authorization''"
  have mw: "Middleware (\<lambda>token. fst (UAAClient_Read validURL uaaDo decode uaa token))
      (\<lambda>sourceID token. fst (CAPIClient_IsAuthorized validURL capiDo capi sourceID token))
      (Handler_ServeHTTP (ReadHandler Stream flusher Marshal evs)) r w = (w', reqs)"
    using assms(1,2) by (auto simp: gateway_ServeHTTP_def split: if_splits)
  have "reqs \<noteq> []" using assms(2) by auto
  note m = gw.Middleware_forwards [OF mw this]
  then have "ReadHandler Stream flusher Marshal evs r w = (w', reqs)"
    using assms(2) by (auto simp: Handler_ServeHTTP_def split: if_splits)
  then have "BuildSelector (rq_Query r) = Inr (ebr_Selectors req)"
    using assms(2) by (auto simp: ReadHandler_def Let_def split: if_splits sum.splits)
  then have "Selector_SourceId sel \<in> set (source_ids (rq_Query r)) \<or> source_ids (rq_Query r) = []"
    using assms(3) by (auto simp: BuildSelector_eq dest!: sym [of _ "ebr_Selectors req"] split: if_splits)
  with m show ?thesis by (auto simp: Let_def)
qed

section \<open>Properties\<close>

text \<open>
  C31. The selectors of a query are, for each source ID (or for all sources when the query has none), exactly
  the messages that it asks for, in order; every other query is answered with status 400; and what is
  built is never refused by the egress server of the reverse log proxy.
\<close>

theorem BuildSelector_exact:
  "(case BuildSelector v of
      Inl err \<Rightarrow> je_Code err = 400 \<and> (wanted v = [] \<or> presentButEmpty v ''counter.name'' \<or> presentButEmpty v ''gauge.name'')
    | Inr selectors \<Rightarrow>
        selectors = concat (map (\<lambda>sid. map (\<lambda>m. \<lparr>Selector_SourceId = sid, Selector_Message = Some m\<rparr>) (wanted v))
          (if source_ids v = [] then [[]] else source_ids v)) \<and>
        check_selectors (convergeSelectors None selectors) = None)"
proof -
  have none: "wanted v = []" if "v = [] \<or> \<not> containsEnvelopeType v"
    using that by (auto simp: wanted_def hasKey_def containsEnvelopeType_def envelopeTypes_def split: if_splits)
  let ?sids = "if source_ids v = [] then [[]] else source_ids v"
  let ?ss = "concat (map (\<lambda>sid. map (\<lambda>m. \<lparr>Selector_SourceId = sid, Selector_Message = Some m\<rparr>) (wanted v)) ?sids)"
  have "check_selectors (convergeSelectors None ?ss) = None" if "wanted v \<noteq> []"
    using that by (auto simp: check_selectors_def convergeSelectors_def list_ex_iff)
  then show ?thesis
    using none wanted_nonempty [of v]
    by (auto simp: BuildSelector_eq errEmptyQuery_def errMissingType_def errCounterNamePresentButEmpty_def
        errGaugeNamePresentButEmpty_def newJSONError_def)
qed

text \<open>
  Nothing leaves the gateway without authorization: whenever it passes a request to the logs provider, the
  authorization server has confirmed the token of the request as an administrator's, or every selector of
  the request names a source that is a GUID and to which the Cloud Controller has confirmed the access of
  that token. A request without a token never reaches the provider.
\<close>

theorem gateway_only_authorized:
  assumes "gateway_ServeHTTP (\<lambda>token. fst (UAAClient_Read validURL uaaDo decode uaa token))
      (\<lambda>sourceID token. fst (CAPIClient_IsAuthorized validURL capiDo capi sourceID token))
      (ReadHandler Stream flusher Marshal evs) r w = (w', reqs)"
    and "req \<in> set reqs" and "sel \<in> set (ebr_Selectors req)"
  shows "let token = values_get (rq_Header r) ''Authorization''; sid = Selector_SourceId sel in
    token \<noteq> [] \<and> (uaa_admin uaaDo decode uaa token \<or> is_guid sid \<and> capi_granted capiDo capi sid token)"
  by (rule gateway_authorized [OF assms])

theorem gateway_only_authorized_witness:
  "uaa_admin (\<lambda>_. Inr \<lparr>hr_StatusCode = 200, hr_Body = []\<rparr>)
     (\<lambda>_. Inr \<lparr>ur_Scopes = [''logs.admin''], ur_UserID = [], ur_ClientID = []\<rparr>)
     \<lparr>uaa_url = ''https://uaa'', uaa_client = [], uaa_clientSecret = []\<rparr> ''bearer t''"
proof -
  let ?r = "\<lparr>rq_Method = ''GET'', rq_Path = ''/v2/read'', rq_RawQuery = ''log'', rq_Query = [(''log'', [[]])],
      rq_Header = [(''Authorization'', [''bearer t''])], rq_RemoteAddr = [], rq_Cookies = []\<rparr>"
  let ?uaaDo = "\<lambda>_. Inr \<lparr>hr_StatusCode = 200, hr_Body = []\<rparr>"
  let ?decode = "\<lambda>_. Inr \<lparr>ur_Scopes = [''logs.admin''], ur_UserID = [], ur_ClientID = []\<rparr>"
  let ?uaa = "\<lparr>uaa_url = ''https://uaa'', uaa_client = [], uaa_clientSecret = []\<rparr>"
  let ?capi = "\<lparr>capi_addr = [], capi_externalAddr = []\<rparr>"
  let ?sel = "\<lparr>Selector_SourceId = [], Selector_Message = Some Selector_Log\<rparr>"
  let ?req = "\<lparr>ebr_ShardId = [], ebr_DeterministicName = [], ebr_LegacySelector = None, ebr_Selectors = [?sel], ebr_UsePreferredTags = True\<rparr>"
  obtain w' where run: "gateway_ServeHTTP (\<lambda>token. fst (UAAClient_Read (\<lambda>_. True) ?uaaDo ?decode ?uaa token))
      (\<lambda>sourceID token. fst (CAPIClient_IsAuthorized (\<lambda>_. True) (\<lambda>_. Inl ''refused'') ?capi sourceID token))
      (ReadHandler (\<lambda>_. True) True (\<lambda>_. Inr []) []) ?r response_new = (w', [?req])"
  proof -
    have "snd (gateway_ServeHTTP (\<lambda>token. fst (UAAClient_Read (\<lambda>_. True) ?uaaDo ?decode ?uaa token))
      (\<lambda>sourceID token. fst (CAPIClient_IsAuthorized (\<lambda>_. True) (\<lambda>_. Inl ''refused'') ?capi sourceID token))
      (ReadHandler (\<lambda>_. True) True (\<lambda>_. Inr []) []) ?r response_new) = [?req]" by code_simp
    then show ?thesis using that by (metis prod.collapse)
  qed
  have "values_get (rq_Header ?r) ''Authorization'' = ''bearer t''" "\<not> is_guid []" by code_simp+
  with gateway_only_authorized [OF run, of ?req ?sel] show ?thesis by (simp add: Let_def)
qed

end
