(* ===== verification/TcAuth.thy ===== *)
theory TcAuth
  imports Http
begin

text \<open>
  Authorization and the access log of the traffic controller (\<open>trafficcontroller/internal/auth\<close>).

  Parameters: the HTTP client (\<open>Do\<close>), the parser of URLs (\<open>validURL\<close>), whether reading a body to its end fails (\<open>ReadAll\<close>),
  the JSON decoders, the text of a status code, the clock and the writer of the access log.
\<close>

section \<open>UAA\<close>

record uaaClient =
  uc_address :: string
  uc_id :: string
  uc_secret :: string

definition NewUaaClient :: "string \<Rightarrow> string \<Rightarrow> string \<Rightarrow> uaaClient" where
  "NewUaaClient address ident secret = \<lparr>uc_address = address, uc_id = ident, uc_secret = secret\<rparr>"

record AuthData =
  ad_Scope :: "string list"

definition HasPermission :: "AuthData \<Rightarrow> string \<Rightarrow> bool" where
  "HasPermission data perm = list_ex (\<lambda>permissionName. permissionName = perm) (ad_Scope data)"

definition auth_request :: "uaaClient \<Rightarrow> string \<Rightarrow> client_request" where
  "auth_request c token =
     \<lparr>cr_Method = ''POST'', cr_URL = uc_address c @ ''/check_token'',
      cr_Header = [(''Content-Type'', ''application/x-www-form-urlencoded'')],
      cr_BasicAuth = Some (uc_id c, uc_secret c), cr_Body = ''token='' @ query_escape token\<rparr>"

text \<open>\<open>ReadAll\<close> yields the error of reading the body, or none and the whole body is read; \<open>decodeError\<close> yields the
  description of an error response.\<close>

definition GetAuthData ::
    "(string \<Rightarrow> bool) \<Rightarrow> (client_request \<Rightarrow> string + http_response) \<Rightarrow> (http_response \<Rightarrow> string option) \<Rightarrow>
     (string \<Rightarrow> string + string) \<Rightarrow> (string \<Rightarrow> string + AuthData) \<Rightarrow> uaaClient \<Rightarrow> string \<Rightarrow> string + AuthData" where
  "GetAuthData validURL Do ReadAll decodeError decodeAuth c token =
     (let req = auth_request c token
      in if \<not> validURL (cr_URL req) then Inl ''invalid URL''
         else case Do req of
           Inl err \<Rightarrow> Inl err
         | Inr response \<Rightarrow>
             if hr_StatusCode response = 401 then Inl ''invalid username/password''
             else if hr_StatusCode response = 404 then Inl ''API endpoint not found''
             else case ReadAll response of
               Some err \<Rightarrow> Inl err
             | None \<Rightarrow>
                 let responseBody = hr_Body response
                 in if hr_StatusCode response = 400 then
                   (case decodeError responseBody of Inl err \<Rightarrow> Inl err | Inr description \<Rightarrow> Inl description)
                 else if hr_StatusCode response \<noteq> 200 then Inl ''unknown error occurred''
                 else case decodeAuth responseBody of Inl err \<Rightarrow> Inl err | Inr aData \<Rightarrow> Inr aData)"

section \<open>Authorizers\<close>

definition ErrNoAuthTokenProvided :: string where
  "ErrNoAuthTokenProvided = ''authorization not provided''"

definition ErrInvalidAuthToken :: string where
  "ErrInvalidAuthToken = ''invalid authorization''"

definition loggregatorAdminRole :: string where
  "loggregatorAdminRole = ''doppler.firehose''"

definition bearerPrefix :: string where
  "bearerPrefix = ''bearer ''"

definition disableAdminAccessControlAuthorizer :: "string \<Rightarrow> bool \<times> string option" where
  "disableAdminAccessControlAuthorizer t = (True, None)"

definition NewAdminAccessAuthorizer :: "bool \<Rightarrow> (string \<Rightarrow> string + AuthData) \<Rightarrow> string \<Rightarrow> bool \<times> string option" where
  "NewAdminAccessAuthorizer disableAccessControl getAuthData =
     (if disableAccessControl then disableAdminAccessControlAuthorizer
      else (\<lambda>authToken.
        if authToken = [] then (False, Some ErrNoAuthTokenProvided)
        else case getAuthData (trim_prefix authToken bearerPrefix) of
          Inl err \<Rightarrow> (False, Some ErrInvalidAuthToken)
        | Inr authData \<Rightarrow>
            if HasPermission authData loggregatorAdminRole then (True, None)
            else (False, Some ErrInvalidAuthToken)))"

definition disableLogAccessControlAuthorizer :: "string \<Rightarrow> string \<Rightarrow> int \<times> string option" where
  "disableLogAccessControlAuthorizer t a = (200, None)"

definition log_access_request :: "string \<Rightarrow> string \<Rightarrow> string \<Rightarrow> client_request" where
  "log_access_request apiHost authToken target =
     \<lparr>cr_Method = ''GET'', cr_URL = apiHost @ ''/internal/v4/log_access/'' @ target,
      cr_Header = [(''Authorization'', authToken)], cr_BasicAuth = None, cr_Body = []\<rparr>"

definition NewLogAccessAuthorizer ::
    "(string \<Rightarrow> bool) \<Rightarrow> (client_request \<Rightarrow> string + http_response) \<Rightarrow> (int \<Rightarrow> string) \<Rightarrow> bool \<Rightarrow> string \<Rightarrow>
     string \<Rightarrow> string \<Rightarrow> int \<times> string option" where
  "NewLogAccessAuthorizer validURL Do StatusText disableAccessControl apiHost =
     (if disableAccessControl then disableLogAccessControlAuthorizer
      else (\<lambda>authToken target.
        if authToken = [] then (401, Some ErrNoAuthTokenProvided)
        else
          let req = log_access_request apiHost authToken target
          in if \<not> validURL (cr_URL req) then (500, Some ''invalid URL'')
             else case Do req of
               Inl err \<Rightarrow> (500, Some err)
             | Inr res \<Rightarrow>
                 (hr_StatusCode res, if hr_StatusCode res \<noteq> 200 then Some (StatusText (hr_StatusCode res)) else None)))"

section \<open>The access log\<close>

text \<open>\<open>strings.Index\<close> of one byte, and of the last one.\<close>

fun index_byte :: "string \<Rightarrow> char \<Rightarrow> nat option" where
  "index_byte [] c = None"
| "index_byte (x # xs) c = (if x = c then Some 0 else map_option Suc (index_byte xs c))"

definition last_index_byte :: "string \<Rightarrow> char \<Rightarrow> nat option" where
  "last_index_byte s c = map_option (\<lambda>i. length s - 1 - i) (index_byte (rev s) c)"

text \<open>\<open>net.SplitHostPort\<close>; \<open>None\<close> is an error.\<close>

definition SplitHostPort :: "string \<Rightarrow> (string \<times> string) option" where
  "SplitHostPort hostport =
     (case last_index_byte hostport (CHR '':'') of
        None \<Rightarrow> None
      | Some i \<Rightarrow>
          let bracketed =
                (if hd hostport = CHR ''['' then
                   (case index_byte hostport (CHR '']'') of
                      None \<Rightarrow> None
                    | Some end \<Rightarrow> if end + 1 = i then Some (take (end - 1) (drop 1 hostport), 1, end + 1) else None)
                 else
                   let host = take i hostport
                   in if index_byte host (CHR '':'') \<noteq> None then None else Some (host, 0, 0))
          in case bracketed of
               None \<Rightarrow> None
             | Some (host, j, k) \<Rightarrow>
                 if index_byte (drop j hostport) (CHR ''['') \<noteq> None then None
                 else if index_byte (drop k hostport) (CHR '']'') \<noteq> None then None
                 else Some (host, drop (i + 1) hostport))"

record AccessLog =
  al_request :: http_request
  al_timestamp :: int
  al_host :: string
  al_port :: uint32

definition NewAccessLog :: "http_request \<Rightarrow> int \<Rightarrow> string \<Rightarrow> uint32 \<Rightarrow> AccessLog" where
  "NewAccessLog req ts host port = \<lparr>al_request = req, al_timestamp = ts, al_host = host, al_port = port\<rparr>"

definition extractRemoteInfo :: "AccessLog \<Rightarrow> string \<times> string" where
  "extractRemoteInfo al =
     (let remoteAddr = values_get (rq_Header (al_request al)) ''X-Forwarded-For'';
          remoteAddr = (case index_byte remoteAddr (CHR '','') of Some index \<Rightarrow> take index remoteAddr | None \<Rightarrow> remoteAddr);
          remoteAddr = (if remoteAddr = [] then rq_RemoteAddr (al_request al) else remoteAddr);
          remoteAddr = (if index_byte remoteAddr (CHR '':'') = None then remoteAddr @ '':'' else remoteAddr)
      in case SplitHostPort remoteAddr of None \<Rightarrow> ([], []) | Some (host, port) \<Rightarrow> (host, port))"

text \<open>\<open>UnixNano\<close> in milliseconds.\<close>

definition toMillis :: "int \<Rightarrow> int" where
  "toMillis ns = sgn ns * (\<bar>ns\<bar> div 1000000)"

text \<open>The template is one of \<open>html/template\<close>: every value is escaped for HTML text.\<close>

definition html_char :: "char \<Rightarrow> string" where
  "html_char c =
     (if c = CHR 0x00 then [CHR 0xEF, CHR 0xBF, CHR 0xBD]
      else if c = CHR 0x22 then ''&#34;''
      else if c = CHR ''&'' then ''&amp;''
      else if c = CHR 0x27 then ''&#39;''
      else if c = CHR ''+'' then ''&#43;''
      else if c = CHR ''<'' then ''&lt;''
      else if c = CHR ''>'' then ''&gt;''
      else [c])"

definition html_escape :: "string \<Rightarrow> string" where
  "html_escape s = concat (map html_char s)"

definition access_extensions :: "string \<Rightarrow> string \<Rightarrow> string \<Rightarrow> string \<Rightarrow> string \<Rightarrow> string \<Rightarrow> string \<Rightarrow> string \<Rightarrow> string list" where
  "access_extensions timestamp requestID path meth srcHost srcPort dstHost dstPort =
     [''rt='' @ timestamp,
      ''cs1Label=userAuthenticationMechanism'',
      ''cs1=oauth-access-token'',
      ''cs2Label=vcapRequestId'',
      ''cs2='' @ requestID,
      ''request='' @ path,
      ''requestMethod='' @ meth,
      ''src='' @ srcHost,
      ''spt='' @ srcPort,
      ''dst='' @ dstHost,
      ''dpt='' @ dstPort]"

definition AccessLog_String :: "AccessLog \<Rightarrow> string" where
  "AccessLog_String al =
     (let req = al_request al;
          vcapRequestId = values_get (rq_Header req) ''X-Vcap-Request-Id'';
          path = (if rq_RawQuery req \<noteq> [] then rq_Path req @ ''?'' @ rq_RawQuery req else rq_Path req);
          (remoteHost, remotePort) = extractRemoteInfo al;
          path = html_escape path;
          meth = html_escape (rq_Method req)
      in ''CEF:'' @ join_with ''|''
           [''0'', ''cloud_foundry'', ''loggregator_trafficcontroller'', ''1.0'',
            meth @ '' '' @ path, meth @ '' '' @ path, ''0'',
            join_with '' '' (access_extensions (itoa (toMillis (al_timestamp al))) (html_escape vcapRequestId) path meth
              (html_escape remoteHost) (html_escape remotePort) (html_escape (al_host al))
              (digits_of_nat (unat (al_port al))))])"

text \<open>
  \<open>LogAccess\<close> writes a line to its \<open>io.Writer\<close>, a parameter: what a call of \<open>Write\<close> leaves of the log, which need not have
  the line, or all of it, when it fails, and its error. The handler prints the error to the program's own log and goes on.
\<close>

definition access_line :: "int \<Rightarrow> http_request \<Rightarrow> string \<Rightarrow> uint32 \<Rightarrow> string" where
  "access_line now req host port = AccessLog_String (NewAccessLog req now host port) @ newline"

definition LogAccess :: "(string \<Rightarrow> string \<Rightarrow> string \<times> string option) \<Rightarrow> int \<Rightarrow> http_request \<Rightarrow> string \<Rightarrow> uint32 \<Rightarrow>
    string \<Rightarrow> string \<times> string option" where
  "LogAccess Write now req host port log = Write log (access_line now req host port)"

definition AccessHandler_ServeHTTP ::
    "(string \<Rightarrow> string \<Rightarrow> string \<times> string option) \<Rightarrow> int \<Rightarrow> string \<Rightarrow> uint32 \<Rightarrow> (http_request \<Rightarrow> response_writer \<Rightarrow> 'a) \<Rightarrow>
     http_request \<Rightarrow> response_writer \<Rightarrow> string \<Rightarrow> 'a \<times> string" where
  "AccessHandler_ServeHTTP Write now host port h req rw log =
     (let (log, err) = LogAccess Write now req host port log in (h req rw, log))"

section \<open>Lemmas\<close>

lemma GetAuthData_ok:
  assumes "GetAuthData validURL Do ReadAll decodeError decodeAuth c token = Inr data"
  shows "\<exists>response. Do (auth_request c token) = Inr response \<and> hr_StatusCode response = 200 \<and> decodeAuth (hr_Body response) = Inr data"
  using assms by (auto simp: GetAuthData_def Let_def split: if_splits sum.splits option.splits)

lemma NewLogAccessAuthorizer_ok:
  "fst (NewLogAccessAuthorizer validURL Do StatusText False apiHost token target) = 200 \<Longrightarrow>
   token \<noteq> [] \<and> (\<exists>res. Do (log_access_request apiHost token target) = Inr res \<and> hr_StatusCode res = 200)"
  by (auto simp: NewLogAccessAuthorizer_def Let_def split: if_splits sum.splits)

text \<open>A refusal of the authorizer for administrators always comes with an error.\<close>

lemma NewAdminAccessAuthorizer_error:
  "fst (NewAdminAccessAuthorizer d g token) \<or> (\<exists>e. snd (NewAdminAccessAuthorizer d g token) = Some e)"
  by (auto simp: NewAdminAccessAuthorizer_def disableAdminAccessControlAuthorizer_def split: sum.splits)

text \<open>
  A line break in the decoded path of a request is written to the access log as it is, so one request can
  write a line of its choice; and an IPv6 address without a port in \<open>X-Forwarded-For\<close> is logged as empty.
\<close>

lemma access_log_forged_line:
  "split_on (CHR 0x0A) (access_line 0 \<lparr>rq_Method = ''GET'', rq_Path = ''/a'' @ newline @ ''CEF:forged'', rq_RawQuery = [],
      rq_Query = [], rq_Header = [], rq_RemoteAddr = ''1.2.3.4:5'', rq_Cookies = []\<rparr> ''h'' 80) ! 1 = ''CEF:forged|GET /a''"
  by code_simp

lemma access_log_ipv6_empty:
  "extractRemoteInfo (NewAccessLog \<lparr>rq_Method = ''GET'', rq_Path = ''/'', rq_RawQuery = [], rq_Query = [],
      rq_Header = [(''X-Forwarded-For'', [''2001:db8::1''])], rq_RemoteAddr = ''1.2.3.4:5'', rq_Cookies = []\<rparr> 0 ''h'' 80) = ([], [])"
  by code_simp

end
