(* ===== verification/TcProxy.thy ===== *)
theory TcProxy
  imports TcAuth RouterV1
begin

text \<open>
  The proxy of the traffic controller (\<open>trafficcontroller/internal/proxy\<close>): its middlewares, its two handlers of
  streams, and the web socket that a stream is written to.

  Parameters: the connector (\<open>Subscribe\<close>, an error or a receiver), the router of \<open>gorilla/mux\<close> (\<open>route\<close>, which
  yields the handler and its path variable), \<open>ParseForm\<close>, the text form of a cookie, and the web socket
  library, whose answers are events. The effects of a handler are the subscriptions that it asks for.
\<close>

section \<open>Tokens\<close>

fun extractAuthTokenFromCookie :: "(string \<times> string) list \<Rightarrow> string" where
  "extractAuthTokenFromCookie [] = []"
| "extractAuthTokenFromCookie ((name, cookie) # cookies) =
     (if name = ''authorization'' then (case query_unescape cookie of None \<Rightarrow> [] | Some v \<Rightarrow> v)
      else extractAuthTokenFromCookie cookies)"

definition getAuthToken :: "http_request \<Rightarrow> string" where
  "getAuthToken req =
     (let authToken = values_get (rq_Header req) ''Authorization''
      in if authToken = [] then extractAuthTokenFromCookie (rq_Cookies req) else authToken)"

section \<open>Middlewares\<close>

text \<open>\<open>err.Error()\<close> panics when a refusal has no error.\<close>

definition AdminAccessMiddleware_Wrap :: "(string \<Rightarrow> bool \<times> string option) \<Rightarrow> 'e handler \<Rightarrow>
    http_request \<Rightarrow> response_writer \<Rightarrow> (response_writer \<times> 'e list) go" where
  "AdminAccessMiddleware_Wrap authorize h r w =
     (case authorize (getAuthToken r) of
        (True, _) \<Rightarrow> Inr (h r w)
      | (False, None) \<Rightarrow> Inl NilDereference
      | (False, Some err) \<Rightarrow>
          Inr (rw_Write (''You are not authorized. '' @ err) (WriteHeader 401 (Header_Set ''WWW-Authenticate'' ''Basic'' w)), []))"

definition LogAccessMiddleware_Wrap ::
    "(string \<Rightarrow> string \<Rightarrow> int \<times> string option) \<Rightarrow> bool \<Rightarrow> string \<Rightarrow> 'e handler \<Rightarrow> 'e handler" where
  "LogAccessMiddleware_Wrap authorize disableAccessControl appID h r w =
     (if disableAccessControl then h r w
      else if \<not> is_guid appID then (WriteHeader 401 w, [])
      else
        let (status, _) = authorize (getAuthToken r) appID
        in if status \<noteq> 200 then
             (if status = 401 then WriteHeader 401 (Header_Set ''WWW-Authenticate'' ''Basic'' w)
              else if status = 403 \<or> status = 404 then WriteHeader 404 w
              else WriteHeader 500 w, [])
           else h r w)"

definition AllowCredentials :: "response_writer \<Rightarrow> response_writer" where
  "AllowCredentials w = Header_Add ''Access-Control-Allow-Credentials'' ''true'' w"

definition AllowHeader :: "string \<Rightarrow> response_writer \<Rightarrow> response_writer" where
  "AllowHeader header w = Header_Add ''Access-Control-Allow-Headers'' header w"

definition CORSMiddleware_Wrap :: "'e handler \<Rightarrow> (response_writer \<Rightarrow> response_writer) list \<Rightarrow> 'e handler" where
  "CORSMiddleware_Wrap h opts r w =
     (let w = Header_Add ''Access-Control-Allow-Origin'' (values_get (rq_Header r) ''Origin'') w
      in h r (foldl (\<lambda>w opt. opt w) w opts))"

record cookie =
  ck_Name :: string
  ck_Value :: string
  ck_Domain :: string
  ck_Secure :: bool
  ck_HttpOnly :: bool
  ck_SameSiteLax :: bool

text \<open>\<open>ParseForm\<close> yields an error or the form; \<open>http.SetCookie\<close> adds a header unless the text form is empty.\<close>

definition SetCookieHandler_ServeHTTP ::
    "(http_request \<Rightarrow> string + (string, string list) gomap) \<Rightarrow> (cookie \<Rightarrow> string) \<Rightarrow> string \<Rightarrow> 'e handler" where
  "SetCookieHandler_ServeHTTP ParseForm cookieString domain r w =
     (case ParseForm r of
        Inl err \<Rightarrow> (WriteHeader 400 w, [])
      | Inr form \<Rightarrow>
          if values_get form ''CookieName'' = [] \<or> values_get form ''CookieValue'' = [] then (WriteHeader 400 w, [])
          else
            let v = cookieString \<lparr>ck_Name = values_get form ''CookieName'', ck_Value = values_get form ''CookieValue'',
                      ck_Domain = domain, ck_Secure = True, ck_HttpOnly = True, ck_SameSiteLax = True\<rparr>
            in (if v = [] then w else Header_Add ''Set-Cookie'' v w, []))"

section \<open>Streams\<close>

text \<open>\<open>serve\<close> is \<open>ServeWS\<close> on the receiver: what it leaves of the response writer.\<close>

definition StreamHandler_ServeHTTP ::
    "(SubscriptionRequest \<Rightarrow> string + 'rx) \<Rightarrow> ('rx \<Rightarrow> response_writer \<Rightarrow> response_writer) \<Rightarrow> string \<Rightarrow> SubscriptionRequest handler" where
  "StreamHandler_ServeHTTP Subscribe serve appID r w =
     (let req = \<lparr>sr_ShardID = [], sr_Filter = Some \<lparr>Filter_AppID = appID, Filter_Message = None\<rparr>\<rparr>
      in case Subscribe req of
           Inl err \<Rightarrow> (WriteHeader 503 w, [req])
         | Inr client \<Rightarrow> (serve client w, [req]))"

definition firehose_filter :: "string \<Rightarrow> Filter option" where
  "firehose_filter filterType =
     (if filterType = ''logs'' then Some \<lparr>Filter_AppID = [], Filter_Message = Some (Filter_Log (Some ()))\<rparr>
      else if filterType = ''metrics'' then Some \<lparr>Filter_AppID = [], Filter_Message = Some (Filter_Metric (Some ()))\<rparr>
      else None)"

definition FirehoseHandler_ServeHTTP ::
    "(SubscriptionRequest \<Rightarrow> string + 'rx) \<Rightarrow> ('rx \<Rightarrow> response_writer \<Rightarrow> response_writer) \<Rightarrow> string \<Rightarrow> SubscriptionRequest handler" where
  "FirehoseHandler_ServeHTTP Subscribe serve subID r w =
     (let req = \<lparr>sr_ShardID = subID, sr_Filter = firehose_filter (values_get (rq_Query r) ''filter-type'')\<rparr>
      in case Subscribe req of
           Inl err \<Rightarrow> (WriteHeader 503 w, [req])
         | Inr client \<Rightarrow> (serve client w, [req]))"

text \<open>The counter of open streams of a handler, and the gauges that are set from it.\<close>

definition handler_begin :: "int \<Rightarrow> int" where
  "handler_begin counter = counter + 1"

definition handler_end :: "int \<Rightarrow> int" where
  "handler_end counter = counter - 1"

definition emitMetrics ::
    "(float64 \<Rightarrow> uint64) \<Rightarrow> (int \<Rightarrow> float64) \<Rightarrow> int \<Rightarrow> int \<Rightarrow> metric_Gauge \<times> metric_Gauge \<Rightarrow> metric_Gauge \<times> metric_Gauge" where
  "emitMetrics toUint64 float64_of firehoseCount streamCount gs =
     (Gauge_Set toUint64 (float64_of firehoseCount) (fst gs), Gauge_Set toUint64 (float64_of streamCount) (snd gs))"

text \<open>The routes.\<close>

datatype proxy_route = RouteSetCookie | RouteStream string | RouteFirehose string

definition DopplerProxy_ServeHTTP ::
    "(string \<Rightarrow> string \<Rightarrow> int \<times> string option) \<Rightarrow> (string \<Rightarrow> bool \<times> string option) \<Rightarrow> (SubscriptionRequest \<Rightarrow> string + 'rx) \<Rightarrow>
     ('rx \<Rightarrow> response_writer \<Rightarrow> response_writer) \<Rightarrow> (http_request \<Rightarrow> string + (string, string list) gomap) \<Rightarrow> (cookie \<Rightarrow> string) \<Rightarrow>
     string \<Rightarrow> bool \<Rightarrow> (http_request \<Rightarrow> proxy_route option) \<Rightarrow>
     http_request \<Rightarrow> response_writer \<Rightarrow> (response_writer \<times> SubscriptionRequest list) go" where
  "DopplerProxy_ServeHTTP logAuthorizer adminAuthorizer Subscribe serve ParseForm cookieString cookieDomain disableAccessControl route r w =
     (case route r of
        None \<Rightarrow> Inr (http_Error ''404 page not found'' 404 w, [])
      | Some RouteSetCookie \<Rightarrow>
          Inr (CORSMiddleware_Wrap (SetCookieHandler_ServeHTTP ParseForm cookieString cookieDomain)
                 [AllowCredentials, AllowHeader ''Content-Type''] r w)
      | Some (RouteStream appID) \<Rightarrow>
          Inr (LogAccessMiddleware_Wrap logAuthorizer disableAccessControl appID (StreamHandler_ServeHTTP Subscribe serve appID) r w)
      | Some (RouteFirehose subID) \<Rightarrow>
          AdminAccessMiddleware_Wrap adminAuthorizer (FirehoseHandler_ServeHTTP Subscribe serve subID) r w)"

section \<open>Keep-alive\<close>

text \<open>A round of \<open>KeepAlive.Run\<close>: whether the ping could be written, and whether a pong came before the timeout.\<close>

fun KeepAlive_Run :: "(bool \<times> bool) list \<Rightarrow> bool" where
  "KeepAlive_Run [] = False"
| "KeepAlive_Run ((pinged, ponged) # rounds) = (if \<not> pinged then True else if ponged then KeepAlive_Run rounds else True)"

definition pongHandler :: "unit option \<Rightarrow> unit option" where
  "pongHandler pongChan = (case pongChan of None \<Rightarrow> Some () | Some u \<Rightarrow> Some u)"

section \<open>Web sockets\<close>

text \<open>
  \<open>ServeWS\<close>: the goroutine that receives from the connector holds a message (\<open>ws_pending\<close>) until the handler
  takes it from the channel \<open>data\<close>, which has no buffer, or the timer for slow consumers fires; it closes
  \<open>data\<close> when it ends. The handler runs until it returns its close code and message.
\<close>

record ws_state =
  ws_pending :: "bytes option"
  ws_dataClosed :: bool
  ws_received :: "bytes list"
  ws_written :: "bytes list"
  ws_egress :: metric_Counter
  ws_slowConsumer :: metric_Counter
  ws_events :: "(string \<times> string) list"
  ws_close :: "(int \<times> string) option"

definition ws_start :: "metric_Counter \<Rightarrow> metric_Counter \<Rightarrow> ws_state" where
  "ws_start egressMetric slowConsumerMetric =
     \<lparr>ws_pending = None, ws_dataClosed = False, ws_received = [], ws_written = [], ws_egress = egressMetric,
      ws_slowConsumer = slowConsumerMetric, ws_events = [], ws_close = None\<rparr>"

definition slowConsumerEventTitle :: string where
  "slowConsumerEventTitle = ''Traffic Controller has disconnected slow consumer''"

definition slowConsumerEventBody :: "string \<Rightarrow> string list \<Rightarrow> string \<Rightarrow> string" where
  "slowConsumerEventBody remoteAddr forwardedFor url =
     ''Remote Address: '' @ remoteAddr @ newline @
     ''X-Forwarded-For: '' @ join_with '', '' forwardedFor @ newline @
     ''Path: '' @ url @ newline @ newline @
     ''When Loggregator detects a slow connection, that connection is disconnected to prevent back pressure on the system. This may be due to improperly scaled nozzles, or slow user connections to Loggregator''"

text \<open>The receiving goroutine: one result of \<open>recv\<close>, and the timer.\<close>

definition ws_recv :: "string + bytes option \<Rightarrow> ws_state \<Rightarrow> ws_state option" where
  "ws_recv rx s =
     (if ws_dataClosed s \<or> ws_pending s \<noteq> None then None
      else case rx of
        Inl err \<Rightarrow> Some (s\<lparr>ws_dataClosed := True\<rparr>)
      | Inr None \<Rightarrow> Some s
      | Inr (Some resp) \<Rightarrow> Some (s\<lparr>ws_pending := Some resp, ws_received := ws_received s @ [resp]\<rparr>))"

definition ws_slow :: "http_request \<Rightarrow> string \<Rightarrow> ws_state \<Rightarrow> ws_state option" where
  "ws_slow r url s =
     (if ws_pending s = None then None
      else Some (s\<lparr>ws_pending := None, ws_dataClosed := True,
             ws_slowConsumer := Counter_Increment 1 (ws_slowConsumer s),
             ws_events := ws_events s @ [(slowConsumerEventTitle, slowConsumerEventBody (rq_RemoteAddr r)
               (case map_of (rq_Header r) ''X-Forwarded-For'' of None \<Rightarrow> [] | Some vs \<Rightarrow> vs) url)]\<rparr>))"

text \<open>The cases of \<open>runWebsocketUntilClosed\<close>; for a message, whether it could be written.\<close>

datatype ws_case = ClientWentAway | KeepAliveExpired | FromMessages bool

definition ws_select :: "ws_case \<Rightarrow> ws_state \<Rightarrow> ws_state option" where
  "ws_select c s =
     (if ws_close s \<noteq> None then None
      else case c of
        ClientWentAway \<Rightarrow> Some (s\<lparr>ws_close := Some (1000, [])\<rparr>)
      | KeepAliveExpired \<Rightarrow>
          Some (s\<lparr>ws_close := Some (1008, ''Client did not respond to ping before keep-alive timeout expired.'')\<rparr>)
      | FromMessages ok \<Rightarrow>
          (case ws_pending s of
             None \<Rightarrow> if ws_dataClosed s then Some (s\<lparr>ws_close := Some (1000, [])\<rparr>) else None
           | Some message \<Rightarrow>
               let s = s\<lparr>ws_pending := None\<rparr>
               in if ok then Some (s\<lparr>ws_written := ws_written s @ [message], ws_egress := Counter_Increment 1 (ws_egress s)\<rparr>)
                  else Some (s\<lparr>ws_close := Some (1000, [])\<rparr>)))"

datatype ws_event = WsRecv "string + bytes option" | WsSlow | WsCase ws_case

definition ws_step :: "http_request \<Rightarrow> string \<Rightarrow> ws_event \<Rightarrow> ws_state \<Rightarrow> ws_state option" where
  "ws_step r url ev s =
     (case ev of WsRecv rx \<Rightarrow> ws_recv rx s | WsSlow \<Rightarrow> ws_slow r url s | WsCase c \<Rightarrow> ws_select c s)"

fun ws_run :: "http_request \<Rightarrow> string \<Rightarrow> ws_event list \<Rightarrow> ws_state \<Rightarrow> ws_state option" where
  "ws_run r url [] s = Some s"
| "ws_run r url (ev # evs) s = Option.bind (ws_step r url ev s) (ws_run r url evs)"

section \<open>The contract of the authorizers\<close>

text \<open>
  What the proxy relies on: log access is allowed with status 200 only if it was granted, an administrator is
  accepted only if the token is one's, and a refusal has an error.
\<close>

locale proxy_authorizers =
  fixes logAuthorizer :: "string \<Rightarrow> string \<Rightarrow> int \<times> string option" and adminAuthorizer :: "string \<Rightarrow> bool \<times> string option"
    and log_granted :: "string \<Rightarrow> string \<Rightarrow> bool" and firehose_admin :: "string \<Rightarrow> bool"
  assumes log_ok: "fst (logAuthorizer token appID) = 200 \<Longrightarrow> log_granted token appID"
    and admin_ok: "fst (adminAuthorizer token) \<Longrightarrow> firehose_admin token"
    and admin_error: "fst (adminAuthorizer token) \<or> (\<exists>e. snd (adminAuthorizer token) = Some e)"
begin

lemma log_middleware_forwards:
  assumes "LogAccessMiddleware_Wrap logAuthorizer False appID h r w = (w', es)" and "es \<noteq> []"
  shows "h r w = (w', es) \<and> is_guid appID \<and> log_granted (getAuthToken r) appID"
  using assms log_ok [of "getAuthToken r" appID]
  by (auto simp: LogAccessMiddleware_Wrap_def Let_def split: if_splits prod.splits)

lemma admin_middleware_forwards:
  "\<exists>w' es. AdminAccessMiddleware_Wrap adminAuthorizer h r w = Inr (w', es) \<and>
     (es \<noteq> [] \<longrightarrow> h r w = (w', es) \<and> firehose_admin (getAuthToken r))"
proof -
  obtain ok err where a: "adminAuthorizer (getAuthToken r) = (ok, err)" by fastforce
  obtain w' es where h: "h r w = (w', es)" by fastforce
  show ?thesis using admin_ok [of "getAuthToken r"] admin_error [of "getAuthToken r"] h
    by (cases ok; cases err) (auto simp: AdminAccessMiddleware_Wrap_def a)
qed

end

text \<open>
  What the servers have confirmed: the Cloud Controller has answered 200 for the token and the application; the authorization
  server has answered 200 for the token, and the scopes decoded from the body of that answer include the firehose.
\<close>

definition tc_granted :: "(client_request \<Rightarrow> string + http_response) \<Rightarrow> string \<Rightarrow> string \<Rightarrow> string \<Rightarrow> bool" where
  "tc_granted Do apiHost token appID \<longleftrightarrow> token \<noteq> [] \<and>
     (\<exists>res. Do (log_access_request apiHost token appID) = Inr res \<and> hr_StatusCode res = 200)"

definition tc_admin :: "(client_request \<Rightarrow> string + http_response) \<Rightarrow> (string \<Rightarrow> string + AuthData) \<Rightarrow> uaaClient \<Rightarrow> string \<Rightarrow> bool" where
  "tc_admin Do decodeAuth c token \<longleftrightarrow> token \<noteq> [] \<and>
     (\<exists>res data. Do (auth_request c (trim_prefix token ''bearer '')) = Inr res \<and> hr_StatusCode res = 200 \<and>
        decodeAuth (hr_Body res) = Inr data \<and> ''doppler.firehose'' \<in> set (ad_Scope data))"

interpretation tc: proxy_authorizers "NewLogAccessAuthorizer validURL apiDo StatusText False apiHost"
    "NewAdminAccessAuthorizer False (GetAuthData validURL uaaDo ReadAll decodeError decodeAuth uaa)"
    "tc_granted apiDo apiHost" "tc_admin uaaDo decodeAuth uaa"
    for validURL apiDo StatusText apiHost uaaDo ReadAll decodeError decodeAuth uaa
proof unfold_locales
  fix token appID
  assume "fst (NewLogAccessAuthorizer validURL apiDo StatusText False apiHost token appID) = 200"
  then show "tc_granted apiDo apiHost token appID" using NewLogAccessAuthorizer_ok by (fastforce simp: tc_granted_def)
next
  fix token
  assume "fst (NewAdminAccessAuthorizer False (GetAuthData validURL uaaDo ReadAll decodeError decodeAuth uaa) token)"
  then show "tc_admin uaaDo decodeAuth uaa token"
    by (auto simp: NewAdminAccessAuthorizer_def tc_admin_def bearerPrefix_def loggregatorAdminRole_def HasPermission_def list_ex_iff
        split: if_splits sum.splits dest!: GetAuthData_ok)
next
  fix token
  show "fst (NewAdminAccessAuthorizer False (GetAuthData validURL uaaDo ReadAll decodeError decodeAuth uaa) token) \<or>
      (\<exists>e. snd (NewAdminAccessAuthorizer False (GetAuthData validURL uaaDo ReadAll decodeError decodeAuth uaa) token) = Some e)"
    by (rule NewAdminAccessAuthorizer_error)
qed

text \<open>What the proxy subscribes to.\<close>

lemma proxy_authorized:
  "\<exists>w' reqs. DopplerProxy_ServeHTTP (NewLogAccessAuthorizer validURL apiDo StatusText False apiHost)
      (NewAdminAccessAuthorizer False (GetAuthData validURL uaaDo ReadAll decodeError decodeAuth uaa))
      Subscribe serve ParseForm cookieString cookieDomain False route r w = Inr (w', reqs) \<and>
    (\<forall>req \<in> set reqs. let token = getAuthToken r; appID = f_appID (convertFilter req) in
       tc_admin uaaDo decodeAuth uaa token \<or>
       is_guid appID \<and> tc_granted apiDo apiHost token appID \<and> sr_ShardID req = [] \<and> route r = Some (RouteStream appID))"
  (is "\<exists>w' reqs. ?serve = Inr (w', reqs) \<and> _")
proof (cases "route r")
  case None
  then show ?thesis by (simp add: DopplerProxy_ServeHTTP_def)
next
  case (Some rt)
  show ?thesis
  proof (cases rt)
    case RouteSetCookie
    then show ?thesis using Some
      by (simp add: DopplerProxy_ServeHTTP_def CORSMiddleware_Wrap_def SetCookieHandler_ServeHTTP_def Let_def split: sum.splits)
  next
    case (RouteStream appID)
    obtain w' reqs where m: "LogAccessMiddleware_Wrap (NewLogAccessAuthorizer validURL apiDo StatusText False apiHost) False appID
        (StreamHandler_ServeHTTP Subscribe serve appID) r w = (w', reqs)" by fastforce
    then have eq: "?serve = Inr (w', reqs)" using Some RouteStream by (simp add: DopplerProxy_ServeHTTP_def)
    have "is_guid (f_appID (convertFilter req)) \<and> tc_granted apiDo apiHost (getAuthToken r) (f_appID (convertFilter req)) \<and>
        sr_ShardID req = [] \<and> f_appID (convertFilter req) = appID" if "req \<in> set reqs" for req
    proof -
      have "reqs \<noteq> []" using that by auto
      from tc.log_middleware_forwards [OF m this] that show ?thesis
        by (auto simp: StreamHandler_ServeHTTP_def convertFilter_def Let_def split: sum.splits)
    qed
    then show ?thesis using eq Some RouteStream by (auto simp: Let_def)
  next
    case (RouteFirehose subID)
    then show ?thesis
      using Some tc.admin_middleware_forwards [of validURL uaaDo ReadAll decodeError decodeAuth uaa "FirehoseHandler_ServeHTTP Subscribe serve subID" r w]
      by (force simp: DopplerProxy_ServeHTTP_def Let_def)
  qed
qed

section \<open>Properties\<close>

text \<open>
  With access control on, the proxy never panics on a request, and every subscription that it asks for is
  authorized: either it is filtered to one application, whose ID is a GUID and for which the Cloud
  Controller has confirmed the access of the request's token, or the authorization server has confirmed
  the token to have the scope of the firehose. A subscription for an application is never sharded, and at
  the router it is registered for that application only.
\<close>

theorem proxy_only_authorized:
  "\<exists>w' reqs. DopplerProxy_ServeHTTP (NewLogAccessAuthorizer validURL apiDo StatusText False apiHost)
      (NewAdminAccessAuthorizer False (GetAuthData validURL uaaDo ReadAll decodeError decodeAuth uaa))
      Subscribe serve ParseForm cookieString cookieDomain False route r w = Inr (w', reqs) \<and>
    (\<forall>req \<in> set reqs. let token = getAuthToken r; appID = f_appID (convertFilter req) in
       tc_admin uaaDo decodeAuth uaa token \<or>
       is_guid appID \<and> tc_granted apiDo apiHost token appID \<and> sr_ShardID req = [] \<and> route r = Some (RouteStream appID))"
  by (rule proxy_authorized)

theorem proxy_only_authorized_witness:
  "tc_admin (\<lambda>_. Inr \<lparr>hr_StatusCode = 200, hr_Body = ''doppler.firehose''\<rparr>) (\<lambda>body. Inr \<lparr>ad_Scope = [body]\<rparr>)
     (NewUaaClient ''https://uaa'' ''id'' ''secret'') ''bearer t''"
proof -
  let ?r = "\<lparr>rq_Method = ''GET'', rq_Path = ''/firehose/s'', rq_RawQuery = [], rq_Query = [],
      rq_Header = [(''Authorization'', [''bearer t''])], rq_RemoteAddr = [], rq_Cookies = []\<rparr>"
  let ?uaa = "NewUaaClient ''https://uaa'' ''id'' ''secret''"
  let ?uaaDo = "\<lambda>_. Inr \<lparr>hr_StatusCode = 200, hr_Body = ''doppler.firehose''\<rparr>"
  let ?decode = "\<lambda>body. Inr \<lparr>ad_Scope = [body]\<rparr>"
  let ?serve = "DopplerProxy_ServeHTTP (NewLogAccessAuthorizer (\<lambda>_. True) (\<lambda>_. Inl ''refused'') (\<lambda>_. []) False [])
      (NewAdminAccessAuthorizer False (GetAuthData (\<lambda>_. True) ?uaaDo (\<lambda>_. None) (\<lambda>_. Inl []) ?decode ?uaa))
      (\<lambda>_. Inr ()) (\<lambda>_ w. w) (\<lambda>_. Inr []) (\<lambda>_. []) [] False (\<lambda>_. Some (RouteFirehose ''s'')) ?r response_new"
  let ?req = "\<lparr>sr_ShardID = ''s'', sr_Filter = None\<rparr>"
  have run: "map_sum id snd ?serve = Inr [?req]" by code_simp
  have tok: "getAuthToken ?r = ''bearer t''" by code_simp
  obtain w' reqs where s: "?serve = Inr (w', reqs)"
    and all: "\<forall>req \<in> set reqs. let token = getAuthToken ?r; appID = f_appID (convertFilter req) in
       tc_admin ?uaaDo ?decode ?uaa token \<or>
       is_guid appID \<and> tc_granted (\<lambda>_. Inl ''refused'') [] token appID \<and> sr_ShardID req = [] \<and>
       Some (RouteFirehose ''s'') = Some (RouteStream appID)"
    using proxy_only_authorized [of "\<lambda>_. True" "\<lambda>_. Inl ''refused''" "\<lambda>_. []" "[]" ?uaaDo "\<lambda>_. None"
        "\<lambda>_. Inl []" ?decode ?uaa "\<lambda>_. Inr ()" "\<lambda>_ w. w" "\<lambda>_. Inr []" "\<lambda>_. []" "[]" "\<lambda>_. Some (RouteFirehose ''s'')" ?r response_new]
    by blast
  have "?req \<in> set reqs" using run s by simp
  with all show ?thesis by (auto simp: Let_def tok)
qed

text \<open>The invariant of a web socket.\<close>

definition ws_inv :: "metric_Counter \<Rightarrow> metric_Counter \<Rightarrow> ws_state \<Rightarrow> bool" where
  "ws_inv e0 c0 s \<longleftrightarrow>
     mc_delta (ws_egress s) = mc_delta e0 + of_nat (length (ws_written s)) \<and>
     mc_delta (ws_slowConsumer s) = mc_delta c0 + of_nat (length (ws_events s)) \<and>
     prefix (ws_written s) (ws_received s) \<and> length (ws_events s) \<le> 1 \<and>
     (ws_events s \<noteq> [] \<longrightarrow> ws_dataClosed s \<and> ws_pending s = None) \<and> (ws_dataClosed s \<longrightarrow> ws_pending s = None) \<and>
     (ws_close s = None \<longrightarrow>
        (\<exists>rest. ws_received s = ws_written s @ rest \<and> length rest \<le> 1 \<and>
           (case ws_pending s of Some m \<Rightarrow> rest = [m] | None \<Rightarrow> ws_events s = [] \<longrightarrow> rest = [])))"

lemma ws_step_inv: "ws_step r url ev s = Some s' \<Longrightarrow> ws_inv e0 c0 s \<Longrightarrow> ws_inv e0 c0 s'"
  by (cases ev; cases "ws_close s"; cases "ws_pending s")
    (auto simp: ws_step_def ws_recv_def ws_slow_def ws_select_def ws_inv_def Counter_Increment_def Let_def prefix_def
      split: if_splits sum.splits option.splits ws_case.splits)

lemma ws_run_inv: "ws_run r url evs s = Some s' \<Longrightarrow> ws_inv e0 c0 s \<Longrightarrow> ws_inv e0 c0 s'"
  by (induction evs arbitrary: s) (auto simp: bind_eq_Some_conv intro: ws_step_inv)

text \<open>
  A web socket gets the messages of its stream in order and without gaps, whatever the interleaving of
  the two goroutines: what was written is a prefix of what was received, one message at most is under way
  while the socket is open, and with none under way and no slow consumer everything has been written. The
  egress counter counts the messages written; a slow consumer is counted and reported at most once per
  connection.
\<close>

theorem ws_forwards_in_order:
  assumes "ws_run r url evs (ws_start egressMetric slowConsumerMetric) = Some s"
  shows "prefix (ws_written s) (ws_received s) \<and>
    mc_delta (ws_egress s) = mc_delta egressMetric + of_nat (length (ws_written s)) \<and>
    mc_delta (ws_slowConsumer s) = mc_delta slowConsumerMetric + of_nat (length (ws_events s)) \<and> length (ws_events s) \<le> 1 \<and>
    (ws_close s = None \<longrightarrow> length (ws_received s) \<le> length (ws_written s) + 1 \<and>
       (ws_pending s = None \<and> ws_events s = [] \<longrightarrow> ws_written s = ws_received s))"
proof -
  have "ws_inv egressMetric slowConsumerMetric (ws_start egressMetric slowConsumerMetric)"
    by (simp add: ws_inv_def ws_start_def)
  from ws_run_inv [OF assms this] show ?thesis by (cases "ws_pending s") (auto simp: ws_inv_def)
qed

theorem ws_forwards_in_order_witness:
  "\<exists>s. ws_run \<lparr>rq_Method = ''GET'', rq_Path = ''/firehose/s'', rq_RawQuery = [], rq_Query = [], rq_Header = [], rq_RemoteAddr = [], rq_Cookies = []\<rparr>
       ''/firehose/s'' [WsRecv (Inr (Some [1])), WsCase (FromMessages True), WsRecv (Inr (Some [2])), WsSlow]
       (ws_start (NewCounter ''egress'' ''tc'' []) (NewCounter ''doppler_proxy.slow_consumer'' ''tc'' [])) = Some s \<and>
     prefix (ws_written s) (ws_received s) \<and> ws_written s = [[1]]"
proof -
  let ?run = "ws_run \<lparr>rq_Method = ''GET'', rq_Path = ''/firehose/s'', rq_RawQuery = [], rq_Query = [], rq_Header = [], rq_RemoteAddr = [], rq_Cookies = []\<rparr>
       ''/firehose/s'' [WsRecv (Inr (Some [1])), WsCase (FromMessages True), WsRecv (Inr (Some [2])), WsSlow]
       (ws_start (NewCounter ''egress'' ''tc'' []) (NewCounter ''doppler_proxy.slow_consumer'' ''tc'' []))"
  have "case ?run of Some s \<Rightarrow> ws_written s = [[1]] | None \<Rightarrow> False" by code_simp
  then obtain s where run: "?run = Some s" and w: "ws_written s = [[1]]" by (auto split: option.splits)
  from ws_forwards_in_order [OF run] run w show ?thesis by blast
qed

end
