(* ===== verification/Apps.thy ===== *)
theory Apps
  imports RouterApp Pools RlpEgress
begin

text \<open>
  Start-up of the reverse log proxy (\<open>rlp/app/config.go\<close>, \<open>rlp/app/rlp.go\<close>, \<open>rlp/main.go\<close>) and the configuration of
  the traffic controller (\<open>trafficcontroller/app/config.go\<close>).

  Parameters: the environment (\<open>load\<close>, as for the router), the package \<open>tlsconfig\<close> (\<open>build\<close>), \<open>grpc.NewClient\<close>
  (\<open>dial\<close>) and \<open>net.Listen\<close> (\<open>listen\<close>).
\<close>

section \<open>The reverse log proxy\<close>

record rlp_Config =
  pc_UseRFC339 :: bool
  pc_PProfPort :: uint32
  pc_MetricEmitterInterval :: int
  pc_MetricSourceID :: string
  pc_RouterAddrs :: "string list"
  pc_AgentAddr :: string
  pc_MaxEgressStreams :: int
  pc_Port :: int
  pc_CertFile :: string
  pc_KeyFile :: string
  pc_CAFile :: string
  pc_CipherSuites :: "string list"

definition rlp_LoadConfig :: "(rlp_Config \<Rightarrow> string + rlp_Config) \<Rightarrow> string + rlp_Config" where
  "rlp_LoadConfig load =
     (case load \<lparr>pc_UseRFC339 = False, pc_PProfPort = 6061, pc_MetricEmitterInterval = 60000000000,
          pc_MetricSourceID = ''reverse_log_proxy'', pc_RouterAddrs = [], pc_AgentAddr = ''localhost:3458'',
          pc_MaxEgressStreams = 500, pc_Port = 0, pc_CertFile = [], pc_KeyFile = [], pc_CAFile = [], pc_CipherSuites = []\<rparr> of
        Inl err \<Rightarrow> Inl err
      | Inr conf \<Rightarrow> Inr conf)"

text \<open>
  The proxy. Pointers that \<open>Start\<close> sets are options; the finder is the content of its channel, the listener its
  address with the limit of connections, the egress server its options with the server that is registered.
\<close>

record 'c RLP =
  ra_done :: bool
  ra_egressPort :: int
  ra_egressServerOpts :: "server_option list"
  ra_maxEgressConnections :: int
  ra_maxEgressStreams :: int
  ra_ingressAddrs :: "string list"
  ra_ingressDialOpts :: "dial_option list"
  ra_ingressPool :: "'c rlp_pool option"
  ra_connector :: "rlp_connector option"
  ra_finder :: "string list list option"
  ra_egressAddr :: "string option"
  ra_egressListener :: "(string \<times> int) option"
  ra_egressServer :: "(server_option list \<times> rlp_server) option"
  ra_metricClient :: metric_Client

type_synonym 'c RLPOption = "'c RLP \<Rightarrow> 'c RLP"

definition WithEgressPort :: "int \<Rightarrow> 'c RLPOption" where
  "WithEgressPort port r = r\<lparr>ra_egressPort := port\<rparr>"

definition WithEgressServerOptions :: "server_option list \<Rightarrow> 'c RLPOption" where
  "WithEgressServerOptions opts r = r\<lparr>ra_egressServerOpts := opts\<rparr>"

definition WithIngressAddrs :: "string list \<Rightarrow> 'c RLPOption" where
  "WithIngressAddrs addrs r = r\<lparr>ra_ingressAddrs := addrs\<rparr>"

definition WithIngressDialOptions :: "dial_option list \<Rightarrow> 'c RLPOption" where
  "WithIngressDialOptions opts r = r\<lparr>ra_ingressDialOpts := opts\<rparr>"

definition WithMaxEgressConnections :: "int \<Rightarrow> 'c RLPOption" where
  "WithMaxEgressConnections mx r = r\<lparr>ra_maxEgressConnections := mx\<rparr>"

definition WithMaxEgressStreams :: "int \<Rightarrow> 'c RLPOption" where
  "WithMaxEgressStreams mx r = r\<lparr>ra_maxEgressStreams := mx\<rparr>"

text \<open>\<open>listen\<close> is \<open>net.Listen\<close>: the address that was bound, or an error.\<close>

definition startEgressListener :: "(string \<Rightarrow> string + string) \<Rightarrow> 'c RLP \<Rightarrow> exit + 'c RLP" where
  "startEgressListener listen r =
     and_then (fatal (''failed to listen on port: '' @ itoa (ra_egressPort r) @ '': '') (listen ('':'' @ itoa (ra_egressPort r))))
       (\<lambda>addr. Inr (r\<lparr>ra_egressListener := Some (addr, ra_maxEgressConnections r), ra_egressAddr := Some addr\<rparr>))"

definition NewRLP :: "(string \<Rightarrow> string + string) \<Rightarrow> metric_Client \<Rightarrow> 'c RLPOption list \<Rightarrow> exit + 'c RLP" where
  "NewRLP listen m opts =
     startEgressListener listen (foldl (\<lambda>r opt. opt r)
       \<lparr>ra_done = False, ra_egressPort = 0, ra_egressServerOpts = [], ra_maxEgressConnections = 500, ra_maxEgressStreams = 500,
        ra_ingressAddrs = [''doppler.service.cf.internal''], ra_ingressDialOpts = [WithInsecureCredentials],
        ra_ingressPool = None, ra_connector = None, ra_finder = None, ra_egressAddr = None, ra_egressListener = None,
        ra_egressServer = None, ra_metricClient = m\<rparr> opts)"

definition EgressAddr :: "'c RLP \<Rightarrow> string option" where
  "EgressAddr r = ra_egressAddr r"

definition RLP_setupIngress :: "'c RLP \<Rightarrow> 'c RLP" where
  "RLP_setupIngress r =
     r\<lparr>ra_finder := Some (NewStaticFinder (ra_ingressAddrs r)), ra_ingressPool := Some (rlp_NewPool 20),
       ra_connector := Some (rlp_NewGRPCConnector (Client_NewCounter ''log_router_disconnects'' [] (ra_metricClient r))
         (Client_NewCounter ''log_router_connects'' [] (ra_metricClient r)))\<rparr>"

definition RLP_setupEgress :: "'c RLP \<Rightarrow> 'c RLP" where
  "RLP_setupEgress r =
     r\<lparr>ra_egressServer := Some (ra_egressServerOpts r,
         rlp_NewServer (ra_metricClient r) 100 100000000 [WithMaxStreams (ra_maxEgressStreams r)])\<rparr>"

definition isDone :: "'c RLP \<Rightarrow> bool" where
  "isDone r = ra_done r"

text \<open>\<open>serveEgress\<close>, when \<open>Serve\<close> has returned with an error or without one.\<close>

definition serveEgress :: "string option \<Rightarrow> 'c RLP \<Rightarrow> exit + 'c RLP" where
  "serveEgress served r =
     (case served of
        Some err \<Rightarrow> if \<not> isDone r then Inl (Fatal (''failed to serve: '' @ err)) else Inr r
      | None \<Rightarrow> Inr r)"

text \<open>\<open>Start\<close> up to the call of \<open>Serve\<close>.\<close>

definition RLP_Start :: "'c RLP \<Rightarrow> 'c RLP" where
  "RLP_Start r = RLP_setupEgress (RLP_setupIngress r)"

text \<open>
  \<open>None\<close>: the send of the finder blocks. The egress server is drained by a goroutine of its own, whose call on a
  nil pointer panics, as does that of the finder.
\<close>

definition RLP_Stop :: "'c RLP \<Rightarrow> 'c RLP go option" where
  "RLP_Stop r =
     (case (ra_egressServer r, ra_finder r, ra_ingressPool r) of
        (Some srv, Some finder, Some pool) \<Rightarrow>
          map_option (\<lambda>event. Inr (r\<lparr>ra_done := True, ra_finder := Some event,
              ra_ingressPool := Some (foldl (\<lambda>p addr. rlp_Pool_Close addr p) pool (ra_ingressAddrs r))\<rparr>))
            (StaticFinder_Stop finder)
      | _ \<Rightarrow> Some (Inl NilDereference))"

text \<open>\<open>main\<close>, up to the start of the proxy: \<open>dial\<close> is \<open>grpc.NewClient\<close>.\<close>

definition rlp_main ::
    "(rlp_Config \<Rightarrow> string + rlp_Config) \<Rightarrow> tlsconfig \<Rightarrow> (string \<Rightarrow> dial_option list \<Rightarrow> string option) \<Rightarrow>
     (string \<Rightarrow> string + string) \<Rightarrow> exit + 'c RLP" where
  "rlp_main load build dial listen =
     and_then (fatal ''Failed to load config: '' (rlp_LoadConfig load)) (\<lambda>conf.
     and_then (fatal ''Could not use TLS config: ''
       (NewClientCredentials build (pc_CertFile conf) (pc_KeyFile conf) (pc_CAFile conf) ''doppler'')) (\<lambda>dopplerCredentials.
     and_then (panics
       (NewServerCredentials build (pc_CertFile conf) (pc_KeyFile conf) (pc_CAFile conf) (cipher_options (pc_CipherSuites conf)))) (\<lambda>created.
     and_then (fatal ''Could not use TLS config: '' created) (\<lambda>rlpCredentials.
     and_then (fatal ''Could not use TLS config: ''
       (NewClientCredentials build (pc_CertFile conf) (pc_KeyFile conf) (pc_CAFile conf) ''metron'')) (\<lambda>metronCredentials.
     and_then (fatal (''Couldn'' @ [CHR 0x27] @ ''t connect to metric emitter: '')
       (NewClient dial (pc_AgentAddr conf)
         [WithGRPCDialOptions [WithTransportCredentials metronCredentials], WithOrigin ''loggregator.rlp'',
          WithPulseInterval (pc_MetricEmitterInterval conf), WithSourceID (pc_MetricSourceID conf)])) (\<lambda>metric.
     NewRLP listen metric
       [WithEgressPort (pc_Port conf), WithIngressAddrs (pc_RouterAddrs conf),
        WithIngressDialOptions [WithTransportCredentials dopplerCredentials, WithKeepaliveParams 15000000000 20000000000 True,
          WithMaxCallRecvMsgSize (10 * 1024 * 1024)],
        WithEgressServerOptions [Creds rlpCredentials, KeepaliveEnforcementPolicy 10000000000 True],
        WithMaxEgressStreams (pc_MaxEgressStreams conf)]))))))"

lemmas RLPOption_defs = WithEgressPort_def WithEgressServerOptions_def WithIngressAddrs_def WithIngressDialOptions_def
  WithMaxEgressConnections_def WithMaxEgressStreams_def

section \<open>The configuration of the traffic controller\<close>

record CCTLSClientConfig =
  cct_CertFile :: string
  cct_KeyFile :: string
  cct_CAFile :: string
  cct_ServerName :: string

record tc_Config =
  tf_UseRFC339 :: bool
  tf_IP :: string
  tf_ApiHost :: string
  tf_OutgoingDropsondePort :: uint32
  tf_OutgoingCertFile :: string
  tf_OutgoingKeyFile :: string
  tf_SystemDomain :: string
  tf_SkipCertVerify :: bool
  tf_UaaHost :: string
  tf_UaaClient :: string
  tf_UaaClientSecret :: string
  tf_UaaCACert :: string
  tf_SecurityEventLog :: string
  tf_PProfPort :: uint32
  tf_MetricEmitterInterval :: int
  tf_DisableAccessControl :: bool
  tf_RouterAddrs :: "string list"
  tf_CCTLSClientConfig :: CCTLSClientConfig
  tf_AgentGRPCAddress :: string
  tf_CAFile :: string
  tf_CertFile :: string
  tf_KeyFile :: string

definition tc_Config_zero :: tc_Config where
  "tc_Config_zero =
     \<lparr>tf_UseRFC339 = False, tf_IP = [], tf_ApiHost = [], tf_OutgoingDropsondePort = 0, tf_OutgoingCertFile = [],
      tf_OutgoingKeyFile = [], tf_SystemDomain = [], tf_SkipCertVerify = False, tf_UaaHost = [], tf_UaaClient = [],
      tf_UaaClientSecret = [], tf_UaaCACert = [], tf_SecurityEventLog = [], tf_PProfPort = 0,
      tf_MetricEmitterInterval = 0, tf_DisableAccessControl = False, tf_RouterAddrs = [],
      tf_CCTLSClientConfig = \<lparr>cct_CertFile = [], cct_KeyFile = [], cct_CAFile = [], cct_ServerName = []\<rparr>,
      tf_AgentGRPCAddress = [], tf_CAFile = [], tf_CertFile = [], tf_KeyFile = []\<rparr>"

definition tc_validate :: "tc_Config \<Rightarrow> string option" where
  "tc_validate c =
     (if tf_SystemDomain c = [] then Some ''need system domain in order to create the proxies''
      else if tf_IP c = [] then Some ''need IP address for access logging''
      else if length (tf_CAFile c) = 0 then Some ''invalid router config, no GRPC.CAFile provided''
      else if length (tf_CertFile c) = 0 then Some ''invalid router config, no GRPC.CertFile provided''
      else if length (tf_KeyFile c) = 0 then Some ''invalid router config, no GRPC.KeyFile provided''
      else if tf_UaaClientSecret c = [] then Some ''missing UAA client secret''
      else if tf_UaaHost c \<noteq> [] \<and> tf_UaaCACert c = [] then Some ''missing UAA CA certificate''
      else None)"

definition tc_LoadConfig :: "(tc_Config \<Rightarrow> string + tc_Config) \<Rightarrow> string + tc_Config" where
  "tc_LoadConfig load =
     (case load (tc_Config_zero\<lparr>tf_MetricEmitterInterval := 60000000000\<rparr>) of
        Inl err \<Rightarrow> Inl err
      | Inr config \<Rightarrow>
          (case tc_validate config of Some err \<Rightarrow> Inl err | None \<Rightarrow> Inr config))"

section \<open>Lemmas\<close>

text \<open>
  A proxy whose \<open>main\<close> gets as far as starting it talks to the routers and offers its own service over TLS only, admits
  the configured number of streams, and reads from the configured routers.
\<close>

lemma rlp_main_started:
  assumes "rlp_main load build dial listen = Inr r"
  shows "\<exists>conf cd cr addr srv. rlp_LoadConfig load = Inr conf \<and>
    build (TlsClient (Some (pc_CertFile conf, pc_KeyFile conf)) (pc_CAFile conf) (Some ''doppler'')) = Inr cd \<and>
    NewServerCredentials build (pc_CertFile conf) (pc_KeyFile conf) (pc_CAFile conf) (cipher_options (pc_CipherSuites conf)) = Inr (Inr cr) \<and>
    listen ('':'' @ itoa (pc_Port conf)) = Inr addr \<and> ra_egressListener (RLP_Start r) = Some (addr, 500) \<and>
    WithTransportCredentials cd \<in> set (ra_ingressDialOpts (RLP_Start r)) \<and> WithInsecureCredentials \<notin> set (ra_ingressDialOpts (RLP_Start r)) \<and>
    ra_finder (RLP_Start r) = Some [pc_RouterAddrs conf] \<and>
    ra_egressServer (RLP_Start r) = Some ([Creds cr, KeepaliveEnforcementPolicy 10000000000 True], srv) \<and>
    rs_maxStreams srv = pc_MaxEgressStreams conf"
proof -
  from assms obtain conf cd created cr cm metric where c: "rlp_LoadConfig load = Inr conf"
    "NewClientCredentials build (pc_CertFile conf) (pc_KeyFile conf) (pc_CAFile conf) ''doppler'' = Inr cd"
    "NewServerCredentials build (pc_CertFile conf) (pc_KeyFile conf) (pc_CAFile conf) (cipher_options (pc_CipherSuites conf)) = Inr created"
    "created = Inr cr"
    and r: "NewRLP listen metric
       [WithEgressPort (pc_Port conf), WithIngressAddrs (pc_RouterAddrs conf),
        WithIngressDialOptions [WithTransportCredentials cd, WithKeepaliveParams 15000000000 20000000000 True,
          WithMaxCallRecvMsgSize (10 * 1024 * 1024)],
        WithEgressServerOptions [Creds cr, KeepaliveEnforcementPolicy 10000000000 True],
        WithMaxEgressStreams (pc_MaxEgressStreams conf)] = Inr r"
    unfolding rlp_main_def and_then_Inr fatal_Inr panics_Inr by blast
  from r obtain addr where "listen ('':'' @ itoa (pc_Port conf)) = Inr addr"
    and "ra_egressListener r = Some (addr, 500)" "ra_ingressAddrs r = pc_RouterAddrs conf" "ra_maxEgressStreams r = pc_MaxEgressStreams conf"
      "ra_egressServerOpts r = [Creds cr, KeepaliveEnforcementPolicy 10000000000 True]"
      "ra_ingressDialOpts r = [WithTransportCredentials cd, WithKeepaliveParams 15000000000 20000000000 True, WithMaxCallRecvMsgSize (10 * 1024 * 1024)]"
    by (auto simp: NewRLP_def startEgressListener_def and_then_Inr RLPOption_defs)
  with c show ?thesis
    by (auto simp: NewClientCredentials_def RLP_Start_def RLP_setupEgress_def RLP_setupIngress_def NewStaticFinder_def
        rlp_NewServer_def WithMaxStreams_def split: sum.splits)
qed

lemma close_all_available:
  "rlp_available b (foldl (\<lambda>p addr. rlp_Pool_Close addr p) p as) \<longleftrightarrow> b \<notin> set as \<and> rlp_available b p"
proof (induction as arbitrary: p)
  case (Cons a as)
  have "rlp_available b (rlp_Pool_Close a p) \<longleftrightarrow> b \<noteq> a \<and> rlp_available b p"
    by (auto simp: rlp_available_def rlp_clients_def rlp_Pool_Close_def delete_conv')
  with Cons show ?case by auto
qed simp

text \<open>
  \<open>Stop\<close> cannot block on the finder of a started proxy, tells the connector to drop every router, and leaves
  no connection to the configured routers that could be subscribed to; an error of the listener that comes
  after it does not end the process. Before \<open>Start\<close> has set up the proxy, \<open>Stop\<close> panics.
\<close>

lemma RLP_Stop_closes:
  assumes "ra_egressServer r = Some srv" and "ra_ingressPool r = Some pool"
    and "ra_finder r = ra_finder (RLP_setupIngress r0) \<or> ra_finder r = Some []"
  shows "case RLP_Stop r of
      Some (Inr r') \<Rightarrow> serveEgress (Some err) r' = Inr r' \<and> (\<exists>events. ra_finder r' = Some (events @ [[]])) \<and>
        (\<exists>pool'. ra_ingressPool r' = Some pool' \<and> (\<forall>a \<in> set (ra_ingressAddrs r). \<not> rlp_available a pool'))
    | _ \<Rightarrow> False"
  using assms
  by (auto simp: RLP_Stop_def StaticFinder_Stop_def RLP_setupIngress_def NewStaticFinder_def close_all_available serveEgress_def isDone_def)

lemma RLP_Stop_unstarted: "rlp_main load build dial listen = Inr r \<Longrightarrow> RLP_Stop r = Some (Inl NilDereference)"
  by (auto simp: rlp_main_def and_then_Inr NewRLP_def startEgressListener_def RLPOption_defs RLP_Stop_def)

text \<open>A validated traffic controller has what its proxies and its access log need.\<close>

lemma tc_LoadConfig_valid:
  assumes "tc_LoadConfig load = Inr c"
  shows "tf_SystemDomain c \<noteq> [] \<and> tf_IP c \<noteq> [] \<and> tf_CAFile c \<noteq> [] \<and> tf_CertFile c \<noteq> [] \<and>
    tf_KeyFile c \<noteq> [] \<and> tf_UaaClientSecret c \<noteq> [] \<and> (tf_UaaHost c \<noteq> [] \<longrightarrow> tf_UaaCACert c \<noteq> [])"
  using assms by (auto simp: tc_LoadConfig_def tc_validate_def split: sum.splits if_splits)

end
