(* ===== verification/RouterProgram.thy ===== *)
theory RouterProgram
  imports Apps
begin

text \<open>
  The program of the router around the running system of \<open>RouterApp\<close>: the metric client (\<open>initV2Metrics\<close>), the TLS
  configuration and the gRPC server that \<open>Router.Start\<close> builds (\<open>router/app/router.go\<close>), the server itself
  (\<open>router/internal/server/server.go\<close>), \<open>main\<close> (\<open>router/main.go\<close>) and the profiler that keeps it alive
  (\<open>profiler/server.go\<close>).

  Parameters: \<open>tlsconfig\<close> (\<open>build\<close>), \<open>grpc.NewClient\<close> (\<open>dial\<close>), \<open>net.Listen\<close> (\<open>listen\<close>).
\<close>

section \<open>The gRPC server\<close>

record grpc_Server =
  gs_listener :: string
  gs_opts :: "server_option list"
  gs_stopped :: bool
  gs_grpcStopped :: bool

definition NewServer :: "(string \<Rightarrow> string + string) \<Rightarrow> uint16 \<Rightarrow> server_option list \<Rightarrow> string + grpc_Server" where
  "NewServer listen port srvOpts =
     (case listen ('':'' @ itoa (uint port)) of
        Inl err \<Rightarrow> Inl err
      | Inr lis \<Rightarrow> Inr \<lparr>gs_listener = lis, gs_opts = srvOpts, gs_stopped = False, gs_grpcStopped = False\<rparr>)"

text \<open>\<open>Start\<close>, once \<open>Serve\<close> has returned.\<close>

definition Server_Start :: "string option \<Rightarrow> grpc_Server \<Rightarrow> exit + grpc_Server" where
  "Server_Start served g =
     (case served of
        Some err \<Rightarrow>
          let stopped = gs_stopped g
          in if \<not> stopped then Inl (Fatal (''Failed to start gRPC server: '' @ err)) else Inr g
      | None \<Rightarrow> Inr g)"

text \<open>\<open>Stop\<close> in its two steps: other goroutines can run between them.\<close>

definition Server_Stop_mark :: "grpc_Server \<Rightarrow> grpc_Server" where
  "Server_Stop_mark g = g\<lparr>gs_stopped := True\<rparr>"

definition Server_Stop_grpc :: "grpc_Server \<Rightarrow> grpc_Server" where
  "Server_Stop_grpc g = g\<lparr>gs_grpcStopped := True\<rparr>"

definition Server_Stop :: "grpc_Server \<Rightarrow> grpc_Server" where
  "Server_Stop g = Server_Stop_grpc (Server_Stop_mark g)"

definition Server_Addr :: "grpc_Server \<Rightarrow> string" where
  "Server_Addr g = gs_listener g"

section \<open>The router\<close>

text \<open>\<open>time.Duration(ms) * time.Millisecond\<close>, on 64 bits.\<close>

definition batchInterval :: "uint64 \<Rightarrow> int" where
  "batchInterval ms = sint (ms * 1000000)"

definition initV2Metrics :: "tlsconfig \<Rightarrow> (string \<Rightarrow> dial_option list \<Rightarrow> string option) \<Rightarrow> router_Config \<Rightarrow> exit + metric_Client" where
  "initV2Metrics build dial c =
     and_then (fatal ''Could not use GRPC creds for server: ''
       (NewClientCredentials build (gc_CertFile (rc_GRPC c)) (gc_KeyFile (rc_GRPC c)) (gc_CAFile (rc_GRPC c)) ''metron'')) (\<lambda>credentials.
     fatal ''Could not configure metric emitter: ''
       (NewClient dial (ag_GRPCAddress (rc_Agent c))
         [WithGRPCDialOptions [WithTransportCredentials credentials], WithOrigin ''loggregator.doppler'',
          WithPulseInterval (batchInterval (rc_MetricBatchIntervalMilliseconds c)), WithSourceID (rc_MetricSourceID c)]))"

text \<open>The cipher suites are set before the error is checked.\<close>

definition router_tls :: "tlsconfig \<Rightarrow> GRPC \<Rightarrow> exit + tls_Config" where
  "router_tls build g =
     (let (tlsConf, err) = tls_result (build (TlsServer (gc_CertFile g, gc_KeyFile g) (Some (gc_CAFile g))))
      in and_then (panics (apply_options (cipher_options (gc_CipherSuites g)) tlsConf)) (\<lambda>tlsConf.
         case err of
           Some err \<Rightarrow> Inl (Panicked (ExplicitPanic (''Failed to create tls config for router server: '' @ err)))
         | None \<Rightarrow> (case tlsConf of None \<Rightarrow> Inl (Panicked NilDereference) | Some c \<Rightarrow> Inr c)))"

record router_program =
  rp_sys :: router_sys
  rp_server :: grpc_Server
  rp_addr :: string

definition router_program_start ::
    "tlsconfig \<Rightarrow> (string \<Rightarrow> dial_option list \<Rightarrow> string option) \<Rightarrow> (string \<Rightarrow> string + string) \<Rightarrow> router_Config \<Rightarrow> exit + router_program" where
  "router_program_start build dial listen c =
     and_then (initV2Metrics build dial c) (\<lambda>metricClient.
     and_then (panics (Router_Start metricClient c)) (\<lambda>sys.
     and_then (router_tls build (rc_GRPC c)) (\<lambda>tlsConf.
     case NewServer listen (gc_Port (rc_GRPC c))
            [Creds tlsConf, KeepaliveEnforcementPolicy 10000000000 True, MaxRecvMsgSize (10 * 1024 * 1024)] of
       Inl err \<Rightarrow> Inl (Panicked (ExplicitPanic (''Failed to create router server: '' @ err)))
     | Inr srv \<Rightarrow> Inr \<lparr>rp_sys = sys, rp_server = srv, rp_addr = Server_Addr srv\<rparr>)))"

definition Router_Addrs :: "router_program \<Rightarrow> string" where
  "Router_Addrs p = rp_addr p"

definition Router_Stop :: "router_program \<Rightarrow> router_program" where
  "Router_Stop p = p\<lparr>rp_server := Server_Stop (rp_server p)\<rparr>"

section \<open>The profiler\<close>

text \<open>\<open>served\<close> is the error that \<open>Serve\<close> returns in the end, if any.\<close>

definition profiler_Start :: "(string \<Rightarrow> string + string) \<Rightarrow> string option \<Rightarrow> uint32 \<Rightarrow> exit + string" where
  "profiler_Start listen served port =
     (let addr = ''localhost:'' @ itoa (uint port)
      in case listen addr of
           Inl err \<Rightarrow> Inl (Panicked (ExplicitPanic (''Error creating pprof listener: '' @ err)))
         | Inr lis \<Rightarrow>
             (case served of
                Some err \<Rightarrow> Inl (Panicked (ExplicitPanic (''Error starting pprof server: '' @ err)))
              | None \<Rightarrow> Inr lis))"

text \<open>The program: the router is started, and then the profiler is served.\<close>

definition router_program_main ::
    "tlsconfig \<Rightarrow> (string \<Rightarrow> dial_option list \<Rightarrow> string option) \<Rightarrow> (string \<Rightarrow> string + string) \<Rightarrow>
     (router_Config \<Rightarrow> string + router_Config) \<Rightarrow> exit + router_program" where
  "router_program_main build dial listen load =
     and_then (fatal ''Unable to parse config: '' (router_main load)) (router_program_start build dial listen)"

section \<open>Lemmas\<close>

text \<open>The outcome of building the TLS configuration of the router.\<close>

lemma router_tls_outcome:
  "router_tls build g =
     (case build (TlsServer (gc_CertFile g, gc_KeyFile g) (Some (gc_CAFile g))) of
        Inl err \<Rightarrow>
          Inl (Panicked (if gc_CipherSuites g = [] then ExplicitPanic (''Failed to create tls config for router server: '' @ err)
                         else NilDereference))
      | Inr c \<Rightarrow>
          if gc_CipherSuites g = [] then Inr c
          else if cipher_loop (gc_CipherSuites g) = [] then Inl (Panicked (ExplicitPanic ''no valid ciphers provided for TLS configuration''))
          else Inr (c\<lparr>tls_CipherSuites := cipher_loop (gc_CipherSuites g)\<rparr>))"
  by (auto simp: router_tls_def tls_result_def cipher_options_apply cipher_loop_filter filter_empty_conv split: sum.split)

text \<open>
  A router program that gets as far as serving is the system of \<open>Router_Start\<close> on its validated configuration, behind a
  server that authenticates its clients with certificates and uses only the two known cipher suites if any are
  configured.
\<close>

lemma router_program_started:
  assumes "router_program_main build dial listen load = Inr p"
  shows "\<exists>conf m c tls. LoadConfig load = Inr conf \<and> router_main load = Inr c \<and> Router_Start m c = Inr (rp_sys p) \<and>
    rc_IngressBufferSize c = rc_IngressBufferSize conf \<and> 0 \<le> rc_IngressBufferSize conf \<and>
    Creds tls \<in> set (gs_opts (rp_server p)) \<and>
    (\<exists>c0. build (TlsServer (gc_CertFile (rc_GRPC conf), gc_KeyFile (rc_GRPC conf)) (Some (gc_CAFile (rc_GRPC conf)))) = Inr c0 \<and>
       (if gc_CipherSuites (rc_GRPC conf) = [] then tls = c0
        else tls_CipherSuites tls \<noteq> [] \<and> set (tls_CipherSuites tls) \<subseteq> {0xC02F, 0xC030})) \<and>
    listen ('':'' @ itoa (uint (gc_Port (rc_GRPC conf)))) = Inr (Router_Addrs p)"
proof -
  from assms obtain c where c: "router_main load = Inr c" and start: "router_program_start build dial listen c = Inr p"
    by (auto simp: router_program_main_def and_then_Inr)
  from c obtain conf where conf: "LoadConfig load = Inr conf" "rc_GRPC c = rc_GRPC conf" "rc_IngressBufferSize c = rc_IngressBufferSize conf"
    by (auto simp: router_main_def app_NewRouter_def WithBufferSizes_def WithMetricReporting_def split: sum.splits)
  let ?opts = "\<lambda>tls. [Creds tls, KeepaliveEnforcementPolicy 10000000000 True, MaxRecvMsgSize (10 * 1024 * 1024)]"
  from start obtain m sys tls where t: "Router_Start m c = Inr sys" "router_tls build (rc_GRPC c) = Inr tls"
    "(case NewServer listen (gc_Port (rc_GRPC c)) (?opts tls) of
        Inl err \<Rightarrow> Inl (Panicked (ExplicitPanic (''Failed to create router server: '' @ err)))
      | Inr srv \<Rightarrow> Inr \<lparr>rp_sys = sys, rp_server = srv, rp_addr = Server_Addr srv\<rparr>) = Inr p"
    unfolding router_program_start_def and_then_Inr panics_Inr by blast
  then obtain srv where s: "Router_Start m c = Inr (rp_sys p)" "router_tls build (rc_GRPC c) = Inr tls"
    "NewServer listen (gc_Port (rc_GRPC c)) (?opts tls) = Inr srv" "rp_server p = srv" "Router_Addrs p = gs_listener srv"
    by (cases "NewServer listen (gc_Port (rc_GRPC c)) (?opts tls)") (auto simp: Router_Addrs_def Server_Addr_def)
  have "0 \<le> rc_IngressBufferSize c" using s(1) by (auto simp: Router_Start_def make_len_def Let_def split: if_splits)
  moreover have "\<exists>c0. build (TlsServer (gc_CertFile (rc_GRPC conf), gc_KeyFile (rc_GRPC conf)) (Some (gc_CAFile (rc_GRPC conf)))) = Inr c0 \<and>
       (if gc_CipherSuites (rc_GRPC conf) = [] then tls = c0
        else tls_CipherSuites tls \<noteq> [] \<and> set (tls_CipherSuites tls) \<subseteq> {0xC02F, 0xC030})"
    using s(2) cipher_loop_known [of "gc_CipherSuites (rc_GRPC conf)"] by (auto simp: router_tls_outcome conf(2) split: sum.splits if_splits)
  moreover have "Creds tls \<in> set (gs_opts srv)" "listen ('':'' @ itoa (uint (gc_Port (rc_GRPC conf)))) = Inr (gs_listener srv)"
    using s(3) by (auto simp: NewServer_def conf(2) split: sum.splits)
  ultimately show ?thesis using c conf s by auto
qed

text \<open>
  The two steps of \<open>Stop\<close> are in the order that \<open>Start\<close> needs: if \<open>Serve\<close> fails only because the gRPC server was
  stopped, \<open>Start\<close> never ends the process, whatever else happens in between.
\<close>

datatype server_event = StopMark | StopGrpc

fun server_events :: "server_event list \<Rightarrow> grpc_Server \<Rightarrow> grpc_Server" where
  "server_events [] g = g"
| "server_events (StopMark # evs) g = server_events evs (Server_Stop_mark g)"
| "server_events (StopGrpc # evs) g = server_events evs (if gs_stopped g then Server_Stop_grpc g else g)"

lemma server_stop_not_fatal:
  assumes "NewServer listen port opts = Inr g" and "gs_grpcStopped (server_events evs g)"
  shows "Server_Start served (server_events evs g) = Inr (server_events evs g)"
proof -
  have "gs_grpcStopped g \<longrightarrow> gs_stopped g \<Longrightarrow> gs_grpcStopped (server_events evs g) \<longrightarrow> gs_stopped (server_events evs g)" for g
    by (induction evs g rule: server_events.induct) (auto simp: Server_Stop_mark_def Server_Stop_grpc_def)
  with assms show ?thesis by (auto simp: NewServer_def Server_Start_def Let_def split: sum.splits option.splits)
qed

text \<open>
  The pulse interval is exact while the number of milliseconds fits; a larger number wraps around, and an interval
  that is not positive makes \<open>time.Tick\<close> return a channel that never yields: no metric is ever sent.
\<close>

lemma batchInterval_exact: "uint ms < 9223372036855 \<Longrightarrow> batchInterval ms = uint ms * 1000000"
proof -
  assume a: "uint ms < 9223372036855"
  have "uint (ms * 1000000) = uint ms * 1000000" using a by (simp add: uint_word_ariths)
  then show ?thesis using a by (simp add: batchInterval_def sint_uint signed_take_bit_eq_take_bit_shift take_bit_eq_mod)
qed

lemma batchInterval_wraps: "batchInterval 9223372036855 < 0"
  by code_simp

end
