(* ===== verification/GatewayApp.thy ===== *)
theory GatewayApp
  imports Apps GatewayWeb
begin

text \<open>
  The program of the gateway: its configuration (\<open>rlp-gateway/app/config.go\<close>), what \<open>Gateway.Start\<close> builds from it
  (\<open>rlp-gateway/app/gateway.go\<close>), the connection to the logs provider (\<open>rlp-gateway/internal/ingress/log_client.go\<close>),
  \<open>main\<close>, and the metrics over \<open>expvar\<close> (\<open>rlp-gateway/internal/metrics/metrics.go\<close>).

  The calls of other packages are the fields of a record \<open>gateway_env\<close>: \<open>tlsconfig\<close>, \<open>grpc.NewClient\<close> and the
  generated client on a connection, \<open>net.Listen\<close>, \<open>url.Parse\<close>, the HTTP transport, JSON, and the handlers for logging
  and recovery of \<open>gorilla/handlers\<close>.
\<close>

section \<open>Configuration\<close>

record LogAccessAuthorization =
  laa_Addr :: string
  laa_CertPath :: string
  laa_KeyPath :: string
  laa_CAPath :: string
  laa_CommonName :: string
  laa_ExternalAddr :: string

record LogAdminAuthorization =
  lda_Addr :: string
  lda_ClientID :: string
  lda_ClientSecret :: string
  lda_CAPath :: string

record gateway_HTTP =
  gh_GatewayAddr :: string
  gh_CertPath :: string
  gh_KeyPath :: string

record MetricsServer =
  msv_Port :: uint16
  msv_CAFile :: string
  msv_CertFile :: string
  msv_KeyFile :: string

record gateway_Config =
  gf_UseRFC339 :: bool
  gf_LogsProviderAddr :: string
  gf_LogsProviderCAPath :: string
  gf_LogsProviderClientCertPath :: string
  gf_LogsProviderClientKeyPath :: string
  gf_LogsProviderCommonName :: string
  gf_SkipCertVerify :: bool
  gf_PProfPort :: uint32
  gf_LogAccessAuthorization :: LogAccessAuthorization
  gf_LogAdminAuthorization :: LogAdminAuthorization
  gf_StreamTimeout :: int
  gf_HTTP :: gateway_HTTP
  gf_MetricsServer :: MetricsServer



section \<open>The logs provider\<close>

record ('conn, 'rx) gateway_env =
  ge_build :: tlsconfig
  ge_dial :: "string \<Rightarrow> dial_option list \<Rightarrow> string + 'conn"
  ge_BatchedReceiver :: "'conn \<Rightarrow> EgressBatchRequest \<Rightarrow> string + 'rx"
  ge_listen :: "string \<Rightarrow> string + string"
  ge_checkToken :: "string \<Rightarrow> string option"
  ge_validURL :: "string \<Rightarrow> bool"
  ge_Do :: "http_Client \<Rightarrow> client_request \<Rightarrow> string + http_response"
  ge_decode :: "string \<Rightarrow> string + uaaResponse"
  ge_Marshal :: "Envelope list \<Rightarrow> string + string"
  ge_LoggingHandler :: "EgressBatchRequest handler \<Rightarrow> EgressBatchRequest handler"
  ge_RecoveryHandler :: "EgressBatchRequest handler \<Rightarrow> EgressBatchRequest handler"

record 'conn LogClient =
  lc_connection :: 'conn
  lc_closed :: bool

definition NewLogClient :: "('conn, 'rx) gateway_env \<Rightarrow> tls_Config \<Rightarrow> string \<Rightarrow> exit + 'conn LogClient" where
  "NewLogClient env creds logsProviderAddr =
     and_then (fatal ''failed to dial logs provider: ''
       (ge_dial env logsProviderAddr [WithTransportCredentials creds, WithMaxCallRecvMsgSize (10 * 1024 * 1024)]))
       (\<lambda>conn. Inr \<lparr>lc_connection = conn, lc_closed = False\<rparr>)"

definition LogClient_Close :: "'conn LogClient \<Rightarrow> 'conn LogClient" where
  "LogClient_Close c = c\<lparr>lc_closed := True\<rparr>"

section \<open>The gateway\<close>

text \<open>A handler also takes what is known only with the request: whether the writer can flush, and what the stream yields.\<close>

type_synonym gateway_handler = "bool \<Rightarrow> read_event list \<Rightarrow> EgressBatchRequest handler"

record http_Server =
  sv_Addr :: string
  sv_Handler :: gateway_handler
  sv_TLSConfig :: tls_Config
  sv_ReadHeaderTimeout :: int
  sv_closed :: bool

record 'conn Gateway =
  gw_cfg :: gateway_Config
  gw_listener :: "string option"
  gw_server :: "http_Server option"
  gw_logClient :: "'conn LogClient option"

definition NewGateway :: "gateway_Config \<Rightarrow> 'conn Gateway" where
  "NewGateway cfg = \<lparr>gw_cfg = cfg, gw_listener = None, gw_server = None, gw_logClient = None\<rparr>"

definition buildTlsConfig :: "tlsconfig \<Rightarrow> gateway_Config \<Rightarrow> exit + tls_Config" where
  "buildTlsConfig build cfg =
     fatal ''failed to build tls config: '' (build (TlsServer (gh_CertPath (gf_HTTP cfg), gh_KeyPath (gf_HTTP cfg)) None))"

definition buildAdminAuthClient :: "tlsconfig \<Rightarrow> gateway_Config \<Rightarrow> exit + http_Client" where
  "buildAdminAuthClient build cfg =
     and_then (fatal ''unable to create admin auth client: '' (build (TlsClient None (lda_CAPath (gf_LogAdminAuthorization cfg)) None)))
       (\<lambda>tlsConfig. Inr (build_client (gf_SkipCertVerify cfg) tlsConfig))"

definition buildAccessAuthorizationClient :: "tlsconfig \<Rightarrow> gateway_Config \<Rightarrow> exit + http_Client" where
  "buildAccessAuthorizationClient build cfg =
     (let a = gf_LogAccessAuthorization cfg
      in and_then (fatal ''unable to create log access HTTP Client: ''
           (build (TlsClient (Some (laa_CertPath a, laa_KeyPath a)) (laa_CAPath a) (Some (laa_CommonName a)))))
         (\<lambda>tlsConfig. Inr (build_client (gf_SkipCertVerify cfg) tlsConfig)))"

text \<open>A URL that cannot be parsed is fatal.\<close>

definition fatal_none :: "string \<Rightarrow> 'a option \<Rightarrow> exit + 'a" where
  "fatal_none msg r = (case r of None \<Rightarrow> Inl (Fatal msg) | Some x \<Rightarrow> Inr x)"

definition Gateway_stack ::
    "('conn, 'rx) gateway_env \<Rightarrow> http_Client \<Rightarrow> UAAClient \<Rightarrow> http_Client \<Rightarrow> CAPIClient \<Rightarrow> 'conn LogClient \<Rightarrow> gateway_handler" where
  "Gateway_stack env uaaHTTP uaaClient capiHTTP capiClient logClient flusher evs =
     ge_RecoveryHandler env (ge_LoggingHandler env
       (gateway_ServeHTTP (\<lambda>token. fst (UAAClient_Read (ge_validURL env) (ge_Do env uaaHTTP) (ge_decode env) uaaClient token))
         (\<lambda>sourceID token. fst (CAPIClient_IsAuthorized (ge_validURL env) (ge_Do env capiHTTP) capiClient sourceID token))
         (ReadHandler
           (\<lambda>req. case LogClient_Stream (ge_BatchedReceiver env (lc_connection logClient)) req of Inl err \<Rightarrow> False | Inr rx \<Rightarrow> True)
           flusher (ge_Marshal env) evs)))"

text \<open>Whether \<open>Start\<close> returns at once or only after serving; either way the error of \<open>ServeTLS\<close> is only logged.\<close>

datatype serving = Foreground | Background

definition Gateway_Start :: "('conn, 'rx) gateway_env \<Rightarrow> bool \<Rightarrow> 'conn Gateway \<Rightarrow> exit + 'conn Gateway \<times> serving" where
  "Gateway_Start env blocking g =
     (let cfg = gw_cfg g; admin = gf_LogAdminAuthorization cfg; access = gf_LogAccessAuthorization cfg in
      and_then (fatal ''failed to load client TLS config: ''
        (NewClientCredentials (ge_build env) (gf_LogsProviderClientCertPath cfg) (gf_LogsProviderClientKeyPath cfg)
           (gf_LogsProviderCAPath cfg) (gf_LogsProviderCommonName cfg))) (\<lambda>creds.
      and_then (buildAdminAuthClient (ge_build env) cfg) (\<lambda>uaaHTTP.
      and_then (fatal_none ''failed to parse UAA addr''
        (NewUAAClient (ge_checkToken env) (lda_Addr admin) (lda_ClientID admin) (lda_ClientSecret admin))) (\<lambda>uaaClient.
      and_then (buildAccessAuthorizationClient (ge_build env) cfg) (\<lambda>capiHTTP.
      and_then (fatal_none ''failed to parse CAPI addr''
        (NewCAPIClient (ge_validURL env) (laa_Addr access) (laa_ExternalAddr access))) (\<lambda>capiClient.
      and_then (NewLogClient env creds (gf_LogsProviderAddr cfg)) (\<lambda>logClient.
      and_then (fatal ''failed to start listener: '' (ge_listen env (gh_GatewayAddr (gf_HTTP cfg)))) (\<lambda>l.
      and_then (buildTlsConfig (ge_build env) cfg) (\<lambda>tlsConfig.
      Inr (g\<lparr>gw_logClient := Some logClient, gw_listener := Some l,
             gw_server := Some \<lparr>sv_Addr = gh_GatewayAddr (gf_HTTP cfg),
               sv_Handler = Gateway_stack env uaaHTTP uaaClient capiHTTP capiClient logClient,
               sv_TLSConfig = tlsConfig, sv_ReadHeaderTimeout = 2000000000, sv_closed = False\<rparr>\<rparr>,
           if blocking then Foreground else Background))))))))))"

text \<open>\<open>Stop\<close> dereferences the server and the client.\<close>

definition Gateway_Stop :: "'conn Gateway \<Rightarrow> 'conn Gateway go" where
  "Gateway_Stop g =
     (case (gw_server g, gw_logClient g) of
        (Some server, Some logClient) \<Rightarrow>
          Inr (g\<lparr>gw_server := Some (server\<lparr>sv_closed := True\<rparr>), gw_logClient := Some (LogClient_Close logClient)\<rparr>)
      | _ \<Rightarrow> Inl NilDereference)"

definition Gateway_Addr :: "'conn Gateway \<Rightarrow> string" where
  "Gateway_Addr g = (case gw_listener g of None \<Rightarrow> [] | Some addr \<Rightarrow> addr)"


section \<open>Metrics\<close>

text \<open>
  A variable of an \<open>expvar.Map\<close>. The variable of a key is never replaced, so a pointer to it is its key. \<open>Add\<close> and
  \<open>AddFloat\<close> create a variable of their kind if there is none, and ignore one of another kind.
\<close>

datatype 'f expvar = ExpInt int64 | ExpFloat 'f

type_synonym 'f expvar_Map = "string \<rightharpoonup> 'f expvar"

definition expvar_Add :: "string \<Rightarrow> int64 \<Rightarrow> 'f expvar_Map \<Rightarrow> 'f expvar_Map" where
  "expvar_Add key d m =
     (case m key of
        None \<Rightarrow> m(key \<mapsto> ExpInt d)
      | Some (ExpInt v) \<Rightarrow> m(key \<mapsto> ExpInt (v + d))
      | Some (ExpFloat v) \<Rightarrow> m)"

definition expvar_AddFloat :: "('f \<Rightarrow> 'f \<Rightarrow> 'f) \<Rightarrow> 'f \<Rightarrow> string \<Rightarrow> 'f \<Rightarrow> 'f expvar_Map \<Rightarrow> 'f expvar_Map" where
  "expvar_AddFloat fadd fzero key d m =
     (case m key of
        None \<Rightarrow> m(key \<mapsto> ExpFloat (fadd fzero d))
      | Some (ExpInt v) \<Rightarrow> m
      | Some (ExpFloat v) \<Rightarrow> m(key \<mapsto> ExpFloat (fadd v d)))"

text \<open>The function that is returned, on the map; a nil map stays nil. A failed type assertion panics.\<close>

definition Metrics_NewCounter ::
    "string \<Rightarrow> 'f expvar_Map option \<Rightarrow> ('f expvar_Map option \<times> (uint64 \<Rightarrow> 'f expvar_Map option \<Rightarrow> 'f expvar_Map option)) go" where
  "Metrics_NewCounter name m =
     (case m of
        None \<Rightarrow> Inr (None, \<lambda>_ m. m)
      | Some m \<Rightarrow>
          let m = expvar_Add name 0 m
          in case m name of
               Some (ExpInt i) \<Rightarrow> Inr (Some m, \<lambda>d m. map_option (expvar_Add name d) m)
             | _ \<Rightarrow> Inl (ExplicitPanic ''interface conversion''))"

definition Metrics_NewGauge ::
    "('f \<Rightarrow> 'f \<Rightarrow> 'f) \<Rightarrow> 'f \<Rightarrow> string \<Rightarrow> 'f expvar_Map option \<Rightarrow>
     ('f expvar_Map option \<times> ('f \<Rightarrow> 'f expvar_Map option \<Rightarrow> 'f expvar_Map option)) go" where
  "Metrics_NewGauge fadd fzero name m =
     (case m of
        None \<Rightarrow> Inr (None, \<lambda>_ m. m)
      | Some m \<Rightarrow>
          let m = expvar_AddFloat fadd fzero name fzero m
          in case m name of
               Some (ExpFloat f) \<Rightarrow> Inr (Some m, \<lambda>v m. map_option (\<lambda>m. m(name \<mapsto> ExpFloat v)) m)
             | _ \<Rightarrow> Inl (ExplicitPanic ''interface conversion''))"

section \<open>Lemmas\<close>

text \<open>What a started gateway has gone through.\<close>

lemma fatal_none_Inr: "fatal_none msg r = Inr x \<longleftrightarrow> r = Some x"
  by (cases r) (simp_all add: fatal_none_def)


lemma Gateway_Start_Inr:
  assumes "Gateway_Start env blocking g = Inr (g', mode)"
  shows "\<exists>creds uaaHTTP uaaClient capiHTTP capiClient logClient l tlsConfig.
    buildAdminAuthClient (ge_build env) (gw_cfg g) = Inr uaaHTTP \<and>
    NewUAAClient (ge_checkToken env) (lda_Addr (gf_LogAdminAuthorization (gw_cfg g))) (lda_ClientID (gf_LogAdminAuthorization (gw_cfg g)))
      (lda_ClientSecret (gf_LogAdminAuthorization (gw_cfg g))) = Some uaaClient \<and>
    buildAccessAuthorizationClient (ge_build env) (gw_cfg g) = Inr capiHTTP \<and>
    NewCAPIClient (ge_validURL env) (laa_Addr (gf_LogAccessAuthorization (gw_cfg g)))
      (laa_ExternalAddr (gf_LogAccessAuthorization (gw_cfg g))) = Some capiClient \<and>
    NewLogClient env creds (gf_LogsProviderAddr (gw_cfg g)) = Inr logClient \<and>
    buildTlsConfig (ge_build env) (gw_cfg g) = Inr tlsConfig \<and>
    gw_cfg g' = gw_cfg g \<and> gw_listener g' = Some l \<and> gw_logClient g' = Some logClient \<and>
    gw_server g' = Some \<lparr>sv_Addr = gh_GatewayAddr (gf_HTTP (gw_cfg g)),
       sv_Handler = Gateway_stack env uaaHTTP uaaClient capiHTTP capiClient logClient,
       sv_TLSConfig = tlsConfig, sv_ReadHeaderTimeout = 2000000000, sv_closed = False\<rparr>"
  using assms unfolding Gateway_Start_def Let_def and_then_Inr fatal_Inr fatal_none_Inr by fastforce

lemma Gateway_Stop_closes:
  assumes "Gateway_Start env blocking g = Inr (g', mode)"
  shows "case Gateway_Stop g' of
      Inr g'' \<Rightarrow> map_option sv_closed (gw_server g'') = Some True \<and> map_option lc_closed (gw_logClient g'') = Some True
    | Inl _ \<Rightarrow> False"
  using Gateway_Start_Inr [OF assms] by (auto simp: Gateway_Stop_def LogClient_Close_def)

lemma Gateway_Stop_unstarted: "Gateway_Stop (NewGateway cfg) = Inl NilDereference \<and> Gateway_Addr (NewGateway cfg) = []"
  by (simp add: Gateway_Stop_def Gateway_Addr_def NewGateway_def)

text \<open>Counters add up modulo $2^{64}$; a name that is taken by the other kind of metric panics.\<close>

lemma Metrics_counter_adds:
  assumes "Metrics_NewCounter name (Some m) = Inr (m', add)"
  shows "\<exists>v0 v. (m name = None \<and> v0 = 0 \<or> m name = Some (ExpInt v0)) \<and> map_option (\<lambda>m. m name) (fold add ds m') = Some (Some (ExpInt v)) \<and>
    v = v0 + sum_list ds"
proof -
  obtain v0 where v0: "m' = Some (m(name \<mapsto> ExpInt v0))" "m name = None \<and> v0 = 0 \<or> m name = Some (ExpInt v0)"
    and add: "add = (\<lambda>d m. map_option (expvar_Add name d) m)"
    using assms by (auto simp: Metrics_NewCounter_def expvar_Add_def Let_def split: option.splits expvar.splits if_splits)
  have "fold add ds (Some (m(name \<mapsto> ExpInt v))) = Some (m(name \<mapsto> ExpInt (v + sum_list ds)))" for v
    by (induction ds arbitrary: v) (simp_all add: add expvar_Add_def add.assoc)
  with v0 show ?thesis by auto
qed

lemma Metrics_kind_panics:
  assumes "Metrics_NewCounter name (Some m) = Inr (m', add)"
  shows "Metrics_NewGauge fadd fzero name m' = Inl (ExplicitPanic ''interface conversion'')"
  using assms
  by (auto simp: Metrics_NewCounter_def Metrics_NewGauge_def expvar_Add_def expvar_AddFloat_def Let_def
      split: option.splits expvar.splits if_splits)

section \<open>Properties\<close>





end
