(* ===== verification/TcMetrics.thy ===== *)
theory TcMetrics
  imports TcProxy
begin

text \<open>
  What \<open>NewDopplerProxy\<close> builds (\<open>trafficcontroller/internal/proxy/doppler_proxy.go\<close>): the server of web sockets, the two
  handlers of streams with their counters of open connections, and the gauges that are set from these; and the start of
  a web socket (\<open>websocket_server.go\<close>, \<open>websocket_handler.go\<close>).
\<close>

section \<open>Construction\<close>

record WebSocketServer =
  wss_slowConsumerMetric :: metric_Counter
  wss_slowConsumerTimeout :: int
  wss_metricClient :: metric_Client

definition NewWebSocketServer :: "int \<Rightarrow> metric_Client \<Rightarrow> WebSocketServer" where
  "NewWebSocketServer slowConsumerTimeout m =
     \<lparr>wss_slowConsumerMetric = Client_NewCounter ''doppler_proxy.slow_consumer'' [WithVersion 2 0] m,
      wss_slowConsumerTimeout = slowConsumerTimeout, wss_metricClient = m\<rparr>"

record StreamHandler =
  sh_server :: WebSocketServer
  sh_counter :: int
  sh_egressMetric :: metric_Counter

definition NewStreamHandler :: "WebSocketServer \<Rightarrow> metric_Client \<Rightarrow> StreamHandler" where
  "NewStreamHandler w m =
     \<lparr>sh_server = w, sh_counter = 0,
      sh_egressMetric = Client_NewCounter ''egress'' [WithVersion 2 0, WithTags [(''endpoint'', ''stream'')]] m\<rparr>"

definition StreamHandler_Count :: "StreamHandler \<Rightarrow> int" where
  "StreamHandler_Count h = sh_counter h"

record FirehoseHandler =
  fh_server :: WebSocketServer
  fh_counter :: int
  fh_egressFirehoseMetric :: metric_Counter

definition NewFirehoseHandler :: "WebSocketServer \<Rightarrow> metric_Client \<Rightarrow> FirehoseHandler" where
  "NewFirehoseHandler w m =
     \<lparr>fh_server = w, fh_counter = 0,
      fh_egressFirehoseMetric = Client_NewCounter ''egress'' [WithVersion 2 0, WithTags [(''endpoint'', ''firehose'')]] m\<rparr>"

definition FirehoseHandler_Count :: "FirehoseHandler \<Rightarrow> int" where
  "FirehoseHandler_Count h = fh_counter h"

record DopplerProxy =
  dp_firehose :: FirehoseHandler
  dp_stream :: StreamHandler
  dp_firehoseConnMetric :: metric_Gauge
  dp_appStreamConnMetric :: metric_Gauge

definition NewDopplerProxy :: "int \<Rightarrow> metric_Client \<Rightarrow> DopplerProxy" where
  "NewDopplerProxy slowConsumerTimeout m =
     (let wsServer = NewWebSocketServer slowConsumerTimeout m
      in \<lparr>dp_firehose = NewFirehoseHandler wsServer m, dp_stream = NewStreamHandler wsServer m,
          dp_firehoseConnMetric = Client_NewGauge ''doppler_proxy.firehoses'' ''connections'' [WithVersion 2 0] m,
          dp_appStreamConnMetric = Client_NewGauge ''doppler_proxy.app_streams'' ''connections'' [WithVersion 2 0] m\<rparr>)"

section \<open>Open connections\<close>

text \<open>A handler is entered and left; the gauges are set when the ticker fires.\<close>

datatype proxy_event = EnterStream | LeaveStream | EnterFirehose | LeaveFirehose | EmitTick

definition proxy_step :: "(float64 \<Rightarrow> uint64) \<Rightarrow> (int \<Rightarrow> float64) \<Rightarrow> proxy_event \<Rightarrow> DopplerProxy \<Rightarrow> DopplerProxy" where
  "proxy_step toUint64 float64_of ev d =
     (case ev of
        EnterStream \<Rightarrow> d\<lparr>dp_stream := (dp_stream d)\<lparr>sh_counter := handler_begin (sh_counter (dp_stream d))\<rparr>\<rparr>
      | LeaveStream \<Rightarrow> d\<lparr>dp_stream := (dp_stream d)\<lparr>sh_counter := handler_end (sh_counter (dp_stream d))\<rparr>\<rparr>
      | EnterFirehose \<Rightarrow> d\<lparr>dp_firehose := (dp_firehose d)\<lparr>fh_counter := handler_begin (fh_counter (dp_firehose d))\<rparr>\<rparr>
      | LeaveFirehose \<Rightarrow> d\<lparr>dp_firehose := (dp_firehose d)\<lparr>fh_counter := handler_end (fh_counter (dp_firehose d))\<rparr>\<rparr>
      | EmitTick \<Rightarrow>
          let (firehoses, streams) = emitMetrics toUint64 float64_of (FirehoseHandler_Count (dp_firehose d)) (StreamHandler_Count (dp_stream d))
                (dp_firehoseConnMetric d, dp_appStreamConnMetric d)
          in d\<lparr>dp_firehoseConnMetric := firehoses, dp_appStreamConnMetric := streams\<rparr>)"

definition proxy_run :: "(float64 \<Rightarrow> uint64) \<Rightarrow> (int \<Rightarrow> float64) \<Rightarrow> proxy_event list \<Rightarrow> DopplerProxy \<Rightarrow> DopplerProxy" where
  "proxy_run toUint64 float64_of evs d = foldl (\<lambda>d ev. proxy_step toUint64 float64_of ev d) d evs"

section \<open>The start of a web socket\<close>

text \<open>\<open>websocketHandler.ServeHTTP\<close>: without an upgrade the handler returns at once, and no close message is sent (the code
  0 stands for that); the goroutine that receives goes on.\<close>

definition websocketHandler_ServeHTTP :: "bool \<Rightarrow> ws_state \<Rightarrow> ws_state" where
  "websocketHandler_ServeHTTP upgraded s = (if upgraded then s else s\<lparr>ws_close := Some (0, [])\<rparr>)"

definition ServeWS :: "WebSocketServer \<Rightarrow> metric_Counter \<Rightarrow> bool \<Rightarrow> ws_state" where
  "ServeWS server egressMetric upgraded =
     websocketHandler_ServeHTTP upgraded (ws_start egressMetric (wss_slowConsumerMetric server))"

section \<open>Lemmas\<close>

text \<open>The gauges of a tick are the connections that are open at that moment.\<close>

lemma proxy_run_counts:
  "FirehoseHandler_Count (dp_firehose (proxy_run f g evs d)) =
     FirehoseHandler_Count (dp_firehose d) + int (count (mset evs) EnterFirehose) - int (count (mset evs) LeaveFirehose)"
  "StreamHandler_Count (dp_stream (proxy_run f g evs d)) =
     StreamHandler_Count (dp_stream d) + int (count (mset evs) EnterStream) - int (count (mset evs) LeaveStream)"
proof -
  have *: "fh_counter (dp_firehose (proxy_run f g evs d)) =
      fh_counter (dp_firehose d) + int (count (mset evs) EnterFirehose) - int (count (mset evs) LeaveFirehose) \<and>
    sh_counter (dp_stream (proxy_run f g evs d)) =
      sh_counter (dp_stream d) + int (count (mset evs) EnterStream) - int (count (mset evs) LeaveStream)"
  proof (induction evs arbitrary: d)
    case (Cons ev evs)
    have "proxy_run f g (ev # evs) d = proxy_run f g evs (proxy_step f g ev d)" by (simp add: proxy_run_def)
    with Cons show ?case
      by (cases ev) (simp_all add: proxy_step_def handler_begin_def handler_end_def emitMetrics_def Let_def)
  qed (simp add: proxy_run_def)
  show "FirehoseHandler_Count (dp_firehose (proxy_run f g evs d)) =
     FirehoseHandler_Count (dp_firehose d) + int (count (mset evs) EnterFirehose) - int (count (mset evs) LeaveFirehose)"
    "StreamHandler_Count (dp_stream (proxy_run f g evs d)) =
     StreamHandler_Count (dp_stream d) + int (count (mset evs) EnterStream) - int (count (mset evs) LeaveStream)"
    using * by (simp_all add: FirehoseHandler_Count_def StreamHandler_Count_def)
qed

lemma proxy_gauges_exact:
  assumes d: "d = proxy_run f g (evs @ [EmitTick]) (NewDopplerProxy timeout m)"
  shows "mg_value (dp_firehoseConnMetric d) = f (g (int (count (mset evs) EnterFirehose) - int (count (mset evs) LeaveFirehose))) \<and>
    mg_value (dp_appStreamConnMetric d) = f (g (int (count (mset evs) EnterStream) - int (count (mset evs) LeaveStream)))"
proof -
  have "d = proxy_step f g EmitTick (proxy_run f g evs (NewDopplerProxy timeout m))" by (simp add: d proxy_run_def)
  then show ?thesis
    using proxy_run_counts [of f g evs "NewDopplerProxy timeout m"]
    by (simp add: proxy_step_def emitMetrics_def Gauge_Set_def NewDopplerProxy_def NewFirehoseHandler_def NewStreamHandler_def
        FirehoseHandler_Count_def StreamHandler_Count_def Let_def)
qed

text \<open>
  A client that went away while a message was on its way to it is reported as a slow consumer when the timer fires: the
  goroutine that receives does not notice that nobody reads its channel any more.
\<close>

lemma ws_gone_client_reported_slow:
  "map_option (\<lambda>s. (ws_close s, mc_delta (ws_slowConsumer s), map fst (ws_events s)))
     (ws_run r url [WsRecv (Inr (Some message)), WsCase ClientWentAway, WsSlow] (ServeWS (NewWebSocketServer timeout m) egress True)) =
   Some (Some (1000, []), 1, [slowConsumerEventTitle])"
  by (simp add: ws_step_def ws_recv_def ws_select_def ws_slow_def ServeWS_def websocketHandler_ServeHTTP_def ws_start_def
      NewWebSocketServer_def Client_NewCounter_def NewCounter_def Counter_Increment_def)

end
