(* ===== verification/TcFlow.thy ===== *)
theory TcFlow
  imports TcMetrics FanIn
begin

text \<open>
  One subscription of the traffic controller from the routers to the web socket of its client
  (\<open>plumbing/grpc_connector.go\<close>, \<open>trafficcontroller/internal/proxy/websocket_server.go\<close>): the data plane of \<open>FanIn\<close> with
  the two goroutines of \<open>ServeWS\<close> as its consumer. A payload is never nil: gRPC decodes an empty one to an empty slice.
\<close>

section \<open>The model\<close>

definition ws_rx :: "string + bytes \<Rightarrow> ws_event" where
  "ws_rx r = (case r of Inl err \<Rightarrow> WsRecv (Inl err) | Inr p \<Rightarrow> WsRecv (Inr (Some p)))"

definition is_ws_rx :: "ws_event \<Rightarrow> bool" where
  "is_ws_rx ev = (case ev of WsRecv _ \<Rightarrow> True | _ \<Rightarrow> False)"

type_synonym tc_plane = "(bytes, ws_state) plane"

text \<open>\<open>Start\<close>, \<open>Subscribe\<close> and \<open>ServeWS\<close>, for a handler with its counter of egress.\<close>

definition tc_plane_start :: "metric_Client \<Rightarrow> WebSocketServer \<Rightarrow> metric_Counter \<Rightarrow> bool \<Rightarrow> tc_plane" where
  "tc_plane_start m server egressMetric upgraded = plane_open m (ServeWS server egressMetric upgraded)"

definition tc_plane_run ::
    "http_request \<Rightarrow> string \<Rightarrow> (bytes, ws_event) plane_event list \<Rightarrow> tc_plane \<Rightarrow> (tc_plane \<times> (bytes, ws_event) plane_obs list) go option" where
  "tc_plane_run r url = plane_run (\<lambda>ev st. map_option Inr (ws_step r url ev st)) ws_rx is_ws_rx"

section \<open>The web socket as a consumer\<close>

definition ws_got :: "ws_event \<Rightarrow> bytes list" where
  "ws_got ev = (case ev of WsRecv (Inr (Some p)) \<Rightarrow> [p] | _ \<Rightarrow> [])"

interpretation ws: receiver ws_rx is_ws_rx ws_got
  by unfold_locales (simp_all add: ws_got_def ws_rx_def is_ws_rx_def split: ws_event.splits)

lemma consumer_run_ws:
  "consumer_run (\<lambda>ev st. map_option Inr (ws_step r url ev st)) evs st = Some (Inr st') \<longleftrightarrow> ws_run r url evs st = Some st'"
  by (induction evs arbitrary: st) (auto simp: bind_eq_Some_conv split: option.splits)

lemma ws_step_received: "ws_step r url ev s = Some s' \<Longrightarrow> ws_received s' = ws_received s @ ws_got ev"
  by (cases ev)
    (auto simp: ws_step_def ws_recv_def ws_slow_def ws_select_def ws_got_def Let_def
      split: if_splits sum.splits option.splits ws_case.splits)

lemma ws_run_received: "ws_run r url evs s = Some s' \<Longrightarrow> ws_received s' = ws_received s @ concat (map ws_got evs)"
  by (induction evs arbitrary: s) (auto simp: bind_eq_Some_conv dest!: ws_step_received)

lemma ws_inv_ServeWS: "ws_inv egressMetric (wss_slowConsumerMetric server) (ServeWS server egressMetric upgraded)"
  by (simp add: ws_inv_def ServeWS_def websocketHandler_ServeHTTP_def ws_start_def)

text \<open>What the client of a web socket gets.\<close>

lemma tc_flow:
  assumes "tc_plane_run r url evs (tc_plane_start m server egressMetric upgraded) = Some (Inr (s, os))"
  shows "(\<forall>k < length (pl_readers s).
        received_from k os = part_of k (yields os) @ part_of k (pl_data s) @ unput (pl_readers s ! k) \<and>
        (\<forall>es n. pl_readers s ! k = Ended es n \<and> es \<noteq> [] \<longrightarrow> pl_ctxDone s)) \<and>
    length (pl_data s) \<le> 1000 \<and>
    mc_delta (pl_ingress s) + of_nat (sum_list (map uncounted (pl_readers s))) = of_nat (length (received_all os)) \<and>
    (let ws = pl_stream s in
     prefix (ws_written ws) (map snd (yields os)) \<and>
     mc_delta (ws_egress ws) = mc_delta egressMetric + of_nat (length (ws_written ws)) \<and>
     mc_delta (ws_slowConsumer ws) = mc_delta (wss_slowConsumerMetric server) + of_nat (length (ws_events ws)) \<and> length (ws_events ws) \<le> 1 \<and>
     (ws_close ws = None \<longrightarrow> length (yields os) \<le> length (ws_written ws) + 1 \<and>
        (ws_pending ws = None \<and> ws_events ws = [] \<longrightarrow> ws_written ws = map snd (yields os))))"
proof -
  note f = ws.fan_in [OF assms [unfolded tc_plane_run_def tc_plane_start_def]]
  have run: "ws_run r url (served os) (ServeWS server egressMetric upgraded) = Some (pl_stream s)"
    using f(2) by (simp add: consumer_run_ws)
  have rec: "ws_received (pl_stream s) = map snd (yields os)"
    using ws_run_received [OF run] f(3) by (simp add: ServeWS_def websocketHandler_ServeHTTP_def ws_start_def)
  have inv: "ws_inv egressMetric (wss_slowConsumerMetric server) (pl_stream s)" by (rule ws_run_inv [OF run ws_inv_ServeWS])
  from inv rec have "prefix (ws_written (pl_stream s)) (map snd (yields os))"
    "mc_delta (ws_egress (pl_stream s)) = mc_delta egressMetric + of_nat (length (ws_written (pl_stream s)))"
    "mc_delta (ws_slowConsumer (pl_stream s)) = mc_delta (wss_slowConsumerMetric server) + of_nat (length (ws_events (pl_stream s)))"
    "length (ws_events (pl_stream s)) \<le> 1"
    by (simp_all add: ws_inv_def)
  moreover have "length (yields os) \<le> length (ws_written (pl_stream s)) + 1 \<and>
      (ws_pending (pl_stream s) = None \<and> ws_events (pl_stream s) = [] \<longrightarrow> ws_written (pl_stream s) = map snd (yields os))"
    if "ws_close (pl_stream s) = None"
  proof -
    from inv that rec obtain rest where r: "map snd (yields os) = ws_written (pl_stream s) @ rest" "length rest \<le> 1"
      "case ws_pending (pl_stream s) of Some m \<Rightarrow> rest = [m] | None \<Rightarrow> ws_events (pl_stream s) = [] \<longrightarrow> rest = []"
      by (auto simp: ws_inv_def)
    have "length (yields os) = length (ws_written (pl_stream s)) + length rest"
      using arg_cong [OF r(1), of length] by (simp only: length_map length_append)
    with r show ?thesis by (auto split: option.splits)
  qed
  ultimately show ?thesis using f(1) by (simp add: Let_def)
qed

section \<open>Properties\<close>

text \<open>
  C15. The traffic controller from end to end: under every interleaving of the readers of any number of routers and of the
  goroutines of the web socket, what was received from a router is, in order, what the socket took, what waits in the
  channel, and what its reader still has to put; a reader gives up data only after the subscription was cancelled. The
  channel never has more than its 1000 places. What is written to the client is, in order and without gaps, what was
  taken; while the socket is open at most one message is under way, and with none under way and no slow
  consumer everything taken was written. The counters are exact, and a slow consumer is counted and reported at most
  once.
\<close>

theorem tc_end_to_end:
  assumes "tc_plane_run r url evs (tc_plane_start m server egressMetric upgraded) = Some (Inr (s, os))"
  shows "(\<forall>k < length (pl_readers s).
        received_from k os = part_of k (yields os) @ part_of k (pl_data s) @ unput (pl_readers s ! k) \<and>
        (\<forall>es n. pl_readers s ! k = Ended es n \<and> es \<noteq> [] \<longrightarrow> pl_ctxDone s)) \<and>
    length (pl_data s) \<le> 1000 \<and>
    mc_delta (pl_ingress s) + of_nat (sum_list (map uncounted (pl_readers s))) = of_nat (length (received_all os)) \<and>
    (let ws = pl_stream s in
     prefix (ws_written ws) (map snd (yields os)) \<and>
     mc_delta (ws_egress ws) = mc_delta egressMetric + of_nat (length (ws_written ws)) \<and>
     mc_delta (ws_slowConsumer ws) = mc_delta (wss_slowConsumerMetric server) + of_nat (length (ws_events ws)) \<and> length (ws_events ws) \<le> 1 \<and>
     (ws_close ws = None \<longrightarrow> length (yields os) \<le> length (ws_written ws) + 1 \<and>
        (ws_pending ws = None \<and> ws_events ws = [] \<longrightarrow> ws_written ws = map snd (yields os))))"
  by (rule tc_flow [OF assms])

text \<open>Two routers; one message is written and one is under way.\<close>

definition example_ws_request :: http_request where
  "example_ws_request =
     \<lparr>rq_Method = ''GET'', rq_Path = ''/firehose/s'', rq_RawQuery = [], rq_Query = [], rq_Header = [], rq_RemoteAddr = [], rq_Cookies = []\<rparr>"

definition example_tc_plane :: tc_plane where
  "example_tc_plane =
     (let m = \<lparr>cl_pulseInterval = 0, cl_dialOpts = [], cl_sourceID = [], cl_tags = []\<rparr>; d = NewDopplerProxy 5000000000 m
      in tc_plane_start m (fh_server (dp_firehose d)) (fh_egressFirehoseMetric (dp_firehose d)) True)"

definition example_tc_events :: "(bytes, ws_event) plane_event list" where
  "example_tc_events = [Connect, Connect, Receive 0 (Inr [[1]]), Receive 1 (Inr [[2]]), Put 1, Put 0, Yield, Serve (WsCase (FromMessages True)), Yield]"

theorem tc_end_to_end_witness:
  "\<exists>s os. tc_plane_run example_ws_request ''/firehose/s'' example_tc_events example_tc_plane = Some (Inr (s, os)) \<and>
     ws_written (pl_stream s) = [[2]] \<and> prefix (ws_written (pl_stream s)) (map snd (yields os)) \<and>
     (\<forall>k < 2. part_of k (yields os) = received_from k os)"
proof -
  let ?run = "tc_plane_run example_ws_request ''/firehose/s'' example_tc_events example_tc_plane"
  have "case ?run of Some (Inr (s, os)) \<Rightarrow>
      ws_written (pl_stream s) = [[2]] \<and> length (pl_readers s) = 2 \<and> pl_data s = [] \<and> concat (map unput (pl_readers s)) = [] | _ \<Rightarrow> False"
    by code_simp
  then obtain s os where run: "?run = Some (Inr (s, os))" and l: "ws_written (pl_stream s) = [[2]]"
    "length (pl_readers s) = 2" "pl_data s = []" "concat (map unput (pl_readers s)) = []"
    by (auto split: option.splits sum.splits)
  from l(2,4) have "unput (pl_readers s ! k) = []" if "k < 2" for k
    using that by (metis concat_eq_Nil_conv image_eqI list.set_map nth_mem)
  with tc_end_to_end [OF run [unfolded example_tc_plane_def Let_def]] run l show ?thesis by (auto simp: Let_def)
qed

end
