(* ===== verification/TcApp.thy ===== *)
theory TcApp
  imports Apps TcMetrics
begin

text \<open>
  The program of the traffic controller: \<open>main\<close> with its two HTTP clients (\<open>trafficcontroller/main.go\<close>) and what
  \<open>TrafficController.Start\<close> builds (\<open>trafficcontroller/app/traffic_controller.go\<close>). The configuration is in \<open>Apps\<close>,
  the handlers are in \<open>TcProxy\<close>, \<open>TcMetrics\<close> and \<open>TcAuth\<close>.

  The calls of other packages are the fields of a record \<open>tc_env\<close>. The signal that ends the program is not
  modelled.
\<close>

section \<open>The program\<close>

record tc_env =
  te_build :: tlsconfig
  te_dial :: "string \<Rightarrow> dial_option list \<Rightarrow> string option"
  te_OpenFile :: "string \<Rightarrow> string option"
  te_Write :: "string \<Rightarrow> string \<Rightarrow> string \<times> string option"
  te_listen :: "string \<Rightarrow> string + string"
  te_validURL :: "string \<Rightarrow> bool"
  te_Do :: "http_Client \<Rightarrow> client_request \<Rightarrow> string + http_response"
  te_StatusText :: "int \<Rightarrow> string"
  te_ReadAll :: "http_response \<Rightarrow> string option"
  te_decodeError :: "string \<Rightarrow> string + string"
  te_decodeAuth :: "string \<Rightarrow> string + AuthData"
  te_ParseForm :: "http_request \<Rightarrow> string + (string, string list) gomap"
  te_cookieString :: "cookie \<Rightarrow> string"
  te_route :: "http_request \<Rightarrow> proxy_route option"

record TrafficController =
  tc_conf :: tc_Config
  tc_disableAccessControl :: bool
  tc_metricClient :: metric_Client
  tc_uaaHTTPClient :: http_Client
  tc_ccHTTPClient :: http_Client

definition NewTrafficController :: "tc_Config \<Rightarrow> bool \<Rightarrow> metric_Client \<Rightarrow> http_Client \<Rightarrow> http_Client \<Rightarrow> TrafficController" where
  "NewTrafficController c disableAccessControl metricClient uaaHTTPClient ccHTTPClient =
     \<lparr>tc_conf = c, tc_disableAccessControl = disableAccessControl, tc_metricClient = metricClient,
      tc_uaaHTTPClient = uaaHTTPClient, tc_ccHTTPClient = ccHTTPClient\<rparr>"

text \<open>
  A handler also takes what is known only with the request: the time, how the connector answers a subscription, and what
  the web socket leaves of the writer. It extends the access log and yields what the proxy does.
\<close>

type_synonym 'rx tc_handler =
  "int \<Rightarrow> (SubscriptionRequest \<Rightarrow> string + 'rx) \<Rightarrow> ('rx \<Rightarrow> response_writer \<Rightarrow> response_writer) \<Rightarrow>
   http_request \<Rightarrow> response_writer \<Rightarrow> string \<Rightarrow> (response_writer \<times> SubscriptionRequest list) go \<times> string"

definition dopplerHandler ::
    "tc_env \<Rightarrow> TrafficController \<Rightarrow> (SubscriptionRequest \<Rightarrow> string + 'rx) \<Rightarrow> ('rx \<Rightarrow> response_writer \<Rightarrow> response_writer) \<Rightarrow>
     http_request \<Rightarrow> response_writer \<Rightarrow> (response_writer \<times> SubscriptionRequest list) go" where
  "dopplerHandler env t subscribe serve =
     (let logAuthorizer = NewLogAccessAuthorizer (te_validURL env) (te_Do env (tc_ccHTTPClient t)) (te_StatusText env)
            (tc_disableAccessControl t) (tf_ApiHost (tc_conf t));
          uaaClient = NewUaaClient (tf_UaaHost (tc_conf t)) (tf_UaaClient (tc_conf t)) (tf_UaaClientSecret (tc_conf t));
          adminAuthorizer = NewAdminAccessAuthorizer (tc_disableAccessControl t)
            (GetAuthData (te_validURL env) (te_Do env (tc_uaaHTTPClient t)) (te_ReadAll env) (te_decodeError env) (te_decodeAuth env) uaaClient)
      in DopplerProxy_ServeHTTP logAuthorizer adminAuthorizer subscribe serve (te_ParseForm env) (te_cookieString env)
           (''doppler.'' @ tf_SystemDomain (tc_conf t)) (tc_disableAccessControl t) (te_route env))"

definition access_middleware :: "tc_env \<Rightarrow> TrafficController \<Rightarrow> 'rx tc_handler \<Rightarrow> 'rx tc_handler" where
  "access_middleware env t h now subscribe serve r w log =
     (let (served, log) = AccessHandler_ServeHTTP (te_Write env) now (tf_IP (tc_conf t)) (tf_OutgoingDropsondePort (tc_conf t))
            (h now subscribe serve) r w log
      in served log)"

text \<open>What is running after \<open>Start\<close>, while it waits for the signal.\<close>

record ('c, 'rx) tc_running =
  tr_handler :: "'rx tc_handler"
  tr_proxy :: DopplerProxy
  tr_finder :: "string list list"
  tr_pool :: "'c pool"
  tr_dialOpts :: "dial_option list"
  tr_connector :: connector
  tr_addr :: string
  tr_tls :: tls_Config

definition buildTLSConfig :: "tlsconfig \<Rightarrow> tc_Config \<Rightarrow> exit + tls_Config" where
  "buildTLSConfig build c = fatal [] (build (TlsServer (tf_OutgoingCertFile c, tf_OutgoingKeyFile c) None))"

definition startServer :: "tc_env \<Rightarrow> tc_Config \<Rightarrow> exit + string \<times> tls_Config" where
  "startServer env c =
     and_then (fatal [] (te_listen env ('':'' @ itoa (uint (tf_OutgoingDropsondePort c)))))
       (\<lambda>lis. and_then (buildTLSConfig (te_build env) c) (\<lambda>tlsConfig. Inr (lis, tlsConfig)))"

definition TrafficController_Start :: "tc_env \<Rightarrow> TrafficController \<Rightarrow> exit + ('c, 'rx) tc_running" where
  "TrafficController_Start env t =
     (let c = tc_conf t in
      and_then (fatal ''Could not use GRPC creds for server: ''
        (NewClientCredentials (te_build env) (tf_CertFile c) (tf_KeyFile c) (tf_CAFile c) ''doppler'')) (\<lambda>creds.
      let h = (\<lambda>now subscribe serve r w log. (dopplerHandler env t subscribe serve r w, log)) in
      and_then
        (if tf_SecurityEventLog c \<noteq> [] then
           (case te_OpenFile env (tf_SecurityEventLog c) of
              Some err \<Rightarrow> Inl (Panicked (ExplicitPanic (''Unable to open access log: '' @ err)))
            | None \<Rightarrow> Inr (access_middleware env t h))
         else Inr h) (\<lambda>h.
      and_then (startServer env c) (\<lambda>(lis, tlsConfig).
      Inr \<lparr>tr_handler = h, tr_proxy = NewDopplerProxy 5000000000 (tc_metricClient t), tr_finder = NewStaticFinder (tf_RouterAddrs c), tr_pool = NewPool,
           tr_dialOpts = [WithTransportCredentials creds, WithKeepaliveParams 15000000000 20000000000 True, WithDisableServiceConfig,
             WithMaxCallRecvMsgSize (10 * 1024 * 1024)],
           tr_connector = NewGRPCConnector, tr_addr = lis, tr_tls = tlsConfig\<rparr>))))"

definition uaaHTTPClient :: "tlsconfig \<Rightarrow> tc_Config \<Rightarrow> exit + http_Client" where
  "uaaHTTPClient build conf =
     and_then (fatal ''Unable to create UAA HTTP Client: '' (build (TlsClient None (tf_UaaCACert conf) None)))
       (\<lambda>tlsConfig. Inr (build_client (tf_SkipCertVerify conf) tlsConfig))"

definition ccHTTPClient :: "tlsconfig \<Rightarrow> tc_Config \<Rightarrow> exit + http_Client" where
  "ccHTTPClient build conf =
     (let cc = tf_CCTLSClientConfig conf
      in and_then (fatal ''Unable to create CC HTTP Client: ''
           (build (TlsClient (Some (cct_CertFile cc, cct_KeyFile cc)) (cct_CAFile cc) (Some (cct_ServerName cc)))))
         (\<lambda>tlsConfig. Inr (build_client (tf_SkipCertVerify conf) tlsConfig)))"

definition tc_main :: "tc_env \<Rightarrow> (tc_Config \<Rightarrow> string + tc_Config) \<Rightarrow> exit + ('c, 'rx) tc_running" where
  "tc_main env load =
     (case tc_LoadConfig load of
        Inl err \<Rightarrow> Inl (Panicked (ExplicitPanic (''Unable to load config: '' @ err)))
      | Inr conf \<Rightarrow>
          and_then (fatal ''Could not use GRPC creds for client: ''
            (NewClientCredentials (te_build env) (tf_CertFile conf) (tf_KeyFile conf) (tf_CAFile conf) ''metron'')) (\<lambda>credentials.
          and_then (fatal (''Couldn'' @ [CHR 0x27] @ ''t connect to metric emitter: '')
            (NewClient (te_dial env) (tf_AgentGRPCAddress conf)
              [WithGRPCDialOptions [WithTransportCredentials credentials], WithOrigin ''loggregator.trafficcontroller'',
               WithPulseInterval (tf_MetricEmitterInterval conf), WithSourceID ''traffic_controller''])) (\<lambda>metricClient.
          and_then (uaaHTTPClient (te_build env) conf) (\<lambda>uaa.
          and_then (ccHTTPClient (te_build env) conf) (\<lambda>cc.
          TrafficController_Start env (NewTrafficController conf (tf_DisableAccessControl conf) metricClient uaa cc))))))"

section \<open>Lemmas\<close>

lemma http_clients_Inr:
  "uaaHTTPClient build conf = Inr c \<longleftrightarrow>
     (\<exists>t. build (TlsClient None (tf_UaaCACert conf) None) = Inr t \<and> c = build_client (tf_SkipCertVerify conf) t)"
  "ccHTTPClient build conf = Inr c \<longleftrightarrow>
     (\<exists>t. build (TlsClient (Some (cct_CertFile (tf_CCTLSClientConfig conf), cct_KeyFile (tf_CCTLSClientConfig conf)))
         (cct_CAFile (tf_CCTLSClientConfig conf)) (Some (cct_ServerName (tf_CCTLSClientConfig conf)))) = Inr t \<and>
        c = build_client (tf_SkipCertVerify conf) t)"
  by (auto simp: uaaHTTPClient_def ccHTTPClient_def and_then_Inr Let_def)

text \<open>What a started traffic controller has gone through.\<close>

lemma tc_main_Inr:
  assumes "tc_main env load = Inr t"
  shows "\<exists>conf metricClient uaa cc. tc_LoadConfig load = Inr conf \<and>
    uaaHTTPClient (te_build env) conf = Inr uaa \<and> ccHTTPClient (te_build env) conf = Inr cc \<and>
    TrafficController_Start env (NewTrafficController conf (tf_DisableAccessControl conf) metricClient uaa cc) = Inr t"
  using assms unfolding tc_main_def and_then_Inr by (fastforce simp: and_then_Inr split: sum.splits)

lemma TrafficController_Start_Inr:
  assumes "TrafficController_Start env t = Inr run"
  shows "te_build env (TlsServer (tf_OutgoingCertFile (tc_conf t), tf_OutgoingKeyFile (tc_conf t)) None) = Inr (tr_tls run) \<and>
    tr_handler run now subscribe serve r w log =
      (dopplerHandler env t subscribe serve r w,
       if tf_SecurityEventLog (tc_conf t) \<noteq> []
       then fst (te_Write env log (access_line now r (tf_IP (tc_conf t)) (tf_OutgoingDropsondePort (tc_conf t)))) else log)"
  using assms
  by (auto simp: TrafficController_Start_def startServer_def buildTLSConfig_def and_then_Inr Let_def access_middleware_def
      AccessHandler_ServeHTTP_def LogAccess_def split: if_splits option.splits prod.splits)

text \<open>Without access control nothing is asked, but requests still do not panic.\<close>

lemma proxy_open_no_panic:
  "\<exists>res. DopplerProxy_ServeHTTP la (NewAdminAccessAuthorizer True g) subscribe serve pf cs d True route r w = Inr res"
  by (auto simp: DopplerProxy_ServeHTTP_def AdminAccessMiddleware_Wrap_def NewAdminAccessAuthorizer_def
      disableAdminAccessControlAuthorizer_def split: option.split proxy_route.split)

section \<open>Properties\<close>

text \<open>
  C11. The traffic controller as a program. When \<open>main\<close> gets as far as serving, it serves over TLS; no request panics; with a
  security event log configured every request, authorized or not, has its line handed to the writer of the log
  once, and is served whether or not that write fails; and unless access
  control is switched off, every subscription is for one application for which the configured Cloud Controller has
  confirmed the access of the request's token, or the configured authorization server has confirmed, in the body of its answer,
  that the token has the scope of the firehose. Both are asked over clients that verify certificates unless this is switched off.
\<close>

theorem traffic_controller_program:
  assumes started: "tc_main env load = Inr run"
  shows "\<exists>conf uaaTLS ccTLS res. tc_LoadConfig load = Inr conf \<and>
    te_build env (TlsServer (tf_OutgoingCertFile conf, tf_OutgoingKeyFile conf) None) = Inr (tr_tls run) \<and>
    te_build env (TlsClient None (tf_UaaCACert conf) None) = Inr uaaTLS \<and>
    te_build env (TlsClient (Some (cct_CertFile (tf_CCTLSClientConfig conf), cct_KeyFile (tf_CCTLSClientConfig conf)))
      (cct_CAFile (tf_CCTLSClientConfig conf)) (Some (cct_ServerName (tf_CCTLSClientConfig conf)))) = Inr ccTLS \<and>
    tr_handler run now subscribe serve r w log =
      (Inr res, if tf_SecurityEventLog conf = [] then log
                else fst (te_Write env log (access_line now r (tf_IP conf) (tf_OutgoingDropsondePort conf)))) \<and>
    (\<not> tf_DisableAccessControl conf \<longrightarrow>
     (\<forall>req \<in> set (snd res). let token = getAuthToken r; appID = f_appID (convertFilter req) in
        tc_admin (te_Do env (build_client (tf_SkipCertVerify conf) uaaTLS)) (te_decodeAuth env)
          (NewUaaClient (tf_UaaHost conf) (tf_UaaClient conf) (tf_UaaClientSecret conf)) token \<or>
        is_guid appID \<and> tc_granted (te_Do env (build_client (tf_SkipCertVerify conf) ccTLS)) (tf_ApiHost conf) token appID \<and>
        sr_ShardID req = [] \<and> te_route env r = Some (RouteStream appID)))"
proof -
  from tc_main_Inr [OF started] obtain conf mc uaa cc where conf: "tc_LoadConfig load = Inr conf"
    and clients: "uaaHTTPClient (te_build env) conf = Inr uaa" "ccHTTPClient (te_build env) conf = Inr cc"
    and start: "TrafficController_Start env (NewTrafficController conf (tf_DisableAccessControl conf) mc uaa cc) = Inr run"
    by blast
  note h = TrafficController_Start_Inr [OF start, of now subscribe serve r w log]
  show ?thesis
  proof (cases "tf_DisableAccessControl conf")
    case True
    then show ?thesis
      using conf clients h proxy_open_no_panic [where subscribe = subscribe and serve = serve and r = r and w = w]
      by (fastforce simp: http_clients_Inr NewTrafficController_def dopplerHandler_def Let_def)
  next
    case False
    let ?uaa = "NewUaaClient (tf_UaaHost conf) (tf_UaaClient conf) (tf_UaaClientSecret conf)"
    from proxy_authorized [of "te_validURL env" "te_Do env cc" "te_StatusText env" "tf_ApiHost conf" "te_Do env uaa" "te_ReadAll env"
        "te_decodeError env" "te_decodeAuth env" ?uaa subscribe serve "te_ParseForm env" "te_cookieString env"
        "''doppler.'' @ tf_SystemDomain conf" "te_route env" r w]
    show ?thesis using conf clients h False
      by (fastforce simp: http_clients_Inr NewTrafficController_def dopplerHandler_def Let_def)
  qed
qed

text \<open>A traffic controller with an access log, and a request for the firehose.\<close>

definition example_tc_env :: tc_env where
  "example_tc_env =
     \<lparr>te_build = (\<lambda>_. Inr \<lparr>tls_CipherSuites = [], tls_InsecureSkipVerify = False\<rparr>), te_dial = (\<lambda>_ _. None), te_OpenFile = (\<lambda>_. None), te_Write = (\<lambda>log line. (log @ line, None)),
      te_listen = Inr, te_validURL = (\<lambda>_. True), te_Do = (\<lambda>_ _. Inr \<lparr>hr_StatusCode = 200, hr_Body = ''doppler.firehose''\<rparr>), te_StatusText = (\<lambda>_. []),
      te_ReadAll = (\<lambda>_. None), te_decodeError = (\<lambda>_. Inl []), te_decodeAuth = (\<lambda>body. Inr \<lparr>ad_Scope = [body]\<rparr>),
      te_ParseForm = (\<lambda>_. Inr []), te_cookieString = (\<lambda>_. []), te_route = (\<lambda>_. Some (RouteFirehose ''s''))\<rparr>"

definition example_tc_load :: "tc_Config \<Rightarrow> string + tc_Config" where
  "example_tc_load c =
     Inr (c\<lparr>tf_IP := ''10.0.0.1'', tf_SystemDomain := ''example.com'', tf_CAFile := ''ca'', tf_CertFile := ''crt'', tf_KeyFile := ''key'',
       tf_UaaClientSecret := ''secret'', tf_SecurityEventLog := ''/log'', tf_OutgoingDropsondePort := 8081\<rparr>)"

definition example_firehose_request :: http_request where
  "example_firehose_request =
     \<lparr>rq_Method = ''GET'', rq_Path = ''/firehose/s'', rq_RawQuery = [], rq_Query = [],
      rq_Header = [(''Authorization'', [''bearer t''])], rq_RemoteAddr = [], rq_Cookies = []\<rparr>"

theorem traffic_controller_program_witness:
  "\<exists>run :: (unit, unit) tc_running. tc_main example_tc_env example_tc_load = Inr run \<and>
     snd (tr_handler run 0 (\<lambda>_. Inr ()) (\<lambda>_ w. w) example_firehose_request response_new []) =
       access_line 0 example_firehose_request ''10.0.0.1'' 8081"
proof -
  have load: "tc_LoadConfig example_tc_load = example_tc_load (tc_Config_zero\<lparr>tf_MetricEmitterInterval := 60000000000\<rparr>)"
    by (simp add: tc_LoadConfig_def example_tc_load_def tc_validate_def tc_Config_zero_def)
  then obtain run :: "(unit, unit) tc_running" where run: "tc_main example_tc_env example_tc_load = Inr run"
    by (simp add: tc_main_def example_tc_load_def example_tc_env_def NewClientCredentials_def NewClient_def uaaHTTPClient_def ccHTTPClient_def
        TrafficController_Start_def NewTrafficController_def startServer_def buildTLSConfig_def Let_def)
  have "te_Write example_tc_env log line = (log @ line, None)" for log line by (simp add: example_tc_env_def)
  with load traffic_controller_program [OF run, of 0 "\<lambda>_. Inr ()" "\<lambda>_ w. w" example_firehose_request response_new "[]"] run
  show ?thesis by (auto simp: example_tc_load_def)
qed

end
