(* ===== verification/GatewayFlow.thy ===== *)
theory GatewayFlow
  imports GatewayWeb
begin

text \<open>
  A stream of the gateway while it runs (\<open>rlp-gateway/internal/web/read.go\<close>): the goroutine that receives batches from the
  logs provider and the loop that writes them as server-sent events, under every interleaving; and what the client of
  such a stream reads, by the rules for parsing an event stream.
\<close>

section \<open>The model\<close>

text \<open>
  The goroutine holds a batch (\<open>gp_pending\<close>) until the loop takes it from the channel \<open>data\<close>, which has no buffer, or the
  context is done; \<open>gp_errs\<close> is the channel of errors, which has one place. The context is done when the client
  goes away or when the handler returns. \<open>gp_received\<close> and \<open>gp_cases\<close> record the batches that were received and the
  cases of the \<open>select\<close> that were taken.
\<close>

record gateway_stream =
  gp_pending :: "Envelope list option"
  gp_errs :: "string option"
  gp_receiverEnded :: bool
  gp_clientGone :: bool
  gp_returned :: bool
  gp_writer :: response_writer
  gp_received :: "Envelope list list"
  gp_cases :: "read_event list"

definition ctx_done :: "gateway_stream \<Rightarrow> bool" where
  "ctx_done s \<longleftrightarrow> gp_clientGone s \<or> gp_returned s"

definition gateway_stream_start :: "response_writer \<Rightarrow> gateway_stream" where
  "gateway_stream_start w =
     \<lparr>gp_pending = None, gp_errs = None, gp_receiverEnded = False, gp_clientGone = False, gp_returned = False, gp_writer = w,
      gp_received = [], gp_cases = []\<rparr>"

datatype gateway_event = GwRecv "string + Envelope list option" | GwGiveUp | GwClientGone | GwCase read_event

text \<open>The headers of an event stream, before anything is received.\<close>

definition sse_open :: "response_writer \<Rightarrow> response_writer" where
  "sse_open w =
     rw_Flush (Header_Set ''Connection'' ''keep-alive'' (Header_Set ''Cache-Control'' ''no-cache''
       (Header_Set ''Content-Type'' ''text/event-stream'' w)))"

text \<open>The goroutine: a result of \<open>recv\<close>, and the second case of its \<open>select\<close>. \<open>None\<close> is an event that is not possible.\<close>

definition gateway_recv :: "string + Envelope list option \<Rightarrow> gateway_stream \<Rightarrow> gateway_stream option" where
  "gateway_recv r s =
     (if gp_receiverEnded s \<or> gp_pending s \<noteq> None then None
      else case r of
        Inl err \<Rightarrow>
          (case gp_errs s of
             None \<Rightarrow> Some (s\<lparr>gp_errs := Some err, gp_receiverEnded := True\<rparr>)
           | Some e \<Rightarrow> None)
      | Inr None \<Rightarrow> Some s
      | Inr (Some batch) \<Rightarrow> Some (s\<lparr>gp_pending := Some batch, gp_received := gp_received s @ [batch]\<rparr>))"

definition gateway_give_up :: "gateway_stream \<Rightarrow> gateway_stream option" where
  "gateway_give_up s =
     (if gp_pending s \<noteq> None \<and> ctx_done s then Some (s\<lparr>gp_pending := None, gp_receiverEnded := True\<rparr>) else None)"

text \<open>The cases of the loop that are ready, and those after which the handler returns.\<close>

definition case_ready :: "read_event \<Rightarrow> gateway_stream \<Rightarrow> bool" where
  "case_ready c s =
     (case c of
        ReadDone \<Rightarrow> gp_clientGone s
      | ReadErr err \<Rightarrow> gp_errs s = Some err
      | ReadBatch batch \<Rightarrow> gp_pending s = Some batch
      | _ \<Rightarrow> True)"

definition case_returns :: "(Envelope list \<Rightarrow> string + string) \<Rightarrow> read_event \<Rightarrow> bool" where
  "case_returns Marshal c =
     (case c of
        ReadBatch batch \<Rightarrow> (case Marshal batch of Inl err \<Rightarrow> True | Inr d \<Rightarrow> False)
      | ReadHeartbeat t \<Rightarrow> False
      | _ \<Rightarrow> True)"

definition gateway_case :: "(Envelope list \<Rightarrow> string + string) \<Rightarrow> read_event \<Rightarrow> gateway_stream \<Rightarrow> gateway_stream option" where
  "gateway_case Marshal c s =
     (if gp_returned s \<or> \<not> case_ready c s then None
      else Some (s\<lparr>gp_pending := (case c of ReadBatch batch \<Rightarrow> None | _ \<Rightarrow> gp_pending s),
             gp_errs := (case c of ReadErr err \<Rightarrow> None | _ \<Rightarrow> gp_errs s),
             gp_writer := read_loop Marshal [c] (gp_writer s),
             gp_returned := case_returns Marshal c, gp_cases := gp_cases s @ [c]\<rparr>))"

definition gateway_step :: "(Envelope list \<Rightarrow> string + string) \<Rightarrow> gateway_event \<Rightarrow> gateway_stream \<Rightarrow> gateway_stream option" where
  "gateway_step Marshal ev s =
     (case ev of
        GwRecv r \<Rightarrow> gateway_recv r s
      | GwGiveUp \<Rightarrow> gateway_give_up s
      | GwClientGone \<Rightarrow> Some (s\<lparr>gp_clientGone := True\<rparr>)
      | GwCase c \<Rightarrow> gateway_case Marshal c s)"

fun gateway_run :: "(Envelope list \<Rightarrow> string + string) \<Rightarrow> gateway_event list \<Rightarrow> gateway_stream \<Rightarrow> gateway_stream option" where
  "gateway_run Marshal [] s = Some s"
| "gateway_run Marshal (ev # evs) s = Option.bind (gateway_step Marshal ev s) (gateway_run Marshal evs)"

section \<open>Parsing an event stream\<close>

text \<open>
  The rules of the HTML standard for a body without carriage returns: a line is a field and its value, with one space
  after the colon removed; an empty line dispatches the event if it has data; the default event is a message.
\<close>

definition sse_field :: "string \<Rightarrow> string \<times> string" where
  "sse_field line =
     (let (name, rest) = (takeWhile (\<lambda>c. c \<noteq> CHR '':'') line, dropWhile (\<lambda>c. c \<noteq> CHR '':'') line)
      in (name, trim_prefix (drop 1 rest) '' ''))"

fun sse_lines :: "string \<Rightarrow> string list \<Rightarrow> string list \<Rightarrow> (string \<times> string) list" where
  "sse_lines ev dat [] = []"
| "sse_lines ev dat (line # lines) =
     (if line = [] then
        (if dat = [] then [] else [(if ev = [] then ''message'' else ev, join_with newline dat)]) @ sse_lines [] [] lines
      else
        let (name, v) = sse_field line
        in if name = ''event'' then sse_lines v dat lines
           else if name = ''data'' then sse_lines ev (dat @ [v]) lines
           else sse_lines ev dat lines)"

definition sse_parse :: "string \<Rightarrow> (string \<times> string) list" where
  "sse_parse body = sse_lines [] [] (split_on (CHR 0x0A) body)"

text \<open>The event that each case of the loop stands for.\<close>

definition case_event :: "(Envelope list \<Rightarrow> string + string) \<Rightarrow> read_event \<Rightarrow> (string \<times> string) list" where
  "case_event Marshal c =
     (case c of
        ReadBatch batch \<Rightarrow> (case Marshal batch of Inl err \<Rightarrow> [] | Inr d \<Rightarrow> [(''message'', d)])
      | ReadTimeout \<Rightarrow> [(''closing'', ''closing due to stream timeout'')]
      | ReadHeartbeat t \<Rightarrow> [(''heartbeat'', itoa t)]
      | _ \<Rightarrow> [])"

section \<open>Lemmas\<close>

subsection \<open>The parser\<close>

lemma split_on_append: "c \<notin> set xs \<Longrightarrow> split_on c (xs @ c # ys) = xs # split_on c ys"
  by (induction xs) auto

lemma split_on_none: "c \<notin> set xs \<Longrightarrow> split_on c xs = [xs]"
  by (induction xs) auto

lemma digit_not_newline: "k < 10 \<Longrightarrow> CHR 0x0A \<noteq> char_of (48 + k :: nat)"
proof
  assume k: "k < 10" and "CHR 0x0A = char_of (48 + k)"
  then have "of_char (CHR 0x0A) = (of_char (char_of (48 + k)) :: nat)" by simp
  with k show False by simp
qed

lemma itoa_no_newline [simp]: "CHR 0x0A \<notin> set (itoa t)"
proof -
  have "CHR 0x0A \<notin> set (digits_of_nat n)" for n
  proof (induction n rule: digits_of_nat.induct)
    case (1 n)
    show ?case
    proof (cases "n < 10")
      case True
      then show ?thesis using digit_not_newline [of n] by (subst digits_of_nat.simps) simp
    next
      case False
      then show ?thesis using 1 digit_not_newline [of "n mod 10"] by (subst digits_of_nat.simps) simp
    qed
  qed
  then show ?thesis by (simp add: itoa_def)
qed

lemma sse_field_data: "sse_field (''data: '' @ d) = (''data'', d)" and sse_field_event: "sse_field (''event: '' @ d) = (''event'', d)"
  by (simp_all add: sse_field_def trim_prefix_def has_prefix_def)

lemma sse_parse_data:
  assumes "CHR 0x0A \<notin> set d"
  shows "sse_parse (''data: '' @ d @ newline @ newline @ rest) = (''message'', d) # sse_parse rest"
proof -
  have "split_on (CHR 0x0A) ((''data: '' @ d) @ CHR 0x0A # [] @ CHR 0x0A # rest) = (''data: '' @ d) # [] # split_on (CHR 0x0A) rest"
    by (subst split_on_append, use assms in simp, subst split_on_append, simp_all)
  then show ?thesis using sse_field_data [of d] by (simp add: sse_parse_def newline_def)
qed

lemma sse_parse_event:
  assumes "CHR 0x0A \<notin> set d" "CHR 0x0A \<notin> set ev" "ev \<noteq> []"
  shows "sse_parse (''event: '' @ ev @ newline @ ''data: '' @ d @ newline @ newline @ rest) = (ev, d) # sse_parse rest"
proof -
  have "split_on (CHR 0x0A) ((''event: '' @ ev) @ CHR 0x0A # (''data: '' @ d) @ CHR 0x0A # [] @ CHR 0x0A # rest) =
      (''event: '' @ ev) # (''data: '' @ d) # [] # split_on (CHR 0x0A) rest"
    by (subst split_on_append, use assms in simp, subst split_on_append, use assms in simp, subst split_on_append, simp_all)
  then show ?thesis using sse_field_data [of d] sse_field_event [of ev] assms(3) by (simp add: sse_parse_def newline_def)
qed

subsection \<open>The loop\<close>

text \<open>JSON on one line.\<close>

definition one_line :: "(Envelope list \<Rightarrow> string + string) \<Rightarrow> bool" where
  "one_line Marshal \<longleftrightarrow> (\<forall>batch d. Marshal batch = Inr d \<longrightarrow> CHR 0x0A \<notin> set d)"

text \<open>What a case writes is flushed, and is parsed as its event.\<close>

lemma case_writes:
  assumes "one_line Marshal" and "rw_flushed w = length (rw_body w)"
  shows "\<exists>t. rw_body (read_loop Marshal [c] w) = rw_body w @ t \<and> (\<forall>rest. sse_parse (t @ rest) = case_event Marshal c @ sse_parse rest) \<and>
    rw_flushed (read_loop Marshal [c] w) = length (rw_body (read_loop Marshal [c] w))"
proof (cases c)
  case (ReadBatch batch)
  show ?thesis
  proof (cases "Marshal batch")
    case (Inr d)
    with assms(1) have "CHR 0x0A \<notin> set d" by (auto simp: one_line_def)
    from sse_parse_data [OF this] ReadBatch Inr show ?thesis
      by (intro exI [of _ "''data: '' @ d @ newline @ newline"]) (simp add: rw_Write_def rw_Flush_def WriteHeader_def case_event_def)
  qed (use ReadBatch assms(2) in \<open>simp add: case_event_def\<close>)
next
  case ReadTimeout
  have "CHR 0x0A \<notin> set ''closing due to stream timeout''" "CHR 0x0A \<notin> set ''closing''" "''closing'' \<noteq> []" by code_simp+
  from sse_parse_event [OF this] ReadTimeout show ?thesis
    by (intro exI [of _ "''event: closing'' @ newline @ ''data: closing due to stream timeout'' @ newline @ newline"])
      (simp add: rw_Write_def rw_Flush_def WriteHeader_def case_event_def)
next
  case (ReadHeartbeat t)
  have "CHR 0x0A \<notin> set ''heartbeat''" "''heartbeat'' \<noteq> []" by code_simp+
  from sse_parse_event [OF itoa_no_newline this] ReadHeartbeat show ?thesis
    by (intro exI [of _ "''event: heartbeat'' @ newline @ ''data: '' @ itoa t @ newline @ newline"])
      (simp add: rw_Write_def rw_Flush_def WriteHeader_def case_event_def)
qed (use assms(2) in \<open>simp_all add: case_event_def\<close>)

lemma read_loop_snoc:
  "\<forall>c \<in> set cs. \<not> case_returns Marshal c \<Longrightarrow> read_loop Marshal (cs @ [c']) w = read_loop Marshal [c'] (read_loop Marshal cs w)"
proof (induction cs arbitrary: w)
  case (Cons c cs)
  then show ?case by (cases c) (auto simp: case_returns_def split: sum.splits)
qed simp

definition case_batches :: "read_event list \<Rightarrow> Envelope list list" where
  "case_batches cs = concat (map (\<lambda>c. case c of ReadBatch batch \<Rightarrow> [batch] | _ \<Rightarrow> []) cs)"

lemma case_batches_simps [simp]:
  "case_batches [] = []" "case_batches (cs @ cs') = case_batches cs @ case_batches cs'"
  "case_batches [c] = (case c of ReadBatch batch \<Rightarrow> [batch] | _ \<Rightarrow> [])"
  by (simp_all add: case_batches_def)

definition gateway_inv :: "(Envelope list \<Rightarrow> string + string) \<Rightarrow> response_writer \<Rightarrow> gateway_stream \<Rightarrow> bool" where
  "gateway_inv Marshal w s \<longleftrightarrow>
     (\<forall>c \<in> set (butlast (gp_cases s)). \<not> case_returns Marshal c) \<and>
     (gp_returned s \<longleftrightarrow> gp_cases s \<noteq> [] \<and> case_returns Marshal (last (gp_cases s))) \<and>
     gp_writer s = read_loop Marshal (gp_cases s) w \<and> rw_flushed (gp_writer s) = length (rw_body (gp_writer s)) \<and>
     (\<exists>t. rw_body (gp_writer s) = rw_body w @ t \<and>
        (\<forall>rest. sse_parse (t @ rest) = concat (map (case_event Marshal) (gp_cases s)) @ sse_parse rest)) \<and>
     (\<exists>lost. gp_received s = case_batches (gp_cases s) @ (case gp_pending s of None \<Rightarrow> [] | Some b \<Rightarrow> [b]) @ lost \<and>
        length lost \<le> 1 \<and> (lost \<noteq> [] \<longrightarrow> ctx_done s \<and> gp_receiverEnded s \<and> gp_pending s = None)) \<and>
     (gp_errs s \<noteq> None \<longrightarrow> gp_receiverEnded s) \<and> (gp_receiverEnded s \<longrightarrow> gp_pending s = None)"

lemma gateway_inv_start: "rw_flushed w = length (rw_body w) \<Longrightarrow> gateway_inv Marshal w (gateway_stream_start w)"
  by (simp add: gateway_inv_def gateway_stream_start_def)

lemma gateway_case_inv:
  assumes j: "one_line Marshal" and step: "gateway_case Marshal c s = Some s'" and inv: "gateway_inv Marshal w s"
  shows "gateway_inv Marshal w s'"
proof -
  from step have r: "\<not> gp_returned s" "case_ready c s" and s': "s' = s\<lparr>gp_pending := (case c of ReadBatch batch \<Rightarrow> None | _ \<Rightarrow> gp_pending s),
       gp_errs := (case c of ReadErr err \<Rightarrow> None | _ \<Rightarrow> gp_errs s), gp_writer := read_loop Marshal [c] (gp_writer s),
       gp_returned := case_returns Marshal c, gp_cases := gp_cases s @ [c]\<rparr>"
    by (auto simp: gateway_case_def split: if_splits)
  have nr: "\<forall>c \<in> set (gp_cases s). \<not> case_returns Marshal c"
  proof (cases "gp_cases s = []")
    case False
    then have "set (gp_cases s) = insert (last (gp_cases s)) (set (butlast (gp_cases s)))"
      by (metis append_butlast_last_id list.set(1) list.set(2) set_append sup_commute insert_is_Un)
    with inv r(1) False show ?thesis by (auto simp: gateway_inv_def)
  qed simp
  have wr: "gp_writer s' = read_loop Marshal (gp_cases s') w" using inv read_loop_snoc [OF nr] by (simp add: s' gateway_inv_def)
  from case_writes [OF j, of "gp_writer s" c] inv obtain t where t: "rw_body (gp_writer s') = rw_body (gp_writer s) @ t"
    "\<forall>rest. sse_parse (t @ rest) = case_event Marshal c @ sse_parse rest" "rw_flushed (gp_writer s') = length (rw_body (gp_writer s'))"
    by (auto simp: s' gateway_inv_def)
  from inv obtain t0 where "rw_body (gp_writer s) = rw_body w @ t0"
    "\<forall>rest. sse_parse (t0 @ rest) = concat (map (case_event Marshal) (gp_cases s)) @ sse_parse rest" by (auto simp: gateway_inv_def)
  with t have body: "\<exists>t. rw_body (gp_writer s') = rw_body w @ t \<and>
      (\<forall>rest. sse_parse (t @ rest) = concat (map (case_event Marshal) (gp_cases s')) @ sse_parse rest)"
    by (intro exI [of _ "t0 @ t"]) (simp add: s')
  from inv obtain lost where lost: "gp_received s = case_batches (gp_cases s) @ (case gp_pending s of None \<Rightarrow> [] | Some b \<Rightarrow> [b]) @ lost"
    "length lost \<le> 1" "lost \<noteq> [] \<longrightarrow> ctx_done s \<and> gp_receiverEnded s \<and> gp_pending s = None" by (auto simp: gateway_inv_def)
  have "\<exists>lost. gp_received s' = case_batches (gp_cases s') @ (case gp_pending s' of None \<Rightarrow> [] | Some b \<Rightarrow> [b]) @ lost \<and>
      length lost \<le> 1 \<and> (lost \<noteq> [] \<longrightarrow> ctx_done s' \<and> gp_receiverEnded s' \<and> gp_pending s' = None)"
  proof (cases "\<exists>batch. c = ReadBatch batch")
    case True
    then obtain batch where "c = ReadBatch batch" ..
    with lost r(2) show ?thesis by (intro exI [of _ lost]) (auto simp: s' case_ready_def ctx_done_def)
  next
    case False
    with lost r(1) show ?thesis by (intro exI [of _ lost]) (cases c; auto simp: s' ctx_done_def)
  qed
  with inv nr wr body t(3) show ?thesis by (cases c) (auto simp: gateway_inv_def s' ctx_done_def)
qed

lemma gateway_step_inv:
  assumes j: "one_line Marshal" and step: "gateway_step Marshal ev s = Some s'" and inv: "gateway_inv Marshal w s"
  shows "gateway_inv Marshal w s'"
proof (cases ev)
  case (GwRecv r)
  with step inv show ?thesis
    by (auto simp: gateway_step_def gateway_recv_def gateway_inv_def ctx_done_def split: if_splits sum.splits option.splits)
next
  case GwGiveUp
  with step obtain b where s': "s' = s\<lparr>gp_pending := None, gp_receiverEnded := True\<rparr>" "gp_pending s = Some b" "ctx_done s"
    by (auto simp: gateway_step_def gateway_give_up_def split: if_splits)
  with inv show ?thesis by (auto simp: gateway_inv_def ctx_done_def)
next
  case GwClientGone
  with step have s': "s' = s\<lparr>gp_clientGone := True\<rparr>" by (simp add: gateway_step_def)
  have "ctx_done s \<Longrightarrow> ctx_done s'" by (simp add: s' ctx_done_def)
  with inv show ?thesis by (auto simp: gateway_inv_def s')
next
  case (GwCase c)
  with step gateway_case_inv [OF j _ inv] show ?thesis by (simp add: gateway_step_def)
qed

lemma gateway_run_inv:
  "one_line Marshal \<Longrightarrow> gateway_run Marshal evs s = Some s' \<Longrightarrow> gateway_inv Marshal w s \<Longrightarrow> gateway_inv Marshal w s'"
  by (induction evs arbitrary: s) (auto simp: bind_eq_Some_conv intro: gateway_step_inv)

text \<open>
  The goroutine after the handler has returned: it can receive one more batch at most, since nobody takes it, and nothing more
  is written.
\<close>

definition gateway_room :: "gateway_stream \<Rightarrow> nat" where
  "gateway_room s = (if gp_receiverEnded s \<or> gp_pending s \<noteq> None then 0 else 1)"

lemma gateway_step_returned:
  assumes "gateway_step Marshal ev s = Some s'" and "gp_returned s"
  shows "gp_returned s' \<and> gp_writer s' = gp_writer s \<and> gp_cases s' = gp_cases s \<and>
    length (gp_received s') + gateway_room s' \<le> length (gp_received s) + gateway_room s"
  using assms
  by (cases ev) (auto simp: gateway_step_def gateway_recv_def gateway_give_up_def gateway_case_def gateway_room_def
      split: if_splits sum.splits option.splits)

lemma gateway_run_returned:
  "gateway_run Marshal evs s = Some s' \<Longrightarrow> gp_returned s \<Longrightarrow>
   gp_writer s' = gp_writer s \<and> gp_cases s' = gp_cases s \<and>
   length (gp_received s') + gateway_room s' \<le> length (gp_received s) + gateway_room s"
proof (induction evs arbitrary: s)
  case (Cons ev evs)
  then obtain t where t: "gateway_step Marshal ev s = Some t" "gateway_run Marshal evs t = Some s'" by (auto simp: bind_eq_Some_conv)
  from gateway_step_returned [OF t(1) Cons.prems(2)] Cons.IH [OF t(2)] show ?case by fastforce
qed simp

lemma gateway_received_once_more:
  assumes "gateway_run Marshal evs s = Some s'" and "gp_returned s"
  shows "gp_writer s' = gp_writer s \<and> gp_cases s' = gp_cases s \<and> length (gp_received s') \<le> Suc (length (gp_received s))"
proof -
  have "gateway_room s \<le> 1" by (simp add: gateway_room_def)
  with gateway_run_returned [OF assms] show ?thesis by linarith
qed

text \<open>How the goroutine ends.\<close>

lemma gateway_goroutine_ends:
  assumes "gateway_inv Marshal w s" and "\<not> gp_receiverEnded s"
  shows "gp_pending s = None \<Longrightarrow> \<exists>s'. gateway_recv (Inl err) s = Some s' \<and> gp_receiverEnded s'"
    and "gp_pending s \<noteq> None \<Longrightarrow> gateway_recv r s = None"
    and "gp_pending s \<noteq> None \<Longrightarrow> ctx_done s \<Longrightarrow> \<exists>s'. gateway_give_up s = Some s' \<and> gp_receiverEnded s'"
    and "gp_returned s \<Longrightarrow> gateway_case Marshal c s = None"
  using assms by (auto simp: gateway_inv_def gateway_recv_def gateway_give_up_def gateway_case_def)

text \<open>The answer to a request that opened a stream, and the request for the logs provider.\<close>

lemma gateway_forwards:
  assumes "gateway_ServeHTTP Read IsAuthorized (ReadHandler Stream flusher Marshal evs) r w = (w', reqs)"
    and "req \<in> set reqs" and "Stream req"
  shows "w' = read_loop Marshal evs (sse_open w) \<and> ebr_LegacySelector req = None"
  using assms
  by (auto simp: gateway_ServeHTTP_def Middleware_def Handler_ServeHTTP_def ReadHandler_def sse_open_def Let_def split: if_splits sum.splits)

text \<open>A whole run, from the headers on.\<close>

lemma gateway_stream_ok:
  assumes "one_line Marshal" and "rw_body w = []" and "rw_flushed w = 0"
    and "gateway_run Marshal evs (gateway_stream_start w) = Some s"
  shows "sse_parse (take (rw_flushed (gp_writer s)) (rw_body (gp_writer s))) = concat (map (case_event Marshal) (gp_cases s)) \<and>
    gp_writer s = read_loop Marshal (gp_cases s) w \<and>
    (\<exists>lost. gp_received s = case_batches (gp_cases s) @ (case gp_pending s of None \<Rightarrow> [] | Some b \<Rightarrow> [b]) @ lost \<and>
       length lost \<le> 1 \<and> (lost \<noteq> [] \<longrightarrow> ctx_done s \<and> gp_receiverEnded s)) \<and>
    (gp_returned s \<longrightarrow> (\<forall>evs' s'. gateway_run Marshal evs' s = Some s' \<longrightarrow>
       gp_writer s' = gp_writer s \<and> gp_cases s' = gp_cases s \<and> length (gp_received s') \<le> Suc (length (gp_received s)))) \<and>
    (\<not> gp_receiverEnded s \<longrightarrow>
       (if gp_pending s = None then \<forall>err. \<exists>s'. gateway_recv (Inl err) s = Some s' \<and> gp_receiverEnded s'
        else (ctx_done s \<longrightarrow> (\<exists>s'. gateway_give_up s = Some s' \<and> gp_receiverEnded s')) \<and>
          (\<forall>r. gateway_recv r s = None) \<and> (gp_returned s \<longrightarrow> (\<forall>c. gateway_case Marshal c s = None))))"
proof -
  have inv: "gateway_inv Marshal w s" using gateway_run_inv [OF assms(1,4) gateway_inv_start] assms(2,3) by simp
  then obtain t where t: "rw_body (gp_writer s) = t"
    "\<forall>rest. sse_parse (t @ rest) = concat (map (case_event Marshal) (gp_cases s)) @ sse_parse rest"
    using assms(2) by (auto simp: gateway_inv_def)
  have "sse_parse [] = []" by (simp add: sse_parse_def)
  with t have "sse_parse (rw_body (gp_writer s)) = concat (map (case_event Marshal) (gp_cases s))"
    using append_Nil2 by metis
  moreover have "rw_flushed (gp_writer s) = length (rw_body (gp_writer s))" using inv unfolding gateway_inv_def by blast
  moreover have "\<exists>lost. gp_received s = case_batches (gp_cases s) @ (case gp_pending s of None \<Rightarrow> [] | Some b \<Rightarrow> [b]) @ lost \<and>
       length lost \<le> 1 \<and> (lost \<noteq> [] \<longrightarrow> ctx_done s \<and> gp_receiverEnded s)" and "gp_writer s = read_loop Marshal (gp_cases s) w"
    using inv unfolding gateway_inv_def by blast+
  ultimately show ?thesis using gateway_goroutine_ends [OF inv] gateway_received_once_more [of Marshal _ s] by simp
qed

text \<open>Every message that the client reads is a batch that was received.\<close>

lemma gateway_messages:
  assumes "one_line Marshal" and "rw_body w = []" and "rw_flushed w = 0"
    and "gateway_run Marshal evs (gateway_stream_start w) = Some s"
    and "(''message'', d) \<in> set (sse_parse (rw_body (read_loop Marshal (gp_cases s) w)))"
  shows "\<exists>batch \<in> set (gp_received s). Marshal batch = Inr d"
proof -
  have "gateway_inv Marshal w s" using gateway_run_inv [OF assms(1,4) gateway_inv_start] assms(2,3) by simp
  then have body: "gp_writer s = read_loop Marshal (gp_cases s) w" "rw_flushed (gp_writer s) = length (rw_body (gp_writer s))"
    unfolding gateway_inv_def by blast+
  note ok = gateway_stream_ok [OF assms(1-4)]
  have "take (rw_flushed (gp_writer s)) (rw_body (gp_writer s)) = rw_body (gp_writer s)" by (rule take_all) (use body(2) in linarith)
  with ok have "sse_parse (rw_body (gp_writer s)) = concat (map (case_event Marshal) (gp_cases s))" by metis
  with assms(5) obtain c where c: "c \<in> set (gp_cases s)" "(''message'', d) \<in> set (case_event Marshal c)"
    unfolding body(1) by auto
  then obtain batch where b: "c = ReadBatch batch" "Marshal batch = Inr d"
    by (auto simp: case_event_def split: read_event.splits sum.splits)
  with c(1) have "batch \<in> set (case_batches (gp_cases s))" by (force simp: case_batches_def)
  with ok b(2) show ?thesis by auto
qed

section \<open>Properties\<close>

text \<open>
  C16. The round trip of a stream of the gateway. Take any interleaving of the goroutine that receives, of the loop that
  writes and of a client that may go away, with a JSON encoder that writes one line. The body that the client has by then is
  flushed completely, and parsing it as an event stream gives back exactly the events of the cases that the loop took, in
  order: the batches as messages, the heartbeats with their time, the closing event. The batches that it handled are the first
  of those that were received; of the others, one can wait in the goroutine, and at most one is lost, only after
  the context was done. After the handler has returned nothing more is written, and whatever happens then the goroutine receives
  at most one more batch. The goroutine never blocks on an error: while it holds no batch, any error of the provider ends it
  (the channel of errors has a place); while it holds one it does not receive, it can end as soon as the context is done, and
  once the handler has returned that is the only step it has left, as the loop takes nothing more. (Before the handler returns, a
  goroutine whose context is done may still hand its batch to the loop and go on.)
\<close>

theorem gateway_stream_roundtrip:
  assumes "one_line Marshal" and "rw_body w = []" and "rw_flushed w = 0"
    and "gateway_run Marshal evs (gateway_stream_start w) = Some s"
  shows "sse_parse (take (rw_flushed (gp_writer s)) (rw_body (gp_writer s))) = concat (map (case_event Marshal) (gp_cases s)) \<and>
    gp_writer s = read_loop Marshal (gp_cases s) w \<and>
    (\<exists>lost. gp_received s = case_batches (gp_cases s) @ (case gp_pending s of None \<Rightarrow> [] | Some b \<Rightarrow> [b]) @ lost \<and>
       length lost \<le> 1 \<and> (lost \<noteq> [] \<longrightarrow> ctx_done s \<and> gp_receiverEnded s)) \<and>
    (gp_returned s \<longrightarrow> (\<forall>evs' s'. gateway_run Marshal evs' s = Some s' \<longrightarrow>
       gp_writer s' = gp_writer s \<and> gp_cases s' = gp_cases s \<and> length (gp_received s') \<le> Suc (length (gp_received s)))) \<and>
    (\<not> gp_receiverEnded s \<longrightarrow>
       (if gp_pending s = None then \<forall>err. \<exists>s'. gateway_recv (Inl err) s = Some s' \<and> gp_receiverEnded s'
        else (ctx_done s \<longrightarrow> (\<exists>s'. gateway_give_up s = Some s' \<and> gp_receiverEnded s')) \<and>
          (\<forall>r. gateway_recv r s = None) \<and> (gp_returned s \<longrightarrow> (\<forall>c. gateway_case Marshal c s = None))))"
  by (rule gateway_stream_ok [OF assms])

theorem gateway_stream_roundtrip_witness:
  "\<exists>s. gateway_run (\<lambda>batch. Inr ''{}'')
      [GwRecv (Inr None), GwRecv (Inr (Some [])), GwCase (ReadHeartbeat 12), GwCase (ReadBatch []), GwRecv (Inr (Some [])), GwCase ReadTimeout]
      (gateway_stream_start response_new) = Some s \<and>
    sse_parse (rw_body (gp_writer s)) = [(''heartbeat'', ''12''), (''message'', ''{}''), (''closing'', ''closing due to stream timeout'')] \<and>
    (\<exists>s'. gateway_give_up s = Some s' \<and> gp_receiverEnded s')"
proof -
  let ?M = "\<lambda>batch. Inr ''{}''"
  let ?run = "gateway_run ?M
      [GwRecv (Inr None), GwRecv (Inr (Some [])), GwCase (ReadHeartbeat 12), GwCase (ReadBatch []), GwRecv (Inr (Some [])), GwCase ReadTimeout]
      (gateway_stream_start response_new)"
  have "case ?run of Some s \<Rightarrow> gp_cases s = [ReadHeartbeat 12, ReadBatch [], ReadTimeout] \<and> ctx_done s \<and> \<not> gp_receiverEnded s \<and>
      gp_pending s = Some [] \<and> rw_flushed (gp_writer s) = length (rw_body (gp_writer s)) | None \<Rightarrow> False" by code_simp
  then obtain s where s: "?run = Some s" "gp_cases s = [ReadHeartbeat 12, ReadBatch [], ReadTimeout]" "ctx_done s" "\<not> gp_receiverEnded s"
    "gp_pending s = Some []" "rw_flushed (gp_writer s) = length (rw_body (gp_writer s))" by (auto split: option.splits)
  have "one_line ?M" by (auto simp: one_line_def)
  moreover have "rw_body response_new = []" "rw_flushed response_new = 0" by (simp_all add: response_new_def)
  moreover have "concat (map (case_event ?M) [ReadHeartbeat 12, ReadBatch [], ReadTimeout]) =
      [(''heartbeat'', ''12''), (''message'', ''{}''), (''closing'', ''closing due to stream timeout'')]" by code_simp
  moreover note gateway_stream_roundtrip [of ?M, OF calculation(1,2,3) s(1)]
  ultimately show ?thesis using s by (metis option.distinct(1) order_refl take_all)
qed

end
