(* ===== verification/Confidentiality.thy ===== *)
theory Confidentiality
  imports RouterEnd RlpFlow TcFlow GatewayFlow
begin

text \<open>
  What a stream can hold, from its request to its data: the requests of the streams of a router do not change, what a
  stream is subscribed to is part of its request, and so every envelope that it is sent is one that its request
  names. The root theory puts this together with the authorization of the requests.
\<close>

section \<open>The requests of the streams of a router\<close>

text \<open>
  The streams that were opened keep their requests; the selectors that are still to be subscribed are of the request,
  and those that were subscribed too.
\<close>

definition todo_ok :: "router_stream \<Rightarrow> bool" where
  "todo_ok st \<longleftrightarrow> set (sm_todo st) \<subseteq> set (ebr_Selectors (sm_req st))"

definition reqs_kept :: "router_sys \<Rightarrow> router_sys \<Rightarrow> bool" where
  "reqs_kept s s' \<longleftrightarrow> prefix (map sm_req (rs_streams s)) (map sm_req (rs_streams s')) \<and>
     prefix (map vt_req (rs_v1Streams s)) (map vt_req (rs_v1Streams s'))"

definition obs_named :: "router_sys \<Rightarrow> router_obs \<Rightarrow> bool" where
  "obs_named s x =
     (case x of
        OSubscribed w sel \<Rightarrow> w < length (rs_streams s) \<and> sel \<in> set (ebr_Selectors (sm_req (rs_streams s ! w)))
      | V1Registered w req \<Rightarrow> w < length (rs_v1Streams s) \<and> vt_req (rs_v1Streams s ! w) = req
      | _ \<Rightarrow> True)"

definition step_named :: "router_sys \<Rightarrow> router_sys \<Rightarrow> router_obs list \<Rightarrow> bool" where
  "step_named s s' os \<longleftrightarrow> reqs_kept s s' \<and>
     ((\<forall>st \<in> set (rs_streams s). todo_ok st) \<longrightarrow> (\<forall>st \<in> set (rs_streams s'). todo_ok st) \<and> (\<forall>x \<in> set os. obs_named s' x))"

lemma prefix_map_nth: "prefix (map f xs) (map f ys) \<Longrightarrow> w < length xs \<Longrightarrow> w < length ys \<and> f (ys ! w) = f (xs ! w)"
proof
  assume p: "prefix (map f xs) (map f ys)" and w: "w < length xs"
  then show l: "w < length ys" using prefix_length_le [OF p] by simp
  from p obtain zs where "map f ys = map f xs @ zs" by (auto simp: prefix_def)
  then have "map f ys ! w = map f xs ! w" using w by (simp add: nth_append)
  with w l show "f (ys ! w) = f (xs ! w)" by simp
qed

lemma obs_named_kept: "obs_named s x \<Longrightarrow> reqs_kept s s' \<Longrightarrow> obs_named s' x"
  by (auto simp: obs_named_def reqs_kept_def dest: prefix_map_nth split: router_obs.splits)

text \<open>A step that leaves the streams alone, and one that changes one of them.\<close>

lemma named_same:
  assumes "rs_streams s' = rs_streams s" and "map vt_req (rs_v1Streams s') = map vt_req (rs_v1Streams s)"
    and "\<And>x. x \<in> set os \<Longrightarrow> (\<forall>w sel. x \<noteq> OSubscribed w sel) \<and> (\<forall>w req. x \<noteq> V1Registered w req)"
  shows "step_named s s' os"
  using assms by (auto simp: step_named_def reqs_kept_def obs_named_def split: router_obs.split)

lemma named_update:
  assumes "w < length (rs_streams s)" and "rs_streams s' = (rs_streams s)[w := st']" and "rs_v1Streams s' = rs_v1Streams s"
    and "sm_req st' = sm_req (rs_streams s ! w)" and "set (sm_todo st') \<subseteq> set (sm_todo (rs_streams s ! w))"
    and "\<And>x. x \<in> set os \<Longrightarrow> (\<forall>v sel. x = OSubscribed v sel \<longrightarrow> v = w \<and> sel \<in> set (sm_todo (rs_streams s ! w))) \<and> (\<forall>v req. x \<noteq> V1Registered v req)"
  shows "step_named s s' os"
proof -
  have r: "map sm_req (rs_streams s') = map sm_req (rs_streams s)"
    using assms(1,2,4) by (simp add: map_update) (metis list_update_id length_map nth_map)
  have "todo_ok st" if "\<forall>st \<in> set (rs_streams s). todo_ok st" "st \<in> set (rs_streams s')" for st
    using that assms(1,2,4,5) nth_mem [OF assms(1)] by (fastforce simp: todo_ok_def dest!: set_update_subset_insert [THEN subsetD])
  moreover have "obs_named s' x" if "\<forall>st \<in> set (rs_streams s). todo_ok st" "x \<in> set os" for x
    using that(1) assms(1,2,4) assms(6) [OF that(2)] nth_mem [OF assms(1)] by (fastforce simp: todo_ok_def obs_named_def split: router_obs.split)
  ultimately show ?thesis using r assms(3) by (simp add: step_named_def reqs_kept_def)
qed

text \<open>Every step of the router.\<close>

lemma router_repeat_named: "router_repeat r rand s = Some (Inr (s', os)) \<Longrightarrow> step_named s s' os"
proof (cases "rs_repeater s")
  case RPoll
  assume "router_repeat r rand s = Some (Inr (s', os))"
  with RPoll show ?thesis
    by (intro named_same) (auto simp: router_repeat_def repeater_poll_def Let_def split: sum.splits option.splits)
next
  case (RPublish e)
  assume "router_repeat r rand s = Some (Inr (s', os))"
  with RPublish show ?thesis by (intro named_same) (auto simp: router_repeat_def dest!: map_sum_Inr)
next
  case (RSet cs)
  assume step: "router_repeat r rand s = Some (Inr (s', os))"
  show ?thesis
  proof (cases cs)
    case Nil
    with step RSet show ?thesis by (intro named_same) (auto simp: router_repeat_def)
  next
    case (Cons c cs')
    obtain w e where c: "c = (w, e)" by (cases c)
    from step RSet Cons c obtain d where w: "w < length (rs_streams s)" and s': "os = []"
      "s' = s\<lparr>rs_repeater := RSet cs', rs_streams := (rs_streams s)[w := (rs_streams s ! w)\<lparr>sm_diode := d\<rparr>]\<rparr>"
      by (auto simp: router_repeat_def repeater_set_def dest!: map_sum_Inr split: if_splits sum.splits)
    have "rs_streams s' = (rs_streams s)[w := (rs_streams s ! w)\<lparr>sm_diode := d\<rparr>]" by (simp add: s')
    then show ?thesis by (rule named_update [OF w]) (simp_all add: s')
  qed
qed

lemma router_stream_named:
  "router_subscribe w r s = Some (Inr (s', os)) \<Longrightarrow> step_named s s' os"
  "router_unsubscribe w s = Inr (s', os) \<Longrightarrow> step_named s s' os"
  "router_read w s = Inr (s', os) \<Longrightarrow> step_named s s' os"
  "step_named s (router_open req s) []"
proof -
  have id: "step_named s s []" by (rule named_same) simp_all
  show "step_named s s' os" if "router_subscribe w r s = Some (Inr (s', os))"
  proof (cases "w < length (rs_streams s) \<and> \<not> locked s \<and> sm_todo (rs_streams s ! w) \<noteq> []")
    case True
    then obtain sel todo where t: "sm_todo (rs_streams s ! w) = sel # todo" by (cases "sm_todo (rs_streams s ! w)") auto
    with that True obtain hs n where s': "s' = s\<lparr>rs_pubsub := n, rs_streams := (rs_streams s)[w := (rs_streams s ! w)\<lparr>sm_todo := todo,
          sm_handles := sm_handles (rs_streams s ! w) @ hs\<rparr>]\<rparr>" "os = (if Selector_Message sel = None then [] else [OSubscribed w sel])"
      by (auto simp: router_subscribe_def Let_def dest!: map_sum_Inr)
    then have "rs_streams s' = (rs_streams s)[w := (rs_streams s ! w)\<lparr>sm_todo := todo, sm_handles := sm_handles (rs_streams s ! w) @ hs\<rparr>]" by simp
    then show ?thesis by (rule named_update [rotated]) (use True t s' in \<open>auto split: if_splits\<close>)
  next
    case False
    with that id show ?thesis by (auto simp: router_subscribe_def Let_def split: if_splits list.splits)
  qed
  show "step_named s s' os" if u: "router_unsubscribe w s = Inr (s', os)"
  proof (cases "w < length (rs_streams s) \<and> \<not> locked s \<and> sm_todo (rs_streams s ! w) = [] \<and> sm_handles (rs_streams s ! w) \<noteq> []")
    case True
    then obtain h hs where "sm_handles (rs_streams s ! w) = h # hs" by (cases "sm_handles (rs_streams s ! w)") auto
    with u True obtain n where s': "s' = s\<lparr>rs_pubsub := n, rs_streams := (rs_streams s)[w := (rs_streams s ! w)\<lparr>sm_handles := hs\<rparr>]\<rparr>"
      "os = [OUnsubscribed w]"
      by (auto simp: router_unsubscribe_def Let_def dest!: map_sum_Inr)
    then have "rs_streams s' = (rs_streams s)[w := (rs_streams s ! w)\<lparr>sm_handles := hs\<rparr>]" by simp
    then show ?thesis by (rule named_update [rotated]) (use True s' in auto)
  next
    case False
    with u id show ?thesis by (auto simp: router_unsubscribe_def Let_def split: if_splits list.splits)
  qed
  show "step_named s s' os" if rd: "router_read w s = Inr (s', os)"
  proof (cases "w < length (rs_streams s)")
    case True
    with rd obtain d data al where s': "s' = s\<lparr>rs_streams := (rs_streams s)[w := (rs_streams s ! w)\<lparr>sm_diode := d\<rparr>],
        rs_droppedEgress := alerted al (rs_droppedEgress s)\<rparr>"
      "os = map (OEgressDropped w) al @ (case data of Some (Some e) \<Rightarrow> [OGot w e] | _ \<Rightarrow> [])"
      by (auto simp: router_read_def Let_def split: sum.splits prod.splits)
    then have "rs_streams s' = (rs_streams s)[w := (rs_streams s ! w)\<lparr>sm_diode := d\<rparr>]" by simp
    then show ?thesis by (rule named_update [OF True]) (use s' in \<open>auto split: option.splits\<close>)
  next
    case False
    with rd id show ?thesis by (simp add: router_read_def)
  qed
  show "step_named s (router_open req s) []"
    by (auto simp: step_named_def reqs_kept_def router_open_def todo_ok_def)
qed

lemma router_v1_named:
  "router_route cd rand s = Inr (s', os) \<Longrightarrow> step_named s s' os"
  "v1_open req s = Inr s1 \<Longrightarrow> step_named s s1 []"
  "v1_cleanup w s = (s', os) \<Longrightarrow> step_named s s' os"
  "v1_read w s = Inr (s', os) \<Longrightarrow> step_named s s' os"
  "v1_register w s = (s', os) \<Longrightarrow> step_named s s' os"
proof -
  have up: "map vt_req (sts[w := st]) = map vt_req sts" if "vt_req st = vt_req (sts ! w)" for sts :: "v1_stream list" and w st
    using that by (cases "w < length sts") (auto simp: map_update list_update_beyond, metis list_update_id nth_map)
  show "step_named s s' os" if "router_route cd rand s = Inr (s', os)"
    using that
    by (intro named_same)
      (auto simp: router_route_def message_router_poll_def message_router_set_def Let_def up dest!: map_sum_Inr
        split: message_router_pc.splits list.splits sum.splits option.splits prod.splits if_splits)
  show "step_named s s1 []" if "v1_open req s = Inr s1"
    using that by (auto simp: v1_open_def step_named_def reqs_kept_def split: sum.splits)
  show "step_named s s' os" if "v1_cleanup w s = (s', os)"
    using that by (intro named_same) (auto simp: v1_cleanup_def Let_def up split: if_splits)
  show "step_named s s' os" if "v1_read w s = Inr (s', os)"
    using that by (intro named_same) (auto simp: v1_read_def Let_def up split: if_splits sum.splits prod.splits option.splits)
  show "step_named s s' os" if "v1_register w s = (s', os)"
    using that by (auto simp: v1_register_def step_named_def reqs_kept_def obs_named_def Let_def up split: if_splits)
qed

lemma router_input_named:
  "router_ingest cd es s = Some (Inr (s', os)) \<Longrightarrow> step_named s s' os"
  "router_push cd payload s = Some (Inr (s', os)) \<Longrightarrow> step_named s s' os"
  by (auto simp: router_ingest_def router_push_def intro!: named_same dest!: map_sum_Inr split: prod.splits option.splits)

lemma router_step_named: "router_step cd ev s = Some (Inr (s', os)) \<Longrightarrow> step_named s s' os"
  by (cases ev)
    (auto simp: router_step_def intro: router_input_named router_repeat_named router_stream_named router_v1_named dest!: map_sum_Inr)

lemma router_run_named:
  assumes "router_run cd evs s = Some (Inr (s', os))" and "\<forall>st \<in> set (rs_streams s). todo_ok st"
  shows "reqs_kept s s' \<and> (\<forall>x \<in> set os. obs_named s' x)"
  using assms
proof (induction evs arbitrary: s os)
  case (Cons ev evs)
  then obtain s1 os1 os2 where st: "router_step cd ev s = Some (Inr (s1, os1))"
    and run: "router_run cd evs s1 = Some (Inr (s', os2))" "os = os1 @ os2"
    by (auto split: option.splits sum.splits prod.splits dest!: map_sum_Inr)
  from router_step_named [OF st] Cons.prems(2) have 1: "reqs_kept s s1" "\<forall>st \<in> set (rs_streams s1). todo_ok st"
    "\<forall>x \<in> set os1. obs_named s1 x" by (simp_all add: step_named_def)
  from Cons.IH [OF run(1) 1(2)] 1 run(2) show ?case
    by (auto simp: reqs_kept_def intro: prefix_order.trans obs_named_kept [unfolded reqs_kept_def])
qed (simp add: reqs_kept_def)

section \<open>What a stream of a router is sent\<close>

lemma subseq_in_set: "subseq xs ys \<Longrightarrow> x \<in> set xs \<Longrightarrow> x \<in> set ys"
  using list_emb_set [of "(=)" xs ys x] by blast

lemma wanted_from_named:
  assumes "e \<in> set (wanted_from w ss os)" and "set ss \<subseteq> S" and "\<And>sel. OSubscribed w sel \<in> set os \<Longrightarrow> sel \<in> S"
  shows "\<exists>sel \<in> S. selector_asks e sel"
  using assms
proof (induction os arbitrary: ss)
  case (Cons x os)
  show ?case
  proof (cases "e \<in> set (wanted_from w (selectors_step w ss x) os)")
    case True
    have "set (selectors_step w ss x) \<subseteq> S"
      using Cons.prems(2,3) by (auto simp: selectors_step_def dest: list.set_sel(2) split: router_obs.splits) (metis list.set_sel(2) subsetD tl_Nil)
    from Cons.IH [OF True this] Cons.prems(3) show ?thesis by simp
  next
    case False
    with Cons.prems(1) have "e \<in> set (replicate (asked ss e) e)" by (auto split: router_obs.splits)
    then have "filter (selector_asks e) ss \<noteq> []" by (auto simp: asked_def)
    with Cons.prems(2) show ?thesis by (auto simp: filter_empty_conv)
  qed
qed simp

lemma v1_asked_set:
  "data \<in> set (v1_asked cd st e) \<longleftrightarrow>
     st \<noteq> None \<and> filter_matches (getAppId e) e (convertFilter (the st)) \<and> cd_marshal cd e = Some data"
proof (cases st)
  case (Some req)
  have "data \<in> set (if b then case cd_marshal cd e of None \<Rightarrow> [] | Some data \<Rightarrow> [data] else []) \<longleftrightarrow> b \<and> cd_marshal cd e = Some data" for b
    by (cases b; cases "cd_marshal cd e") auto
  then show ?thesis by (simp only: v1_asked_def Some option.case option.sel option.simps simp_thms)
qed (simp add: v1_asked_def)

lemma v1_wanted_from_named:
  assumes "data \<in> set (v1_wanted_from cd w st os)" and "st = None \<or> st = Some req" and "\<And>r. V1Registered w r \<in> set os \<Longrightarrow> r = req"
  shows "\<exists>e. cd_marshal cd e = Some data \<and> filter_matches (getAppId e) e (convertFilter req)"
  using assms
proof (induction os arbitrary: st)
  case (Cons x os)
  show ?case
  proof (cases "data \<in> set (v1_wanted_from cd w (registered_step w st x) os)")
    case True
    have "registered_step w st x = None \<or> registered_step w st x = Some req"
      using Cons.prems(2,3) by (auto simp: registered_step_def split: router_obs.splits)
    from Cons.IH [OF True this] Cons.prems(3) show ?thesis by simp
  next
    case False
    with Cons.prems(1) obtain e where "data \<in> set (v1_asked cd st e)" by (auto split: router_obs.splits)
    with Cons.prems(2) show ?thesis by (auto simp: v1_asked_set)
  qed
qed simp

text \<open>
  A run of a router serves a request with some batches: a stream that was opened with the request has sent them.
\<close>

definition router_serves_request :: "EgressBatchRequest \<Rightarrow> Envelope list list \<Rightarrow> bool" where
  "router_serves_request req batches \<longleftrightarrow>
     (\<exists>metricClient c cd evs s0 s os w toUint64 one sz interval now egress subs cs st.
        run_bounds c cd evs \<and> (\<forall>ev \<in> set evs. draws_ok ev) \<and>
        Router_Start metricClient c = Inr s0 \<and> router_run cd evs s0 = Some (Inr (s, os)) \<and>
        w < length (rs_streams s) \<and> sm_req (rs_streams s ! w) = req \<and>
        BatchedReceiver_loop toUint64 one cs (BatchedReceiver_start toUint64 one sz interval now egress subs) = Some st \<and>
        prefix (st_got st) (got w os) \<and> batches = st_sent st)"

definition router_v1_serves_request :: "codec \<Rightarrow> SubscriptionRequest \<Rightarrow> bytes list list \<Rightarrow> bool" where
  "router_v1_serves_request cd req batches \<longleftrightarrow>
     (\<exists>metricClient c evs s0 s os w toUint64 one sz interval now rds r egress subs st.
        run_bounds c cd evs \<and> (\<forall>ev \<in> set evs. draws_ok ev) \<and>
        Router_Start metricClient c = Inr s0 \<and> router_run cd evs s0 = Some (Inr (s, os)) \<and>
        w < length (rs_v1Streams s) \<and> vt_req (rs_v1Streams s ! w) = req \<and>
        st = snd (DopplerServer_BatchSubscribe toUint64 one sz interval now req w rds (r, egress, subs)) \<and>
        prefix (st_got st) (v1_got w os) \<and> batches = st_sent st)"

lemma Router_Start_streams: "Router_Start metricClient c = Inr s0 \<Longrightarrow> rs_streams s0 = [] \<and> rs_v1Streams s0 = []"
  by (auto simp: Router_Start_def Let_def split: sum.splits)

lemma router_serves_only_named:
  assumes "router_serves_request req batches" and "e \<in> set (concat batches)"
  shows "\<exists>sel \<in> set (ebr_Selectors req). selector_asks e sel"
proof -
  from assms(1) obtain metricClient c cd evs s0 s os w toUint64 one sz interval now egress subs cs st where
    run: "run_bounds c cd evs" "\<forall>ev \<in> set evs. draws_ok ev" "Router_Start metricClient c = Inr s0" "router_run cd evs s0 = Some (Inr (s, os))"
    and w: "w < length (rs_streams s)" "sm_req (rs_streams s ! w) = req"
    and st: "BatchedReceiver_loop toUint64 one cs (BatchedReceiver_start toUint64 one sz interval now egress subs) = Some st"
      "prefix (st_got st) (got w os)" "batches = st_sent st"
    unfolding router_serves_request_def by blast
  have "subseq (concat batches) (RouterRun.wanted w os)" using stream_sends_wanted [OF run st(1,2)] st(3) by simp
  with assms(2) have "e \<in> set (wanted_from w [] os)" unfolding RouterRun.wanted_def by (metis subseq_in_set)
  moreover have "\<forall>x \<in> set os. obs_named s x" using router_run_named [OF run(4)] Router_Start_streams [OF run(3)] by simp
  ultimately show ?thesis using w(2) by (intro wanted_from_named [of e w "[]" os]) (force simp: obs_named_def)+
qed

lemma router_v1_serves_only_named:
  assumes "router_v1_serves_request cd req batches" and "data \<in> set (concat batches)"
  shows "\<exists>e. cd_marshal cd e = Some data \<and> filter_matches (getAppId e) e (convertFilter req)"
proof -
  from assms(1) obtain metricClient c evs s0 s os w f one sz interval now rds r egress subs where
    run: "run_bounds c cd evs" "\<forall>ev \<in> set evs. draws_ok ev" "Router_Start metricClient c = Inr s0" "router_run cd evs s0 = Some (Inr (s, os))"
    and w: "w < length (rs_v1Streams s)" "vt_req (rs_v1Streams s ! w) = req"
    and st: "prefix (st_got (snd (DopplerServer_BatchSubscribe f one sz interval now req w rds (r, egress, subs)))) (v1_got w os)"
      "batches = st_sent (snd (DopplerServer_BatchSubscribe f one sz interval now req w rds (r, egress, subs)))"
    unfolding router_v1_serves_request_def by blast
  have "router_v1_serves batches (v1_wanted cd w os)"
    using router_v1_servesI [OF run w(1) st(1) [folded w(2)]] unfolding w(2) st(2) .
  from router_v1_serves_wanted [OF this] assms(2) have "data \<in> set (v1_wanted_from cd w None os)" unfolding v1_wanted_def by (rule subseq_in_set)
  moreover have "\<forall>x \<in> set os. obs_named s x" using router_run_named [OF run(4)] Router_Start_streams [OF run(3)] by simp
  ultimately show ?thesis using w(2) by (intro v1_wanted_from_named [of data cd w None os]) (force simp: obs_named_def)+
qed

section \<open>Through the reverse log proxy and the traffic controller\<close>

lemma preferred_tags_keep: "convergeTags sf p e = Inr e' \<Longrightarrow> SourceId e' = SourceId e \<and> Message e' = Message e"
  by (auto simp: convergeTags_def split: if_splits sum.splits)

lemma selector_asks_converged: "convergeTags sf p e = Inr e' \<Longrightarrow> selector_asks e' sel = selector_asks e sel"
  using preferred_tags_keep [of sf p e e'] by (simp add: selector_asks_def source_matches_def split: option.splits)

lemma rlp_sends_only_named:
  assumes run: "rlp_plane_run sf f one b p evs (plane_start f one now m maxStreams) = Some (Inr (s, os))"
    and routers: "\<forall>k < length (pl_readers s). router_serves_request req (batches k)"
    and grpc: "\<forall>k < length (pl_readers s). prefix (received_from k os) (concat (batches k))"
    and e: "e \<in> set (concat (st_sent (rl_stream (pl_stream s))))"
  shows "\<exists>sel \<in> set (ebr_Selectors req). selector_asks e sel"
proof -
  from plane_flow [OF run] obtain taken where t: "map Inr taken = map (convergeTags sf p \<circ> snd) (yields os)"
    "subseq (concat (st_sent (rl_stream (pl_stream s)))) taken" by blast
  have "Inr e \<in> set (map (convergeTags sf p \<circ> snd) (yields os))" unfolding t(1) [symmetric] using subseq_in_set [OF t(2) e] by simp
  then obtain k e0 where y: "(k, e0) \<in> set (yields os)" "convergeTags sf p e0 = Inr e" by auto
  have k: "k < length (pl_readers s)" "e0 \<in> set (received_from k os)"
    using rlp.yields_from_readers [OF run [unfolded rlp_plane_run_def plane_start_def] y(1)] by simp_all
  then have "e0 \<in> set (concat (batches k))" using grpc by (metis set_mono_prefix subsetD)
  from router_serves_only_named [OF routers [rule_format, OF k(1)] this] selector_asks_converged [OF y(2)] show ?thesis by simp
qed

lemma ws_sends_only_named:
  assumes run: "tc_plane_run r url evs (tc_plane_start m server egressMetric upgraded) = Some (Inr (s, os))"
    and routers: "\<forall>k < length (pl_readers s). router_v1_serves_request cd req (batches k)"
    and grpc: "\<forall>k < length (pl_readers s). prefix (received_from k os) (concat (batches k))"
    and payload: "payload \<in> set (ws_written (pl_stream s))"
  shows "\<exists>e. cd_marshal cd e = Some payload \<and> filter_matches (getAppId e) e (convertFilter req)"
proof -
  have "prefix (ws_written (pl_stream s)) (map snd (yields os))" using tc_flow [OF run] by (simp add: Let_def)
  with payload have "payload \<in> set (map snd (yields os))" by (metis set_mono_prefix subsetD)
  then obtain k where y: "(k, payload) \<in> set (yields os)" by auto
  have k: "k < length (pl_readers s)" "payload \<in> set (received_from k os)"
    using ws.yields_from_readers [OF run [unfolded tc_plane_run_def tc_plane_start_def] y] by simp_all
  then have "payload \<in> set (concat (batches k))" using grpc by (metis set_mono_prefix subsetD)
  from router_v1_serves_only_named [OF routers [rule_format, OF k(1)] this] show ?thesis .
qed

lemma rlp_request_selectors:
  "rlp_BatchedReceiver_request subCount req srv = (srv', Inr req') \<Longrightarrow> ebr_LegacySelector req = None \<Longrightarrow> ebr_Selectors req' = ebr_Selectors req"
  by (auto simp: rlp_BatchedReceiver_request_def convergeSelectors_def Let_def split: prod.splits option.splits)

section \<open>Examples\<close>

lemma source_log_served: "router_serves_request (log_request [] src) [[source_log src]]"
proof -
  obtain s0 s where run: "Router_Start example_client example_config = Inr s0"
    "router_run example_codec (source_events src) s0 = Some (Inr (s, source_obs src))"
    and w: "0 < length (rs_streams s)" "sm_req (rs_streams s ! 0) = log_request [] src"
    using router_example_run [of src] by (metis zero_less_one)
  show ?thesis unfolding router_serves_request_def
    by (rule exI conjI example_bounds run w example_receiver)+ (simp_all add: source_obs_def obs_simps)
qed

lemma app_data_served:
  assumes "app \<noteq> []"
  shows "router_v1_serves_request (app_codec app) (app_request app) [[[1]]]"
proof -
  obtain s0 s where run: "Router_Start example_client example_config = Inr s0"
    "router_run (app_codec app) (app_events app) s0 = Some (Inr (s, app_obs app))"
    and w: "0 < length (rs_v1Streams s)" "vt_req (rs_v1Streams s ! 0) = app_request app"
    using router_v1_example_run [OF assms] by (metis zero_less_one)
  show ?thesis unfolding router_v1_serves_request_def
    by (rule exI conjI example_v1_bounds run w app_batches_prefix app_batches_def)+ (simp_all add: app_batches_sent)
qed

definition example_guid :: string where
  "example_guid = ''11111111-1111-1111-1111-111111111111''"

definition example_read :: http_request where
  "example_read =
     \<lparr>rq_Method = ''GET'', rq_Path = ''/v2/read'', rq_RawQuery = [], rq_Query = [(''log'', [[]]), (''source_id'', [example_guid])],
      rq_Header = [(''Authorization'', [''bearer t''])], rq_RemoteAddr = [], rq_Cookies = []\<rparr>"

text \<open>An encoder of one batch.\<close>

definition example_json :: "Envelope list \<Rightarrow> Envelope list \<Rightarrow> string + string" where
  "example_json known batch = (if batch = known then Inr ''{}'' else Inl ''unknown'')"

text \<open>One log of a source through the reverse log proxy and the gateway.\<close>

definition example_batch :: "Envelope list" where
  "example_batch = [(source_log example_guid)\<lparr>Tags := Some []\<rparr>]"

definition example_rlp_events :: "(Envelope, rlp_event) plane_event list" where
  "example_rlp_events = [Connect, Receive 0 (Inr [source_log example_guid]), Put 0, Put 0, Yield, Serve (Case (FromBuffer (0, 0, None))),
     Serve (Case (FromTimer 100000000 100000000 None))]"

lemma example_rlp_run:
  "\<exists>s os. rlp_plane_run (\<lambda>_. []) (\<lambda>x. x) 1 True (ebr_UsePreferredTags (log_request [] example_guid)) example_rlp_events
      (plane_start (\<lambda>x. x) 1 0 example_client 500) = Some (Inr (s, os)) \<and>
    length (pl_readers s) = 1 \<and> received_from 0 os = [source_log example_guid] \<and> st_sent (rl_stream (pl_stream s)) = [example_batch]"
proof -
  have "case rlp_plane_run (\<lambda>_. []) (\<lambda>x. x) 1 True (ebr_UsePreferredTags (log_request [] example_guid)) example_rlp_events
      (plane_start (\<lambda>x. x) 1 0 example_client 500) of Some (Inr (s, os)) \<Rightarrow>
    length (pl_readers s) = 1 \<and> received_from 0 os = [source_log example_guid] \<and> st_sent (rl_stream (pl_stream s)) = [example_batch]
    | _ \<Rightarrow> False" by code_simp
  then show ?thesis by (auto split: option.splits sum.splits)
qed

definition example_gateway_events :: "gateway_event list" where
  "example_gateway_events = [GwCase (ReadHeartbeat 1), GwRecv (Inr (Some example_batch)), GwCase (ReadBatch example_batch)]"

lemma example_gateway_run:
  "\<exists>g. gateway_run (example_json example_batch) example_gateway_events (gateway_stream_start (sse_open response_new)) = Some g \<and>
    gp_cases g = [ReadHeartbeat 1, ReadBatch example_batch] \<and> gp_received g = [example_batch]"
proof -
  have "case gateway_run (example_json example_batch) example_gateway_events (gateway_stream_start (sse_open response_new)) of
    Some g \<Rightarrow> gp_cases g = [ReadHeartbeat 1, ReadBatch example_batch] \<and> gp_received g = [example_batch] | None \<Rightarrow> False" by code_simp
  then show ?thesis by (auto split: option.splits)
qed

end
