(* ===== verification/Spec2Isabelle.thy ===== *)
theory Spec2Isabelle
  imports Prelude Transport Diodes PubSub Envelopes EnvelopeTraverser RouterV2 Metrics DiodeWriters DiodeReaders Batching ServersV2 RouterV1
    Fanout RouterApp RouterRun RouterRunV1 RouterEnd Connector Pools RlpEgress FanIn RlpFlow Http GatewayAuth GatewayWeb TcAuth TcProxy Apps
    RouterProgram GatewayApp TcMetrics TcFlow TcApp GatewayFlow
    Confidentiality
begin

text \<open>
  A verification development of Loggregator (Cloud Foundry's log and metric transport). Paths below are
  relative to \<open>src/src\<close>; \<open>go-diodes\<close>, \<open>go-pubsub\<close> and \<open>go-batching\<close> are the first-party packages under
  \<open>vendor/code.cloudfoundry.org\<close> that carry its concurrent data structures.

  \<^bold>\<open>The program.\<close> Agents send envelopes (logs, counters, gauges, timers, events) to \<^emph>\<open>routers\<close> (dopplers). A
  router puts them into lossy ring buffers (diodes); one goroutine reads them and publishes each envelope to
  a tree of subscriptions; every subscriber has a diode of its own, from which batches are sent over gRPC. Two
  kinds of programs subscribe to all routers: the \<^emph>\<open>reverse log proxy\<close> (v2) and the \<^emph>\<open>traffic controller\<close> (v1,
  web sockets). A connector keeps a stream from every consumer to every router that a finder names, over a
  pool of connections. The \<^emph>\<open>gateway\<close> offers the streams of the reverse log proxy over HTTP. The gateway
  and the traffic controller ask the UAA and the Cloud Controller what a token may read.

  \<^bold>\<open>Theories, in the order of the data flow.\<close>

  \<^item> \<open>Prelude\<close>: Go types, maps, panics, and the generic lemmas on words, lists and maps.
  \<^item> \<open>Transport\<close> (\<open>plumbing/tls.go\<close>, \<open>plumbing/logwriter.go\<close>): credentials, gRPC options, HTTP clients, log output, and how a
    program ends at start-up.
  \<^item> \<open>Diodes\<close> (\<open>go-diodes/one_to_one.go\<close>, \<open>many_to_one.go\<close>): both ring buffers with their panics and wrap-around.
    The locale \<open>diode\<close> states what a reader and a writer may rely on and derives that reads are a subsequence of
    writes, that the alerts account for the rest, and FIFO order while the reader keeps up; it is
    interpreted on both buffers. The writers of \<open>ManyToOne\<close> are also modelled as interleaved atomic steps;
    \<open>DiodeWriters\<close> shows that a writer that runs alone completes its call.
  \<^item> \<open>DiodeReaders\<close> (\<open>poller.go\<close>, \<open>waiter.go\<close>, \<open>diodes/*.go\<close>): blocking reads and the typed diodes; no lost wake-up.
  \<^item> \<open>PubSub\<close> (\<open>go-pubsub\<close>): the subscription tree. The locale \<open>subscription_store\<close> is the contract of a store
    of subscriptions; the tree and, in \<open>RouterV1\<close>, the v1 router are its instances. Deterministic routing is stated for
    publishing on two trees with different histories.
  \<^item> \<open>Envelopes\<close>, \<open>EnvelopeTraverser\<close>, \<open>RouterV2\<close> (\<open>router/internal/server/v2\<close>): the v2 data model, how an envelope
    is led through the tree, subscriptions by selector, publishing, sharding.
  \<^item> \<open>Metrics\<close> (\<open>metricemitter\<close>, \<open>plumbing/envelope_averager.go\<close>): counters, gauges, the averager.
  \<^item> \<open>Batching\<close>, \<open>ServersV2\<close>: the batcher and the v2 ingress and egress servers and the repeater.
  \<^item> \<open>RouterV1\<close> (\<open>router/internal/server/v1\<close>, \<open>sinks\<close>): the v1 router, its servers and the message router.
  \<^item> \<open>RouterApp\<close> (\<open>router/app\<close>, \<open>router/main.go\<close>): the configuration of the router and the composition of both its
    paths. Its state holds the ingress server, the tree, the v1 router, the positions of the repeater and of the message
    router and one diode per stream; a run is any interleaving of their atomic steps. \<open>Fanout\<close> has the lemmas on one
    writer and many diodes, \<open>RouterRun\<close> and \<open>RouterRunV1\<close> the invariants of the two paths, \<open>RouterEnd\<close> their properties.
  \<^item> \<open>Connector\<close>, \<open>Pools\<close> (\<open>plumbing\<close>, \<open>rlp/internal/ingress\<close>): the connectors as a step relation over a heap of
    clients and consumers, and both connection pools. The locale \<open>doppler_pool\<close> is the contract of a pool that is called while goroutines
    still connect: only registered addresses can be subscribed to, and all of them once the goroutines have ended. It is
    interpreted on both pools, for the traffic controller's with the restriction that an address is not closed while a goroutine
    connects to it.
  \<^item> \<open>FanIn\<close> (\<open>plumbing/grpc_connector.go\<close>, \<open>rlp/internal/ingress/grpc_connector.go\<close>): the data plane of one subscription, that
    is the readers of all routers and the bounded channel of the consumer. The locale \<open>receiver\<close> is the contract of a
    consumer; \<open>RlpFlow\<close> interprets it on the egress server and \<open>TcFlow\<close> on the web socket.
  \<^item> \<open>RlpEgress\<close> (\<open>rlp/internal/egress/server.go\<close>): admission, tags and streams of the reverse log proxy.
  \<^item> \<open>Http\<close>, \<open>GatewayAuth\<close>, \<open>GatewayWeb\<close> (\<open>rlp-gateway/internal\<close>): the parts of HTTP that are used, the clients for
    UAA and Cloud Controller, selectors, server-sent events and the authorization middleware, whose
    argument is the locale \<open>log_authorizer\<close>. \<open>GatewayFlow\<close> has a stream of the gateway while it runs, with a parser for
    event streams as the reference of what its client reads.
  \<^item> \<open>TcAuth\<close>, \<open>TcProxy\<close> (\<open>trafficcontroller/internal\<close>): authorizers, access log, middlewares, stream handlers and
    web sockets; the locale \<open>proxy_authorizers\<close> is interpreted on the code's authorizers.
    \<open>TcMetrics\<close> has what \<open>NewDopplerProxy\<close> builds and its gauges.
  \<^item> \<open>Apps\<close> (\<open>rlp/app\<close>, \<open>rlp/main.go\<close>, \<open>trafficcontroller/app/config.go\<close>), \<open>RouterProgram\<close> (\<open>router/internal/server/server.go\<close>,
    \<open>profiler\<close>), \<open>GatewayApp\<close> (\<open>rlp-gateway/app\<close>, \<open>internal/metrics\<close>), \<open>TcApp\<close> (\<open>trafficcontroller/app\<close>, \<open>main.go\<close>): the
    programs, from their configuration to the handlers and servers that run, with everything that ends them.
  \<^item> \<open>Confidentiality\<close>: what a router sends on a stream is named by the request of the stream, through the reverse log
    proxy and the traffic controller. This theory puts the programs together.

  \<^bold>\<open>How code becomes definitions.\<close> A struct is a record, an interface value or oneof a datatype, \<open>uint64\<close> a
  64-bit word (counters, indices and checksums wrap), a map that is iterated an association list with
  distinct keys, shared pointers addresses in a heap. A panic is the left side of the sum \<open>'a go\<close>; an
  operation that may not return gives an option. Where goroutines interleave, each atomic access is an
  operation and a run is a list of events or a step relation, so the theorems hold for every schedule; an
  operation under a lock is one step.

  \<^bold>\<open>What is shown.\<close> Delivery: subscribers get exactly what their selectors ask for, one subscriber per
  shard and path, and what a diode drops is reported and counted (for ingress writes that do not overlap), from the receipt of an envelope to the
  batches of a subscriber (\<open>RouterEnd\<close>, for both versions of the interface), through the reverse log proxy (\<open>RlpFlow\<close>),
  the web sockets (\<open>TcFlow\<close>) and the event streams of the gateway (\<open>GatewayFlow\<close>); below, routers and reverse log proxy, and
  routers and traffic controller, together. Safety: only authorized requests
  reach the log sources, for the handlers (\<open>GatewayWeb\<close>, \<open>TcProxy\<close>) and for the programs that are built around them
  (\<open>GatewayApp\<close>, \<open>TcApp\<close>); and, below, what a client reads comes only from sources that its token may read. Invariants of the
  tree, the connectors, the pools and the admission of streams, kept by every operation. Type soundness of the tags.
  Round trips of subscribing, of tags, of identifiers and of event streams. Conservation of counters. Behaviour that the code does not
  intend is stated where the model shows it: the collision guard of \<open>ManyToOne\<close> during its first lap, a
  receiver that blocks on its own error channel, a stale task that closes a new connection, a connection that
  leaks when its pool entry is closed early, the averager after its total wraps, a router without
  buffer sizes, nil configurations dereferenced before the error is checked, forged lines of the access log, a client that
  went away reported as a slow consumer, a log writer that counts more than it was given.

  \<^bold>\<open>Bounds and fuel.\<close> No loop has fuel: loops over data are structural, \<open>partial_function (option)\<close> is used
  for the retry of \<open>ManyToOne.Set\<close>, the poller, the search for a free identifier and the enumeration of paths, and
  that they return is proved where it is claimed. Runs of servers are lists of events of any length. The
  theorems on diodes assume fewer than \<open>2 ^ 63\<close> writes, as the alert converts a difference to a signed integer;
  those on identifiers fewer than \<open>2 ^ 64\<close> subscriptions.

  \<^bold>\<open>Parameters.\<close> gRPC (the results of \<open>Recv\<close>, \<open>Send\<close> and dialling), HTTP clients, JSON decoders, URL parsing, the
  router of \<open>gorilla/mux\<close>, web sockets, protocol buffer marshalling, the conversion between v1 and v2 envelopes,
  \<open>tlsconfig\<close>, \<open>envstruct\<close>, floating point conversions, clocks and random numbers are arguments of the definitions
  that use them.

  \<^bold>\<open>Not modelled.\<close> TLS handshakes and signal handling; the metrics registry of the gateway with its server, and its
  profiler; generated
  protocol buffer code beyond the message types (marshalling, reflection and stubs are code of the gRPC library);
  helpers of the test suites, which are no part of the programs. In \<open>RouterApp\<close> the writers of the
  ingress diode do not overlap (their overlapping is treated in \<open>Diodes\<close>), so the statements on delivery start from what the repeater and the
  message router take from that diode, and the accounting of the diode itself is a lemma on runs without overlap. The events of
  the finder have distinct addresses. The theorems of this theory take what gRPC
  promises, delivery in order, as a hypothesis, and treat one subscription at a time: its streams come from runs of routers
  that serve any other streams as well.
\<close>

section \<open>From the routers to a client\<close>

text \<open>
  C5. The routers and the reverse log proxy together. Suppose that each router stream that a subscription of the
  proxy reads is served by a run of a router, and that gRPC delivers the batches of that stream in order (what was
  received is a prefix of what was sent). Then what the proxy takes from one router is, in order, a part of the
  envelopes that the request asks that router for, and the client is sent a part of the interleaving of these, with
  the tags converged.
\<close>

theorem platform_delivers_wanted:
  assumes run: "rlp_plane_run sf f one b p evs (plane_start f one now m maxStreams) = Some (Inr (s, os))"
    and routers: "\<forall>k < length (pl_readers s). router_serves (batches k) (asks k)"
    and grpc: "\<forall>k < length (pl_readers s). prefix (received_from k os) (concat (batches k))"
  shows "(\<forall>k < length (pl_readers s). subseq (part_of k (yields os)) (asks k)) \<and>
    (\<exists>converged. map Inr converged = map (convergeTags sf p \<circ> snd) (yields os) \<and>
       subseq (concat (st_sent (rl_stream (pl_stream s)))) converged)"
proof -
  note flow = plane_flow [OF run]
  have "subseq (part_of k (yields os)) (asks k)" if "k < length (pl_readers s)" for k
  proof -
    have "prefix (part_of k (yields os)) (received_from k os)" using flow that by simp
    also have "prefix (received_from k os) (concat (batches k))" using grpc that by simp
    finally show ?thesis
      using router_serves_wanted [OF routers [rule_format, OF that]] by (meson prefix_imp_subseq subseq_order.trans)
  qed
  with flow show ?thesis by blast
qed

theorem platform_delivers_wanted_witness:
  "\<exists>s os. rlp_plane_run (\<lambda>_. []) (\<lambda>x. x) 1 True True [Connect, Receive 0 (Inr [example_log]), Put 0, Put 0, Yield]
      (plane_start (\<lambda>x. x) 1 0 example_client 500) = Some (Inr (s, os)) \<and>
     yields os = [(0, example_log)] \<and> subseq (part_of 0 (yields os)) [example_log]"
proof -
  let ?run = "rlp_plane_run (\<lambda>_. []) (\<lambda>x. x) 1 True True [Connect, Receive 0 (Inr [example_log]), Put 0, Put 0, Yield]
      (plane_start (\<lambda>x. x) 1 0 example_client 500)"
  have "convergeTags (\<lambda>_. []) True example_log = Inr (example_log\<lparr>Tags := Some []\<rparr>)"
    by (simp add: convergeTags_def source_log_def Envelope_empty_def)
  then obtain s os where run: "?run = Some (Inr (s, os))"
    and l: "length (pl_readers s) = 1" "received_from 0 os = [example_log]" "yields os = [(0, example_log)]"
    by (auto simp: rlp_plane_run_def plane_open_def is_rx_def plane_step_def plane_start_def reader_receive_def reader_put_def plane_serve_def rlp_step_def rlp_start_def
        consumeBatchReceiver_def consume_rx_def envelopeBufferSize_def plane_obs_simps Let_def)
  from platform_delivers_wanted [OF run, of "\<lambda>_. [[example_log]]" "\<lambda>_. [example_log]"] l router_serves_example run
  show ?thesis by auto
qed

text \<open>
  C6. The routers and the traffic controller together. Suppose that each router stream that a subscription of the traffic
  controller reads is served by the v1 path of a run of a router, and that gRPC delivers the batches of that stream in
  order. Then what the traffic controller takes from one router is, in order, a part of the data that the request asks
  that router for, and what its client is sent over the web socket is the beginning of the interleaving of these.
\<close>

theorem platform_web_socket:
  assumes run: "tc_plane_run r url evs (tc_plane_start m server egressMetric upgraded) = Some (Inr (s, os))"
    and routers: "\<forall>k < length (pl_readers s). router_v1_serves (batches k) (asks k)"
    and grpc: "\<forall>k < length (pl_readers s). prefix (received_from k os) (concat (batches k))"
  shows "(\<forall>k < length (pl_readers s). subseq (part_of k (yields os)) (asks k)) \<and>
    prefix (ws_written (pl_stream s)) (map snd (yields os))"
proof -
  note flow = tc_flow [OF run]
  have "subseq (part_of k (yields os)) (asks k)" if "k < length (pl_readers s)" for k
  proof -
    have "prefix (part_of k (yields os)) (received_from k os)" using flow that by simp
    also have "prefix (received_from k os) (concat (batches k))" using grpc that by simp
    finally show ?thesis
      using router_v1_serves_wanted [OF routers [rule_format, OF that]] by (meson prefix_imp_subseq subseq_order.trans)
  qed
  with flow show ?thesis by (simp add: Let_def)
qed

theorem platform_web_socket_witness:
  "\<exists>s os. tc_plane_run example_ws_request ''/firehose/s'' [Connect, Receive 0 (Inr [[1]]), Put 0, Yield, Serve (WsCase (FromMessages True))]
      example_tc_plane = Some (Inr (s, os)) \<and>
     ws_written (pl_stream s) = [[1]] \<and> subseq (part_of 0 (yields os)) [[1]]"
proof -
  let ?run = "tc_plane_run example_ws_request ''/firehose/s'' [Connect, Receive 0 (Inr [[1]]), Put 0, Yield, Serve (WsCase (FromMessages True))]
      example_tc_plane"
  have "case ?run of Some (Inr (s, os)) \<Rightarrow>
      ws_written (pl_stream s) = [[1]] \<and> length (pl_readers s) = 1 \<and> received_from 0 os = [[1]] | _ \<Rightarrow> False"
    by code_simp
  then obtain s os where run: "?run = Some (Inr (s, os))"
    and l: "ws_written (pl_stream s) = [[1]]" "length (pl_readers s) = 1" "received_from 0 os = [[1]]"
    by (auto split: option.splits sum.splits)
  from platform_web_socket [OF run [unfolded example_tc_plane_def Let_def], of "\<lambda>_. [[[1]]]" "\<lambda>_. [[1]]"] l router_v1_serves_example run
  show ?thesis by auto
qed

section \<open>Confidentiality\<close>

text \<open>
  C3. Confidentiality from the routers to an HTTP client. A request to the gateway opens a stream of the logs provider; the
  reverse log proxy admits it and subscribes to routers with what it was asked for; every router serves its stream from a run
  of its own; gRPC delivers in order (what was received is a prefix of what was sent); the goroutine and the loop of the gateway
  interleave in any way. Then every message of the event stream that the client reads is the JSON of a batch in which each
  envelope has a source that is a GUID and to which the Cloud Controller has confirmed the access of the token of the
  request, unless the authorization server has confirmed the token to be an administrator's.
\<close>

theorem platform_confidential:
  assumes gateway: "gateway_ServeHTTP (\<lambda>token. fst (UAAClient_Read validURL uaaDo decode uaa token))
      (\<lambda>sourceID token. fst (CAPIClient_IsAuthorized validURL capiDo capi sourceID token))
      (ReadHandler Stream flusher Marshal (gp_cases g)) r response_new = (w', reqs)" "req \<in> set reqs" "Stream req"
    and stream: "one_line Marshal" "gateway_run Marshal gevs (gateway_stream_start (sse_open response_new)) = Some g"
    and proxy: "rlp_BatchedReceiver_request subCount req srv = (srv', Inr req')"
      "rlp_plane_run sf f one True (ebr_UsePreferredTags req') evs (plane_start f one now m maxStreams) = Some (Inr (s, os))"
    and routers: "\<forall>k < length (pl_readers s). router_serves_request req' (batches k)"
    and grpc: "\<forall>k < length (pl_readers s). prefix (received_from k os) (concat (batches k))"
      "prefix (gp_received g) (st_sent (rl_stream (pl_stream s)))"
    and message: "(''message'', d) \<in> set (sse_parse (rw_body w'))"
  shows "\<exists>batch. Marshal batch = Inr d \<and> (\<forall>e \<in> set batch. let token = values_get (rq_Header r) ''Authorization'' in
    uaa_admin uaaDo decode uaa token \<or> is_guid (SourceId e) \<and> capi_granted capiDo capi (SourceId e) token)"
proof -
  have w: "w' = read_loop Marshal (gp_cases g) (sse_open response_new)" and legacy: "ebr_LegacySelector req = None"
    using gateway_forwards [OF gateway] by simp_all
  have "rw_body (sse_open response_new) = []" "rw_flushed (sse_open response_new) = 0" by code_simp+
  from gateway_messages [OF stream(1) this stream(2)] message w obtain batch where
    b: "batch \<in> set (gp_received g)" "Marshal batch = Inr d" by auto
  then have "batch \<in> set (st_sent (rl_stream (pl_stream s)))" using grpc(2) by (metis set_mono_prefix subsetD)
  then have named: "\<exists>sel \<in> set (ebr_Selectors req). selector_asks e sel" if "e \<in> set batch" for e
    using rlp_sends_only_named [OF proxy(2) routers grpc(1), of e] rlp_request_selectors [OF proxy(1) legacy] that by auto
  have "let token = values_get (rq_Header r) ''Authorization'' in
    uaa_admin uaaDo decode uaa token \<or> is_guid (SourceId e) \<and> capi_granted capiDo capi (SourceId e) token" if e: "e \<in> set batch" for e
  proof -
    from named [OF e] obtain sel where sel: "sel \<in> set (ebr_Selectors req)" "Selector_SourceId sel = [] \<or> Selector_SourceId sel = SourceId e"
      by (auto simp: selector_asks_def source_matches_def)
    from gateway_authorized [OF gateway(1,2) sel(1)] sel(2) show ?thesis by (auto simp: Let_def dest: is_guid_length)
  qed
  with b(2) show ?thesis by blast
qed


theorem platform_confidential_witness:
  "is_guid example_guid \<and> capi_granted (\<lambda>_. Inr \<lparr>hr_StatusCode = 200, hr_Body = []\<rparr>) \<lparr>capi_addr = ''https://api'', capi_externalAddr = []\<rparr>
     example_guid ''bearer t''"
proof -
  let ?do = "\<lambda>_. Inr \<lparr>hr_StatusCode = 200, hr_Body = []\<rparr>" and ?capi = "\<lparr>capi_addr = ''https://api'', capi_externalAddr = []\<rparr>"
  let ?decode = "\<lambda>_. Inr \<lparr>ur_Scopes = [], ur_UserID = ''u'', ur_ClientID = []\<rparr>"
  let ?uaa = "\<lparr>uaa_url = ''https://uaa'', uaa_client = [], uaa_clientSecret = []\<rparr>"
  let ?serve = "gateway_ServeHTTP (\<lambda>token. fst (UAAClient_Read (\<lambda>_. True) ?do ?decode ?uaa token))
      (\<lambda>sourceID token. fst (CAPIClient_IsAuthorized (\<lambda>_. True) ?do ?capi sourceID token))
      (ReadHandler (\<lambda>_. True) True (example_json example_batch) [ReadHeartbeat 1, ReadBatch example_batch]) example_read response_new"
  have "snd ?serve = [log_request [] example_guid]" by code_simp
  moreover have "sse_parse (rw_body (fst ?serve)) = [(''heartbeat'', ''1''), (''message'', ''{}'')]" by code_simp
  ultimately obtain w' where serve: "?serve = (w', [log_request [] example_guid])"
    and m: "(''message'', ''{}'') \<in> set (sse_parse (rw_body w'))" by (cases ?serve) simp
  have "snd (rlp_BatchedReceiver_request 1 (log_request [] example_guid) (rlp_NewServer example_client 100 100000000 [])) =
      Inr (log_request [] example_guid)" by code_simp
  then obtain srv' where admitted: "rlp_BatchedReceiver_request 1 (log_request [] example_guid) (rlp_NewServer example_client 100 100000000 []) =
      (srv', Inr (log_request [] example_guid))" by (metis prod.collapse)
  from example_gateway_run obtain g where g: "gateway_run (example_json example_batch) example_gateway_events
      (gateway_stream_start (sse_open response_new)) = Some g" "gp_cases g = [ReadHeartbeat 1, ReadBatch example_batch]"
    "gp_received g = [example_batch]" by blast
  from example_rlp_run obtain s os where run: "rlp_plane_run (\<lambda>_. []) (\<lambda>x. x) 1 True (ebr_UsePreferredTags (log_request [] example_guid))
      example_rlp_events (plane_start (\<lambda>x. x) 1 0 example_client 500) = Some (Inr (s, os))"
    and l: "length (pl_readers s) = 1" "received_from 0 os = [source_log example_guid]" "st_sent (rl_stream (pl_stream s)) = [example_batch]" by blast
  have json: "one_line (example_json example_batch)" by (auto simp: one_line_def example_json_def)
  have routers: "\<forall>k < length (pl_readers s). router_serves_request (log_request [] example_guid) [[source_log example_guid]]"
    by (simp add: source_log_served)
  have grpc: "\<forall>k < length (pl_readers s). prefix (received_from k os) (concat [[source_log example_guid]])"
    "prefix (gp_received g) (st_sent (rl_stream (pl_stream s)))" using l g(3) by simp_all
  from platform_confidential [OF serve [folded g(2)] _ _ json g(1) admitted run routers grpc m]
  obtain batch where batch: "example_json example_batch batch = Inr ''{}''"
    "\<forall>e \<in> set batch. let token = values_get (rq_Header example_read) ''Authorization'' in
      uaa_admin ?do ?decode ?uaa token \<or> is_guid (SourceId e) \<and> capi_granted ?do ?capi (SourceId e) token" by auto
  from batch(1) have "batch = example_batch" by (simp add: example_json_def split: if_splits)
  moreover have "\<not> uaa_admin ?do ?decode ?uaa ''bearer t''" by (simp add: uaa_admin_def)
  moreover have "values_get (rq_Header example_read) ''Authorization'' = ''bearer t''" by code_simp
  ultimately show ?thesis using batch(2) by (simp add: Let_def source_log_def example_batch_def)
qed

text \<open>
  C4. Confidentiality from the routers to a web socket. A request to the traffic controller, with access control on, is
  routed, authorized and subscribed; every router serves its stream from a run of its own and gRPC delivers in order. Then
  everything written to the web socket is the payload of an envelope of the application that the route of the request names,
  whose ID is a GUID and for which the Cloud Controller has confirmed the access of the token of the request, unless the
  authorization server has confirmed it: it has answered 200 for the token, and the body of that answer decodes to scopes with
  the one of the firehose.
\<close>

theorem platform_web_socket_confidential:
  assumes proxy: "DopplerProxy_ServeHTTP (NewLogAccessAuthorizer validURL apiDo StatusText False apiHost)
      (NewAdminAccessAuthorizer False (GetAuthData validURL uaaDo ReadAll decodeError decodeAuth uaa))
      subscribe serve ParseForm cookieString cookieDomain False route r w = Inr (w', reqs)" "req \<in> set reqs"
    and run: "tc_plane_run r url evs (tc_plane_start m server egressMetric upgraded) = Some (Inr (s, os))"
    and routers: "\<forall>k < length (pl_readers s). router_v1_serves_request cd req (batches k)"
    and grpc: "\<forall>k < length (pl_readers s). prefix (received_from k os) (concat (batches k))"
    and payload: "payload \<in> set (ws_written (pl_stream s))"
  shows "\<exists>e. cd_marshal cd e = Some payload \<and> (let token = getAuthToken r in
    tc_admin uaaDo decodeAuth uaa token \<or>
    is_guid (getAppId e) \<and> tc_granted apiDo apiHost token (getAppId e) \<and> route r = Some (RouteStream (getAppId e)))"
proof -
  let ?app = "f_appID (convertFilter req)"
  have auth: "tc_admin uaaDo decodeAuth uaa (getAuthToken r) \<or>
      is_guid ?app \<and> tc_granted apiDo apiHost (getAuthToken r) ?app \<and> route r = Some (RouteStream ?app)"
    using proxy_authorized [of validURL apiDo StatusText apiHost uaaDo ReadAll decodeError decodeAuth uaa subscribe serve ParseForm
        cookieString cookieDomain route r w] proxy by (auto simp: Let_def)
  from ws_sends_only_named [OF run routers grpc payload] obtain e where
    e: "cd_marshal cd e = Some payload" "?app = [] \<or> ?app = getAppId e" by (auto simp: filter_matches_def)
  with auth show ?thesis by (intro exI [of _ e]) (auto simp: Let_def dest: is_guid_length)
qed

theorem platform_web_socket_confidential_witness:
  "is_guid example_guid \<and> tc_granted (\<lambda>_. Inr \<lparr>hr_StatusCode = 200, hr_Body = []\<rparr>) ''https://api'' ''bearer t'' example_guid"
proof -
  let ?ok = "\<lambda>_. Inr \<lparr>hr_StatusCode = 200, hr_Body = []\<rparr>" and ?decode = "\<lambda>_. Inr \<lparr>ad_Scope = []\<rparr>"
  let ?uaa = "NewUaaClient ''https://uaa'' ''id'' ''secret''"
  let ?r = "example_read\<lparr>rq_Path := ''/apps/'' @ example_guid @ ''/stream''\<rparr>"
  let ?serve = "DopplerProxy_ServeHTTP (NewLogAccessAuthorizer (\<lambda>_. True) ?ok (\<lambda>_. []) False ''https://api'')
      (NewAdminAccessAuthorizer False (GetAuthData (\<lambda>_. True) ?ok (\<lambda>_. None) (\<lambda>_. Inl []) ?decode ?uaa))
      (\<lambda>_. Inr ()) (\<lambda>_ w. w) (\<lambda>_. Inr []) (\<lambda>_. []) [] False (\<lambda>_. Some (RouteStream example_guid)) ?r response_new"
  let ?run = "tc_plane_run ?r ''/stream'' [Connect, Receive 0 (Inr [[1]]), Put 0, Yield, Serve (WsCase (FromMessages True))] example_tc_plane"
  have 1: "map_sum id snd ?serve = Inr [app_request example_guid]" by code_simp
  have 2: "case ?run of Some (Inr (s, os)) \<Rightarrow>
      ws_written (pl_stream s) = [[1]] \<and> length (pl_readers s) = 1 \<and> received_from 0 os = [[1]] | _ \<Rightarrow> False" by code_simp
  from 2 obtain s os where run: "?run = Some (Inr (s, os))"
    and l: "ws_written (pl_stream s) = [[1]]" "length (pl_readers s) = 1" "received_from 0 os = [[1]]"
    by (auto split: option.splits sum.splits)
  from 1 obtain w' where serve: "?serve = Inr (w', [app_request example_guid])" by (cases ?serve) auto
  have "\<not> tc_admin ?ok ?decode ?uaa ''bearer t''" by (simp add: tc_admin_def)
  moreover have "getAuthToken ?r = ''bearer t''" by code_simp
  moreover have "router_v1_serves_request (app_codec example_guid) (app_request example_guid) [[[1]]]"
    by (rule app_data_served) code_simp
  moreover note platform_web_socket_confidential [OF serve _ run [unfolded example_tc_plane_def Let_def], where cd = "app_codec example_guid"
      and batches = "\<lambda>_. [[[1]]]" and payload = "[1]"]
  ultimately show ?thesis using l by (auto simp: Let_def)
qed

end
